(* ===== verification/HL_Prelude.thy ===== *)
theory HL_Prelude
  imports Main "HOL-Library.Word"
begin

text \<open>
  Shared vocabulary of the development: machine types, the reasons a C call does not return a
  value, the monad that threads them, allocated memory blocks with bounds and lifetime checks,
  kernel pointers, and the wait loops of the module (\<open>while (c) usleep_range(..)\<close>).

  \<^item> A C \<open>char\<close> is a HOL \<open>char\<close>, a \<open>uint64_t\<close> a 64-bit word, a C \<open>int\<close> a HOL \<open>int\<close> whose additions
    are checked against the 32-bit range (signed overflow is undefined behaviour).
  \<^item> An allocation is a \<open>block\<close>: its cells, its size in bytes, and whether it is still allocated.
  \<^item> A result is \<open>stop + 'a\<close>: \<open>Inl\<close> says why the call did not produce a value.
\<close>

section \<open>Collections of proof hints\<close>

named_theorems mem_simps \<open>equations about memory blocks\<close>
named_theorems word_facts \<open>moving 64-bit counters to natural numbers\<close>

section \<open>Machine types and results\<close>

type_synonym u64 = "64 word"
type_synonym u32 = "32 word"

abbreviation NUL :: char where "NUL \<equiv> CHR 0x00"
abbreviation NEWLINE :: char where "NEWLINE \<equiv> CHR 0x0A"

text \<open>
  Why a call stops without a value: the four memory errors, signed overflow, division by zero, an
  uncaught exception of a C++ conversion, or that it is still in a wait loop when the given interleaving of the other threads ends.
\<close>

datatype stop = NullDeref | OutOfBounds | UseAfterFree | DoubleFree
  | SignedOverflow | DivideByZero | InvalidArgument | OutOfRange | Waiting

type_synonym 'a res = "stop + 'a"

definition rbind :: "'a res \<Rightarrow> ('a \<Rightarrow> 'b res) \<Rightarrow> 'b res" where
  "rbind m k = (case m of Inl e \<Rightarrow> Inl e | Inr x \<Rightarrow> k x)"

lemma rbind_simps [simp]:
  "rbind (Inl e) k = Inl e"
  "rbind (Inr x) k = k x"
  by (simp_all add: rbind_def)

lemma rbind_eq_Inr [simp]: "rbind m k = Inr y \<longleftrightarrow> (\<exists>x. m = Inr x \<and> k x = Inr y)"
  by (cases m) simp_all

lemma rbind_cong [fundef_cong]:
  "m = m' \<Longrightarrow> (\<And>x. m' = Inr x \<Longrightarrow> k x = k' x) \<Longrightarrow> rbind m k = rbind m' k'"
  by (cases m') simp_all

lemma rbind_assoc: "rbind (rbind m f) g = rbind m (\<lambda>x. rbind (f x) g)"
  by (cases m) simp_all

lemma Inr_if_eq [simp]:
  "(if c then Inl e else m) = Inr y \<longleftrightarrow> \<not> c \<and> m = Inr y"
  "(if c then m else Inl e) = Inr y \<longleftrightarrow> c \<and> m = Inr y"
  by simp_all

section \<open>C integers\<close>

definition int32_range :: "int \<Rightarrow> bool" where
  "int32_range i \<longleftrightarrow> - (2 ^ 31) \<le> i \<and> i < 2 ^ 31"

text \<open>Signed addition on \<open>int\<close>.\<close>

definition c_int_add :: "int \<Rightarrow> int \<Rightarrow> int res" where
  "c_int_add a b = (if int32_range (a + b) then Inr (a + b) else Inl SignedOverflow)"

text \<open>
  \<open>i += n\<close> with \<open>int i\<close> and \<open>size_t n\<close>: the sum is taken in 64 unsigned bits and truncated to the
  32 bits of the \<open>int\<close>.
\<close>

definition c_int_add_size :: "int \<Rightarrow> u64 \<Rightarrow> int" where
  "c_int_add_size i n = sint (ucast (word_of_int i + n) :: u32)"

lemma u64_bound: "unat (w :: u64) < 2 ^ 64"
  using unsigned_less [of w] by simp

lemma u32_bound: "unat (w :: u32) < 2 ^ 32"
  using unsigned_less [of w] by simp

lemma minus_one_u32: "(w :: u32) = - 1 \<longleftrightarrow> unat w = 2 ^ 32 - 1"
proof -
  have "unat (- 1 :: u32) = 2 ^ 32 - 1"
    by (simp add: unsigned_minus_1_eq_mask mask_eq_exp_minus_1)
  then show ?thesis by (metis unsigned_word_eqI)
qed

lemma unat_inc [word_facts]: "unat w < 2 ^ 64 - 1 \<Longrightarrow> unat (w + 1 :: u64) = Suc (unat w)"
  by (simp add: unat_word_ariths)

lemma unat_add_no_wrap [word_facts]:
  "unat a + unat b < 2 ^ 64 \<Longrightarrow> unat (a + b :: u64) = unat a + unat b"
  by (simp add: unat_word_ariths)

text \<open>Conversions between \<open>int\<close> and the unsigned types.\<close>

lemma unat_of_int_small [word_facts]: "0 \<le> r \<Longrightarrow> r < 2 ^ 64 \<Longrightarrow> unat (word_of_int r :: u64) = nat r"
  by (simp add: unsigned_of_int take_bit_int_eq_self)

lemma unat_of_int_neg: "- (2 ^ 63) \<le> r \<Longrightarrow> r < 0 \<Longrightarrow> 2 ^ 63 \<le> unat (word_of_int r :: u64)"
proof -
  assume r: "- (2 ^ 63) \<le> r" "r < 0"
  have "(word_of_int r :: u64) = word_of_int (r + 2 ^ 64)" by (simp flip: word_of_int_2p_len add: wi_hom_syms)
  then have "unat (word_of_int r :: u64) = nat (r + 2 ^ 64)"
    using r by (simp only:) (rule unat_of_int_small; simp)
  then show ?thesis using r by simp
qed

lemma sint_u32: "- (2 ^ 31) \<le> k \<Longrightarrow> k < 2 ^ 31 \<Longrightarrow> sint (word_of_int k :: u32) = k"
  by (simp add: signed_of_int signed_take_bit_int_eq_self)

lemma ucast_u32_of_int: "(ucast (word_of_int k :: u64) :: u32) = word_of_int k"
  by (transfer) (simp add: take_bit_take_bit)

lemma c_int_add_size_small:
  assumes "0 \<le> i" "i + int (unat n) < 2 ^ 31"
  shows "c_int_add_size i n = i + int (unat n)"
proof -
  have "(word_of_int i + n :: u64) = word_of_int (i + int (unat n))"
    by simp
  then have "(ucast (word_of_int i + n :: u64) :: u32) = word_of_int (i + int (unat n))"
    by (simp only: ucast_u32_of_int)
  moreover have "- (2 ^ 31) \<le> i + int (unat n)" using add_nonneg_nonneg [OF assms(1) uint_ge_0 [of n]] by simp
  ultimately show ?thesis
    using assms(2) by (simp only: c_int_add_size_def sint_u32)
qed

section \<open>Memory blocks\<close>

type_synonym mem = "nat \<Rightarrow> char"

definition write_mem :: "mem \<Rightarrow> nat \<Rightarrow> char list \<Rightarrow> mem" where
  "write_mem m off bs = (\<lambda>i. if off \<le> i \<and> i < off + length bs then bs ! (i - off) else m i)"

definition read_mem :: "mem \<Rightarrow> nat \<Rightarrow> nat \<Rightarrow> char list" where
  "read_mem m off n = map (\<lambda>i. m (off + i)) [0..<n]"

lemma length_read_mem [simp]: "length (read_mem m off n) = n"
  by (simp add: read_mem_def)

lemma nth_read_mem [simp]: "i < n \<Longrightarrow> read_mem m off n ! i = m (off + i)"
  by (simp add: read_mem_def)

lemma read_mem_0 [simp]: "read_mem m off 0 = []"
  by (simp add: read_mem_def)

lemma read_mem_add: "read_mem m off (a + b) = read_mem m off a @ read_mem m (off + a) b"
  by (rule nth_equalityI) (auto simp: nth_append)

lemma read_mem_snoc: "read_mem m off (n + 1) = read_mem m off n @ [m (off + n)]"
  by (simp add: read_mem_def)

lemma read_mem_cong:
  "(\<And>i. off \<le> i \<Longrightarrow> i < off + n \<Longrightarrow> m i = m' i) \<Longrightarrow> read_mem m off n = read_mem m' off n"
  by (rule nth_equalityI) auto

lemma write_mem_nil [simp]: "write_mem m off [] = m"
  by (rule ext) (auto simp: write_mem_def)

lemma write_mem_in [mem_simps]:
  "off \<le> i \<Longrightarrow> i < off + length bs \<Longrightarrow> write_mem m off bs i = bs ! (i - off)"
  by (simp add: write_mem_def)

lemma write_mem_out [mem_simps]: "i < off \<or> off + length bs \<le> i \<Longrightarrow> write_mem m off bs i = m i"
  by (auto simp: write_mem_def)

lemma read_write_same [mem_simps]: "read_mem (write_mem m off bs) off (length bs) = bs"
  by (rule nth_equalityI) (auto simp: write_mem_def)

lemma read_write_before [mem_simps]:
  "a + n \<le> off \<Longrightarrow> read_mem (write_mem m off bs) a n = read_mem m a n"
  by (rule nth_equalityI) (auto simp: write_mem_def)

lemma read_write_after [mem_simps]:
  "off + length bs \<le> a \<Longrightarrow> read_mem (write_mem m off bs) a n = read_mem m a n"
  by (rule nth_equalityI) (auto simp: write_mem_def)

lemma read_write_prefix:
  "n \<le> length bs \<Longrightarrow> read_mem (write_mem m off bs) off n = take n bs"
  by (rule nth_equalityI) (auto simp: write_mem_def)

lemma write_mem_append: "write_mem (write_mem m off xs) (off + length xs) ys = write_mem m off (xs @ ys)"
  by (rule ext) (auto simp: write_mem_def nth_append)

text \<open>An allocation of \<open>kmalloc\<close> or \<open>vmalloc\<close>, with its contents, size and lifetime.\<close>

record block =
  cells :: mem
  bsize :: nat
  live :: bool

definition load :: "block \<Rightarrow> int \<Rightarrow> nat \<Rightarrow> char list res" where
  "load b off n =
     (if \<not> live b then Inl UseAfterFree
      else if 0 \<le> off \<and> off + int n \<le> int (bsize b) then Inr (read_mem (cells b) (nat off) n)
      else Inl OutOfBounds)"

definition store :: "block \<Rightarrow> int \<Rightarrow> char list \<Rightarrow> block res" where
  "store b off bs =
     (if \<not> live b then Inl UseAfterFree
      else if 0 \<le> off \<and> off + int (length bs) \<le> int (bsize b)
      then Inr (b\<lparr>cells := write_mem (cells b) (nat off) bs\<rparr>)
      else Inl OutOfBounds)"

text \<open>\<open>kfree\<close> and \<open>vfree\<close>: the pointer keeps its value, the allocation is gone.\<close>

definition free_block :: "block \<Rightarrow> block res" where
  "free_block b = (if live b then Inr (b\<lparr>live := False\<rparr>) else Inl DoubleFree)"

lemma store_Inr [mem_simps]:
  "live b \<Longrightarrow> 0 \<le> off \<Longrightarrow> off + int (length bs) \<le> int (bsize b) \<Longrightarrow>
   store b off bs = Inr (b\<lparr>cells := write_mem (cells b) (nat off) bs\<rparr>)"
  by (simp add: store_def)

lemma load_Inr [mem_simps]:
  "live b \<Longrightarrow> 0 \<le> off \<Longrightarrow> off + int n \<le> int (bsize b) \<Longrightarrow>
   load b off n = Inr (read_mem (cells b) (nat off) n)"
  by (simp add: load_def)

lemma store_word [mem_simps]:
  fixes w :: u64
  assumes "live b" and "unat w + length bs \<le> bsize b"
  shows "store b (uint w) bs = Inr (b\<lparr>cells := write_mem (cells b) (unat w) bs\<rparr>)"
proof -
  have e: "uint w = int (unat w)" by (rule uint_nat)
  have "0 \<le> int (unat w) \<and> int (unat w) + int (length bs) \<le> int (bsize b)"
    using assms(2) by (metis of_nat_0_le_iff of_nat_add of_nat_le_iff)
  then show ?thesis using assms(1) by (simp only: store_def e nat_int) simp
qed

lemma load_word [mem_simps]:
  fixes w :: u64
  assumes "live b" and "unat w + n \<le> bsize b"
  shows "load b (uint w) n = Inr (read_mem (cells b) (unat w) n)"
proof -
  have e: "uint w = int (unat w)" by (rule uint_nat)
  have "0 \<le> int (unat w) \<and> int (unat w) + int n \<le> int (bsize b)"
    using assms(2) by (metis of_nat_0_le_iff of_nat_add of_nat_le_iff)
  then show ?thesis using assms(1) by (simp only: load_def e nat_int) simp
qed

lemma store_frame:
  "store b off bs = Inr b' \<Longrightarrow> bsize b' = bsize b \<and> live b' = live b"
  by (auto simp: store_def split: if_splits)

section \<open>Kernel pointers\<close>

text \<open>
  A pointer returned by a kernel interface is NULL, an error code in pointer form (what
  \<open>IS_ERR\<close> recognises), or the address of an object.
\<close>

datatype 'a kptr = NullPtr | ErrPtr int | Ptr 'a

fun is_err :: "'a kptr \<Rightarrow> bool" where
  "is_err (ErrPtr _) = True"
| "is_err _ = False"

fun is_null :: "'a kptr \<Rightarrow> bool" where
  "is_null NullPtr = True"
| "is_null _ = False"

text \<open>Dereferencing a pointer that is NULL or an error code is a fault.\<close>

definition deref :: "'a kptr \<Rightarrow> 'a res" where
  "deref p = (case p of Ptr x \<Rightarrow> Inr x | _ \<Rightarrow> Inl NullDeref)"

lemma deref_Ptr [simp]: "deref (Ptr x) = Inr x"
  by (simp add: deref_def)

lemma kptr_good: "\<not> is_err p \<Longrightarrow> \<not> is_null p \<Longrightarrow> \<exists>x. p = Ptr x"
  by (cases p) auto

section \<open>Wait loops\<close>

text \<open>
  \<open>while (c) usleep_range(..)\<close>: each list element is what the other threads do to the shared state
  during one sleep. The loop returns the state it left with and the interleaving it did not use;
  \<open>Inl Waiting\<close> says that it was still waiting when the list ended.
\<close>

fun wait_while :: "('s \<Rightarrow> bool) \<Rightarrow> ('s \<Rightarrow> 's) list \<Rightarrow> 's \<Rightarrow> ('s \<times> ('s \<Rightarrow> 's) list) res" where
  "wait_while c [] s = (if c s then Inl Waiting else Inr (s, []))"
| "wait_while c (f # fs) s = (if c s then wait_while c fs (f s) else Inr (s, f # fs))"

lemma wait_while_now [simp]: "\<not> c s \<Longrightarrow> wait_while c env s = Inr (s, env)"
  by (cases env) auto

lemma wait_while_exit: "wait_while c env s = Inr (s', env') \<Longrightarrow> \<not> c s'"
  by (induction c env s rule: wait_while.induct) (auto split: if_splits)

lemma wait_while_shorter: "wait_while c env s = Inr (s', env') \<Longrightarrow> length env' \<le> length env"
  by (induction c env s rule: wait_while.induct) (auto split: if_splits)

text \<open>Anything the other threads keep, the loop keeps.\<close>

lemma wait_while_inv:
  assumes "wait_while c env s = Inr (s', env')" and "P s"
    and "\<And>f x. f \<in> set env \<Longrightarrow> P x \<Longrightarrow> P (f x)"
  shows "P s' \<and> set env' \<subseteq> set env"
  using assms by (induction c env s rule: wait_while.induct) (auto split: if_splits)

lemma wait_while_cases: "wait_while c env s = Inl Waiting \<or> (\<exists>r. wait_while c env s = Inr r)"
  by (induction c env s rule: wait_while.induct) auto

text \<open>The loop returns as soon as some prefix of the interleaving makes its guard false.\<close>

lemma wait_while_returns:
  assumes "k \<le> length env" and "\<not> c (fold (\<lambda>f. f) (take k env) s)"
  shows "\<exists>r. wait_while c env s = Inr r"
  using assms
proof (induction c env s arbitrary: k rule: wait_while.induct)
  case (1 c s)
  then show ?case by simp
next
  case (2 c f fs s)
  show ?case
  proof (cases "c s")
    case True
    with "2.prems" obtain k' where "k = Suc k'" by (cases k) auto
    with "2.prems" True have "\<exists>r. wait_while c fs (f s) = Inr r"
      by (intro "2.IH" [of k']) auto
    with True show ?thesis by simp
  qed simp
qed

text \<open>The state that the loop returns is the state after a prefix of the interleaving.\<close>

lemma wait_while_state:
  assumes "wait_while c env s = Inr (s', env')"
  shows "\<exists>k \<le> length env. s' = fold (\<lambda>f. f) (take k env) s \<and> env' = drop k env \<and> \<not> c s'"
  using assms
proof (induction c env s rule: wait_while.induct)
  case (1 c s)
  then show ?case by (auto split: if_splits)
next
  case (2 c f fs s)
  show ?case
  proof (cases "c s")
    case True
    with 2 obtain k where "k \<le> length fs" "s' = fold (\<lambda>f. f) (take k fs) (f s)" "env' = drop k fs" "\<not> c s'" by auto
    then show ?thesis by (intro exI [of _ "Suc k"]) simp
  next
    case False
    with 2 show ?thesis by (intro exI [of _ 0]) simp
  qed
qed

end
