(* ===== verification/HL_Ring.thy ===== *)
theory HL_Ring
  imports HL_Prelude
begin

text \<open>
  The circular buffers of the system, \<open>audit_cbuff\<close> on the host and \<open>data_cbuff\<close> on the device,
  have one geometry: 64-bit counters \<open>head\<close> and \<open>tail\<close> that only grow (and wrap at \<open>2^64\<close>), a
  capacity that divides \<open>2^64\<close>, and an allocation a little larger than the capacity, so that a
  write that starts just below the capacity runs on into the slack. The locale states this
  geometry once; each buffer interprets it.

  The abstract content of a ring is the byte queue \<open>ring_bytes\<close>: the bytes at the absolute
  positions \<open>s, s+1, \<dots>\<close>, each at its position modulo the capacity.
\<close>

section \<open>The buffer of the host module (hl.h)\<close>

record audit_circ_buffer =
  buffer :: "block option"
  backup_buffer :: "block option"
  head :: u64
  tail :: u64

section \<open>The abstract byte queue\<close>

definition ring_bytes :: "nat \<Rightarrow> mem \<Rightarrow> nat \<Rightarrow> nat \<Rightarrow> char list" where
  "ring_bytes cap m s n = map (\<lambda>i. m ((s + i) mod cap)) [0..<n]"

lemma length_ring_bytes [simp]: "length (ring_bytes cap m s n) = n"
  by (simp add: ring_bytes_def)

lemma nth_ring_bytes [simp]: "i < n \<Longrightarrow> ring_bytes cap m s n ! i = m ((s + i) mod cap)"
  by (simp add: ring_bytes_def)

lemma ring_bytes_0 [simp]: "ring_bytes cap m s 0 = []"
  by (simp add: ring_bytes_def)

lemma ring_bytes_add: "ring_bytes cap m s (a + b) = ring_bytes cap m s a @ ring_bytes cap m (s + a) b"
  by (rule nth_equalityI) (auto simp: nth_append ac_simps)

lemma ring_bytes_Suc: "ring_bytes cap m s (Suc n) = m (s mod cap) # ring_bytes cap m (Suc s) n"
  using ring_bytes_add [of cap m s 1 n] by (simp add: ring_bytes_def)

lemma ring_bytes_mod: "ring_bytes cap m (s mod cap) n = ring_bytes cap m s n"
  by (rule nth_equalityI) (auto simp: mod_add_left_eq)

lemma mod_plus_small: "(s :: nat) mod c + j < c \<Longrightarrow> (s + j) mod c = s mod c + j"
  by (metis mod_add_left_eq mod_less)

text \<open>A stretch that does not cross the capacity is read linearly.\<close>

lemma ring_bytes_linear:
  assumes "s mod cap + n \<le> cap"
  shows "ring_bytes cap m s n = read_mem m (s mod cap) n"
proof (rule nth_equalityI)
  fix i assume "i < length (ring_bytes cap m s n)"
  then have i: "i < n" by simp
  with assms have "(s + i) mod cap = s mod cap + i"
    by (intro mod_plus_small) simp
  with i show "ring_bytes cap m s n ! i = read_mem m (s mod cap) n ! i" by simp
qed simp

section \<open>The geometry\<close>

locale ring_geometry =
  fixes cap :: nat and slack :: nat
  assumes cap_pos: "0 < cap"
    and cap_dvd: "cap dvd 2 ^ 64"
    and slack_le: "slack \<le> cap"
    and cap_small: "cap < 2 ^ 62"
begin

lemma cap_lt: "cap < 2 ^ 64"
  using cap_small by (rule order_less_le_trans) simp

lemma unat_cap: "unat (of_nat cap :: u64) = cap"
  using cap_lt by (simp add: unat_of_nat take_bit_eq_mod)

lemma unat_mod_cap: "unat (w mod of_nat cap :: u64) = unat w mod cap"
  by (simp add: unat_mod_distrib unat_cap)

text \<open>Counter arithmetic wraps at \<open>2^64\<close>, and the index does not notice.\<close>

lemma index_add: "unat ((s + c) mod of_nat cap :: u64) = (unat s + unat c) mod cap"
proof -
  have "unat (s + c) mod cap = (unat s + unat c) mod 2 ^ 64 mod cap"
    by (simp add: unat_word_ariths)
  also have "\<dots> = (unat s + unat c) mod cap"
    using cap_dvd by (rule mod_mod_cancel)
  finally show ?thesis by (simp add: unat_mod_cap)
qed

lemma index_lt: "unat (w mod of_nat cap :: u64) < cap"
  by (simp add: unat_mod_cap cap_pos)

text \<open>A write of at most the slack stays inside the allocation.\<close>

lemma linear_write_fits: "n \<le> slack \<Longrightarrow> unat (w mod of_nat cap :: u64) + n \<le> cap + slack"
  using index_lt [of w] by simp

text \<open>Moving the head by \<open>n\<close> makes the ring \<open>n\<close> bytes fuller.\<close>

lemma used_add:
  assumes "unat (h - t :: u64) + n < 2 ^ 64"
  shows "unat (h + of_nat n - t :: u64) = unat (h - t) + n"
proof -
  have "h + of_nat n - t = (h - t) + of_nat n" by (simp add: algebra_simps)
  moreover have "unat ((h - t) + of_nat n :: u64) = unat (h - t) + n"
    using assms by (simp add: unat_word_ariths unat_of_nat take_bit_eq_mod mod_add_right_eq)
  ultimately show ?thesis by (simp only:)
qed

text \<open>The position of the head is the position of the tail plus the fill, modulo the capacity.\<close>

lemma head_position: "unat (h :: u64) mod cap = (unat t + unat (h - t)) mod cap"
  using index_add [of t "h - t"] by (simp add: unat_mod_cap)

text \<open>
  The central law: copying \<open>bs\<close> at the head appends \<open>bs\<close> to the byte queue, provided the copy
  does not run past the capacity and does not overrun the tail.
\<close>

lemma push_appends:
  assumes room: "unat (h - t :: u64) + length bs \<le> cap"
    and straight: "unat h mod cap + length bs \<le> cap"
  shows "ring_bytes cap (write_mem m (unat h mod cap) bs) (unat t) (unat (h - t) + length bs)
       = ring_bytes cap m (unat t) (unat (h - t)) @ bs"
proof -
  let ?u = "unat (h - t)" and ?m = "write_mem m (unat h mod cap) bs"
  have old: "ring_bytes cap ?m (unat t) ?u = ring_bytes cap m (unat t) ?u"
  proof (rule nth_equalityI)
    fix i assume "i < length (ring_bytes cap ?m (unat t) ?u)"
    then have i: "i < ?u" by simp
    let ?p = "(unat t + i) mod cap"
    have "\<not> (unat h mod cap \<le> ?p \<and> ?p < unat h mod cap + length bs)"
    proof
      assume "unat h mod cap \<le> ?p \<and> ?p < unat h mod cap + length bs"
      then obtain j where j: "j < length bs" "?p = unat h mod cap + j"
        by (metis add_less_cancel_left le_Suc_ex)
      with straight have "(unat h + j) mod cap = ?p"
        by (subst mod_plus_small) auto
      moreover have "(unat h + j) mod cap = (unat t + ?u + j) mod cap"
        using head_position [of h t] by (rule mod_add_cong) simp
      ultimately have "(unat t + ?u + j) mod cap = (unat t + i) mod cap" by simp
      then have "cap dvd ?u + j - i"
        using i by (simp add: mod_eq_dvd_iff_nat)
      moreover have "0 < ?u + j - i" "?u + j - i < cap"
        using i j(1) room by auto
      ultimately show False by (metis nat_dvd_not_less)
    qed
    with i show "ring_bytes cap ?m (unat t) ?u ! i = ring_bytes cap m (unat t) ?u ! i"
      by (auto simp: write_mem_def)
  qed simp
  have "ring_bytes cap ?m (unat t + ?u) (length bs) = ring_bytes cap ?m (unat h) (length bs)"
    using head_position [of h t] ring_bytes_mod by metis
  also have "\<dots> = bs"
    using straight by (simp add: ring_bytes_linear read_write_same)
  finally show ?thesis
    by (simp add: ring_bytes_add old)
qed

text \<open>
  Beyond the central law. A copy of more bytes than there is room for replaces the oldest bytes of
  the queue by its own last bytes.
\<close>

lemma push_overruns:
  assumes less: "unat (h - t :: u64) \<le> cap" and over: "cap < unat (h - t) + length bs"
    and straight: "unat h mod cap + length bs \<le> cap"
  shows "ring_bytes cap (write_mem m (unat h mod cap) bs) (unat t) (unat (h - t) + length bs - cap)
       = drop (cap - unat (h - t)) bs"
proof (rule nth_equalityI)
  let ?u = "unat (h - t)" and ?m = "write_mem m (unat h mod cap) bs"
  show "length (ring_bytes cap ?m (unat t) (?u + length bs - cap)) = length (drop (cap - ?u) bs)"
    using less over by simp
  fix i assume "i < length (ring_bytes cap ?m (unat t) (?u + length bs - cap))"
  then have i: "cap - ?u + i < length bs" using less over by simp
  have "(unat t + i) mod cap = (unat t + i + cap) mod cap" by simp
  also have "unat t + i + cap = unat t + ?u + (cap - ?u + i)" using less by simp
  also have "\<dots> mod cap = (unat h + (cap - ?u + i)) mod cap"
    using head_position [of h t] by (metis mod_add_cong)
  also have "\<dots> = unat h mod cap + (cap - ?u + i)"
    using straight i by (intro mod_plus_small) simp
  finally have "(unat t + i) mod cap = unat h mod cap + (cap - ?u + i)" .
  with i show "ring_bytes cap ?m (unat t) (?u + length bs - cap) ! i = drop (cap - ?u) bs ! i"
    using less over by (simp add: write_mem_in)
qed

lemma ring_bytes_cong:
  "(\<And>i. i < cap \<Longrightarrow> m i = m' i) \<Longrightarrow> ring_bytes cap m s n = ring_bytes cap m' s n"
  using cap_pos by (intro nth_equalityI) auto

text \<open>
  A copy that runs past the capacity leaves its rest in the slack: the queue continues with what
  was at the start of the allocation before.
\<close>

lemma push_straddles:
  assumes room: "unat (h - t :: u64) + length bs \<le> cap"
    and cross: "cap < unat h mod cap + length bs"
  defines "r \<equiv> cap - unat h mod cap"
  shows "ring_bytes cap (write_mem m (unat h mod cap) bs) (unat t) (unat (h - t) + length bs)
       = ring_bytes cap m (unat t) (unat (h - t)) @ take r bs @ read_mem m 0 (length bs - r)"
proof -
  let ?u = "unat (h - t)" and ?m = "write_mem m (unat h mod cap) (take r bs)"
  have lt: "unat h mod cap < cap" using cap_pos by simp
  then have r: "unat h mod cap + r = cap" "r < length bs" "0 < r"
    using cross by (simp_all add: r_def)
  have len: "length (take r bs) = r" using r by simp
  have "write_mem m (unat h mod cap) bs i = ?m i" if "i < cap" for i
    using r that by (auto simp: write_mem_def)
  then have eq: "ring_bytes cap (write_mem m (unat h mod cap) bs) (unat t) (?u + length bs)
      = ring_bytes cap ?m (unat t) (?u + length bs)"
    by (rule ring_bytes_cong)
  have first: "ring_bytes cap ?m (unat t) (?u + r) = ring_bytes cap m (unat t) ?u @ take r bs"
    using push_appends [of h t "take r bs" m] room r by simp
  have "ring_bytes cap ?m (unat t + (?u + r)) (length bs - r) = read_mem m 0 (length bs - r)"
  proof (rule nth_equalityI)
    fix j assume "j < length (ring_bytes cap ?m (unat t + (?u + r)) (length bs - r))"
    then have j: "j < length bs - r" by simp
    have "(unat t + (?u + r) + j) mod cap = (unat t + ?u + (r + j)) mod cap"
      by (simp add: ac_simps)
    also have "\<dots> = (unat h mod cap + (r + j)) mod cap"
      using head_position [of h t] by (metis mod_add_left_eq)
    also have "\<dots> = (cap + j) mod cap" using r(1) by (metis add.assoc)
    also have "\<dots> = j" using j room r by simp
    finally have "(unat t + (?u + r) + j) mod cap = j" .
    moreover have "j < unat h mod cap" using j room r by simp
    ultimately show "ring_bytes cap ?m (unat t + (?u + r)) (length bs - r) ! j =
        read_mem m 0 (length bs - r) ! j"
      using j by (simp add: write_mem_out)
  qed simp
  moreover have "ring_bytes cap ?m (unat t) ((?u + r) + (length bs - r)) =
      ring_bytes cap ?m (unat t) (?u + r) @ ring_bytes cap ?m (unat t + (?u + r)) (length bs - r)"
    by (rule ring_bytes_add)
  moreover have "?u + length bs = (?u + r) + (length bs - r)" using r by simp
  ultimately show ?thesis
    unfolding eq by (simp only: first append_assoc)
qed

end

end
