(* ===== verification/HL_Types.thy ===== *)
theory HL_Types
  imports HL_Ring
begin

text \<open>
  The constants of \<open>hl.h\<close> and of the kernel header \<open>include/linux/hardlog.h\<close>, the table of priority
  system calls (\<open>hl-logger.c\<close>), and the geometry of the host's circular buffer.
\<close>

section \<open>Sizes\<close>

text \<open>1 MB hardlog audit buffer; the allocation has 4096 bytes more.\<close>

definition HARDLOG_AUDIT_CBUFFSIZE :: nat where
  "HARDLOG_AUDIT_CBUFFSIZE = 1 * 1024 * 1024"

definition HARDLOG_AUDIT_EVENTSIZE :: int where
  "HARDLOG_AUDIT_EVENTSIZE = 512"

definition HARDLOG_AUDIT_BLOCKSIZE :: int where
  "HARDLOG_AUDIT_BLOCKSIZE = HARDLOG_AUDIT_EVENTSIZE - 1"

abbreviation CBUFF :: nat where "CBUFF \<equiv> HARDLOG_AUDIT_CBUFFSIZE"
abbreviation PAGE_SIZE :: nat where "PAGE_SIZE \<equiv> 4096"

lemma CBUFF_eq: "HARDLOG_AUDIT_CBUFFSIZE = 1048576"
  by (simp add: HARDLOG_AUDIT_CBUFFSIZE_def)

lemma EVENTSIZE_eq [simp]: "HARDLOG_AUDIT_EVENTSIZE = 512"
  by (simp add: HARDLOG_AUDIT_EVENTSIZE_def)

lemma BLOCKSIZE_eq [simp]: "HARDLOG_AUDIT_BLOCKSIZE = 511"
  by (simp add: HARDLOG_AUDIT_BLOCKSIZE_def)

interpretation host_ring: ring_geometry HARDLOG_AUDIT_CBUFFSIZE PAGE_SIZE
  by unfold_locales (auto simp: CBUFF_eq)

text \<open>What the setup of the logger establishes about the host's buffer (\<open>HostBuf\<close>).\<close>

definition hostbuf_ok :: "audit_circ_buffer \<Rightarrow> bool" where
  "hostbuf_ok cb \<longleftrightarrow>
     (case buffer cb of None \<Rightarrow> False | Some b \<Rightarrow> live b \<and> bsize b = CBUFF + PAGE_SIZE)"

lemma hostbuf_okE:
  assumes "hostbuf_ok cb"
  obtains b where "buffer cb = Some b" "live b" "bsize b = CBUFF + PAGE_SIZE"
  using assms by (auto simp: hostbuf_ok_def split: option.splits)

definition ring_mem :: "audit_circ_buffer \<Rightarrow> mem" where
  "ring_mem cb = (case buffer cb of None \<Rightarrow> (\<lambda>_. NUL) | Some b \<Rightarrow> cells b)"

text \<open>The bytes that the producers have appended and the flusher has not yet taken.\<close>

definition used :: "audit_circ_buffer \<Rightarrow> nat" where
  "used cb = unat (head cb - tail cb)"

definition pending :: "audit_circ_buffer \<Rightarrow> char list" where
  "pending cb = ring_bytes CBUFF (ring_mem cb) (unat (tail cb)) (used cb)"

section \<open>Priority system calls\<close>

definition PRIO_SYSCALL_NUM :: nat where
  "PRIO_SYSCALL_NUM = 10"

definition prio_syscalls :: "int list" where
  "prio_syscalls = [56, 322, 59, 57, 101, 90, 10000, 106, 113, 105]"

lemma length_prio_syscalls: "length prio_syscalls = PRIO_SYSCALL_NUM"
  by (simp add: prio_syscalls_def PRIO_SYSCALL_NUM_def)

lemma distinct_prio_syscalls: "distinct prio_syscalls"
  by (simp add: prio_syscalls_def)

end
