(* ===== verification/HL_Measure.thy ===== *)
theory HL_Measure
  imports HL_Types
begin

text \<open>
  \<open>hl-measure.c\<close>: the counters of the logger and of the flusher. All of them are file-level C
  variables, here the fields of one record. The times are what \<open>ktime_get\<close> returned, an argument
  of each operation; the kernel's \<open>ktime_us_delta\<close> is the parameter \<open>delta\<close>.

  \<open>write_count\<close> is a C \<open>int\<close>. The kernel is compiled with wrapping signed arithmetic, so it is a
  32-bit word read as a signed value; a division by zero stops the call.
\<close>

section \<open>State\<close>

record measure =
  write_count :: u32
  write_bytes :: u64
  write_time_us :: u64
  write_time_highest_us :: u64
  write_time_highest_bytes :: u64
  flush_time_highest_us :: u64
  logs_created :: u64
  logs_bytes :: u64
  empty_logs :: u64
  prio_syscall_logs :: "u64 list"
  logs_appended :: u64
  logs_appended_start :: u64
  logs_appended_end :: u64
  logs_append_times :: "nat \<Rightarrow> u64"

definition measure0 :: measure where
  "measure0 = \<lparr>write_count = 0, write_bytes = 0, write_time_us = 0,
     write_time_highest_us = 0, write_time_highest_bytes = 0, flush_time_highest_us = 0,
     logs_created = 0, logs_bytes = 0, empty_logs = 0,
     prio_syscall_logs = replicate PRIO_SYSCALL_NUM 0,
     logs_appended = 0, logs_appended_start = 0, logs_appended_end = 0,
     logs_append_times = (\<lambda>_. 0)\<rparr>"

definition MAXLOGS :: nat where
  "MAXLOGS = 500000"

section \<open>Flushing latency\<close>

definition mark_log_appended :: "u64 \<Rightarrow> measure \<Rightarrow> measure" where
  "mark_log_appended now m =
     (let la = (if logs_appended m \<ge> of_nat MAXLOGS then 0 else logs_appended m)
      in m\<lparr>logs_append_times := (logs_append_times m)(unat la := now), logs_appended := la + 1\<rparr>)"

definition save_log_appended :: "measure \<Rightarrow> measure" where
  "save_log_appended m =
     m\<lparr>logs_appended_start := logs_appended_end m, logs_appended_end := logs_appended m\<rparr>"

text \<open>The body of the scan loops, over the indices that the loop variable takes.\<close>

fun flush_scan :: "(u64 \<Rightarrow> u64 \<Rightarrow> u64) \<Rightarrow> u64 \<Rightarrow> (nat \<Rightarrow> u64) \<Rightarrow> nat list \<Rightarrow> u64 \<Rightarrow> u64" where
  "flush_scan delta cur ts [] best = best"
| "flush_scan delta cur ts (i # is) best =
     (if ts i = 0 then flush_scan delta cur ts is best
      else (let prevtime = delta cur (ts i)
            in flush_scan delta cur ts is (if prevtime > best then prevtime else best)))"

definition update_flush_time_measurement ::
    "(u64 \<Rightarrow> u64 \<Rightarrow> u64) \<Rightarrow> u64 \<Rightarrow> measure \<Rightarrow> measure" where
  "update_flush_time_measurement delta curtime m =
     (let s = unat (logs_appended_start m); e = unat (logs_appended_end m);
          ts = logs_append_times m; best = flush_time_highest_us m
      in if logs_appended_end m \<ge> logs_appended_start m
         then m\<lparr>flush_time_highest_us := flush_scan delta curtime ts [s..<e] best\<rparr>
         else (let best1 = flush_scan delta curtime ts [s..<MAXLOGS] best
               in m\<lparr>flush_time_highest_us := flush_scan delta curtime ts [0..<e] best1\<rparr>))"

definition get_reset_flush_time_measurement :: "measure \<Rightarrow> u64 \<times> measure" where
  "get_reset_flush_time_measurement m =
     (flush_time_highest_us m, m\<lparr>flush_time_highest_us := 0\<rparr>)"

section \<open>Writes of the flusher\<close>

text \<open>
  The running average as the code computes it,
  \<open>((write_time_us*write_count)/(write_count+1)) + (cur_time_us/write_count+1)\<close>.
\<close>

definition next_write_time :: "u64 \<Rightarrow> measure \<Rightarrow> u64 res" where
  "next_write_time cur m =
     (let n = write_count m
      in if n = 0 then Inr cur
         else if n + 1 = 0 then Inl DivideByZero
         else Inr ((write_time_us m * scast n) div scast (n + 1) + (cur div scast n + 1)))"

definition update_write_measurement :: "u64 \<Rightarrow> u64 \<Rightarrow> measure \<Rightarrow> measure res" where
  "update_write_measurement cur sz m =
     rbind (next_write_time cur m) (\<lambda>t.
       let m1 = m\<lparr>write_time_us := t\<rparr>;
           m2 = (if cur > write_time_highest_us m1
                 then m1\<lparr>write_time_highest_us := cur, write_time_highest_bytes := sz\<rparr> else m1)
       in Inr (m2\<lparr>write_count := write_count m2 + 1, write_bytes := write_bytes m2 + sz\<rparr>))"

definition update_write_time_measurement :: "u64 \<Rightarrow> measure \<Rightarrow> measure res" where
  "update_write_time_measurement cur m =
     rbind (next_write_time cur m) (\<lambda>t.
       let m1 = m\<lparr>write_time_us := t\<rparr>;
           m2 = (if cur > write_time_highest_us m1
                 then m1\<lparr>write_time_highest_us := cur\<rparr> else m1)
       in Inr (m2\<lparr>write_count := write_count m2 + 1\<rparr>))"

definition update_write_bytes_measurement :: "u64 \<Rightarrow> measure \<Rightarrow> measure" where
  "update_write_bytes_measurement bytes m = m\<lparr>write_bytes := write_bytes m + bytes\<rparr>"

section \<open>Logs\<close>

definition update_logs_created_measurement :: "u64 \<Rightarrow> measure \<Rightarrow> measure" where
  "update_logs_created_measurement bytes m =
     m\<lparr>logs_created := logs_created m + 1, logs_bytes := logs_bytes m + bytes\<rparr>"

definition update_empty_logs_measurement :: "measure \<Rightarrow> measure" where
  "update_empty_logs_measurement m = m\<lparr>empty_logs := empty_logs m + 1\<rparr>"

fun bump_prio :: "int \<Rightarrow> int list \<Rightarrow> u64 list \<Rightarrow> u64 list" where
  "bump_prio sc (p # ps) (c # cs) = (if p = sc then c + 1 else c) # bump_prio sc ps cs"
| "bump_prio sc _ cs = cs"

definition update_prio_syscall_measurement :: "int \<Rightarrow> measure \<Rightarrow> measure" where
  "update_prio_syscall_measurement sc m =
     m\<lparr>prio_syscall_logs := bump_prio sc prio_syscalls (prio_syscall_logs m)\<rparr>"


section \<open>Facts\<close>

subsection \<open>The window of a scan\<close>

text \<open>The indices that \<open>update_flush_time_measurement\<close> visits, in the order of its loops.\<close>

definition flush_window :: "measure \<Rightarrow> nat list" where
  "flush_window m =
     (if logs_appended_end m \<ge> logs_appended_start m
      then [unat (logs_appended_start m)..<unat (logs_appended_end m)]
      else [unat (logs_appended_start m)..<MAXLOGS] @ [0..<unat (logs_appended_end m)])"

lemma flush_scan_append:
  "flush_scan delta cur ts (is @ js) best = flush_scan delta cur ts js (flush_scan delta cur ts is best)"
  by (induction "is" arbitrary: best) (auto simp: Let_def)

lemma update_flush_scan:
  "update_flush_time_measurement delta cur m =
     m\<lparr>flush_time_highest_us :=
         flush_scan delta cur (logs_append_times m) (flush_window m) (flush_time_highest_us m)\<rparr>"
  by (simp add: update_flush_time_measurement_def flush_window_def flush_scan_append Let_def)

lemma Max_insert_max:
  "finite (S :: 'a :: linorder set) \<Longrightarrow> Max (insert (max a b) S) = Max (insert b (insert a S))"
  by (cases "S = {}") (auto simp: max.assoc max.commute max.left_commute)

lemma flush_scan_Max:
  "flush_scan delta cur ts is best =
     Max (insert best (delta cur ` ts ` {i \<in> set is. ts i \<noteq> 0}))"
proof (induction "is" arbitrary: best)
  case Nil
  then show ?case by simp
next
  case (Cons i js)
  let ?S = "delta cur ` ts ` {j \<in> set js. ts j \<noteq> 0}"
  show ?case
  proof (cases "ts i = 0")
    case True
    then have "{j \<in> set (i # js). ts j \<noteq> 0} = {j \<in> set js. ts j \<noteq> 0}" by auto
    with True Cons.IH show ?thesis by simp
  next
    case False
    then have eq: "delta cur ` ts ` {j \<in> set (i # js). ts j \<noteq> 0} = insert (delta cur (ts i)) ?S"
      by auto
    have "flush_scan delta cur ts (i # js) best =
          flush_scan delta cur ts js (max (delta cur (ts i)) best)"
      using False by (auto simp: Let_def max_def not_less)
    also have "\<dots> = Max (insert (max (delta cur (ts i)) best) ?S)" by (rule Cons.IH)
    also have "\<dots> = Max (insert best (insert (delta cur (ts i)) ?S))"
      by (rule Max_insert_max) simp
    finally show ?thesis by (simp only: eq)
  qed
qed

text \<open>Marks between two saves, from a saved position \<open>e\<close>: where the counter and the cells end up.\<close>

lemma unat_MAXLOGS: "unat (of_nat MAXLOGS :: u64) = MAXLOGS"
  by (simp add: MAXLOGS_def)

lemma ge_MAXLOGS: "w \<ge> (of_nat MAXLOGS :: u64) \<longleftrightarrow> unat w \<ge> MAXLOGS"
  by (simp add: word_le_nat_alt unat_MAXLOGS)

lemma mark_log_appended_frame [simp]:
  "logs_appended_start (mark_log_appended t m) = logs_appended_start m"
  "logs_appended_end (mark_log_appended t m) = logs_appended_end m"
  by (simp_all add: mark_log_appended_def Let_def)

definition mark_slot :: "measure \<Rightarrow> nat" where
  "mark_slot m = (if unat (logs_appended m) \<ge> MAXLOGS then 0 else unat (logs_appended m))"

lemma mark_slot_lt: "mark_slot m < MAXLOGS"
  by (simp add: mark_slot_def MAXLOGS_def)

lemma mark_log_appended_eq:
  "logs_append_times (mark_log_appended t m) = (logs_append_times m)(mark_slot m := t)"
  "unat (logs_appended (mark_log_appended t m)) = Suc (mark_slot m)"
proof -
  show "logs_append_times (mark_log_appended t m) = (logs_append_times m)(mark_slot m := t)"
    by (simp add: mark_log_appended_def mark_slot_def ge_MAXLOGS Let_def)
  let ?la = "if logs_appended m \<ge> of_nat MAXLOGS then 0 else logs_appended m"
  have la: "unat ?la = mark_slot m" by (simp add: mark_slot_def ge_MAXLOGS)
  have "mark_slot m < 2 ^ 64 - 1" using mark_slot_lt [of m] by (simp add: MAXLOGS_def)
  then have "unat (?la + 1) = Suc (unat ?la)" by (intro unat_inc) (simp only: la)
  then show "unat (logs_appended (mark_log_appended t m)) = Suc (mark_slot m)"
    by (simp only: la) (simp add: mark_log_appended_def Let_def)
qed

text \<open>A run of marks from a saved state, and the window the next save opens.\<close>

lemma marks_frame [simp]:
  "logs_appended_start (fold mark_log_appended ts m) = logs_appended_start m"
  "logs_appended_end (fold mark_log_appended ts m) = logs_appended_end m"
  by (induction ts arbitrary: m) simp_all

text \<open>Where the \<open>k\<close>-th mark after a state with counter \<open>e\<close> goes.\<close>

definition slot_after :: "nat \<Rightarrow> nat \<Rightarrow> nat" where
  "slot_after e k = (if e + k < MAXLOGS then e + k else e + k - MAXLOGS)"

lemma slot_after_0: "e \<le> MAXLOGS \<Longrightarrow> slot_after e 0 = (if e \<ge> MAXLOGS then 0 else e)"
  by (simp add: slot_after_def)

lemma marks_counter:
  assumes "unat (logs_appended m) = e" "e \<le> MAXLOGS" "length ts < MAXLOGS"
  shows "unat (logs_appended (fold mark_log_appended ts m)) =
           (if e + length ts \<le> MAXLOGS then e + length ts else e + length ts - MAXLOGS) \<and>
         (\<forall>k < length ts. logs_append_times (fold mark_log_appended ts m) (slot_after e k) = ts ! k)"
  using assms(3)
proof (induction ts rule: rev_induct)
  case Nil
  with assms show ?case by simp
next
  case (snoc t ts)
  let ?m = "fold mark_log_appended ts m" and ?n = "length ts"
  have n: "?n < MAXLOGS" using snoc.prems by simp
  note IH = snoc.IH [OF n]
  have slot: "mark_slot ?m = slot_after e ?n"
    using IH n assms(2) by (auto simp: mark_slot_def slot_after_def)
  have sep: "slot_after e k \<noteq> slot_after e ?n" if "k < ?n" for k
    using that snoc.prems by (auto simp: slot_after_def)
  show ?case
  proof (intro conjI allI impI)
    show "unat (logs_appended (fold mark_log_appended (ts @ [t]) m)) =
        (if e + length (ts @ [t]) \<le> MAXLOGS then e + length (ts @ [t]) else e + length (ts @ [t]) - MAXLOGS)"
      using n assms(2) by (auto simp: mark_log_appended_eq slot slot_after_def)
    fix k assume "k < length (ts @ [t])"
    then show "logs_append_times (fold mark_log_appended (ts @ [t]) m) (slot_after e k) = (ts @ [t]) ! k"
      using IH sep by (auto simp: mark_log_appended_eq slot nth_append less_Suc_eq)
  qed
qed

lemma window_slots:
  assumes "e \<le> MAXLOGS" "n < MAXLOGS"
    and "unat (logs_appended_start m) = e"
    and "unat (logs_appended_end m) = (if e + n \<le> MAXLOGS then e + n else e + n - MAXLOGS)"
  shows "flush_window m = map (slot_after e) [0..<n]"
proof (rule nth_equalityI)
  show len: "length (flush_window m) = length (map (slot_after e) [0..<n])"
    using assms by (auto simp: flush_window_def word_le_nat_alt)
  fix i assume "i < length (flush_window m)"
  then have "i < n" using len by simp
  with assms show "flush_window m ! i = map (slot_after e) [0..<n] ! i"
    by (auto simp: flush_window_def word_le_nat_alt slot_after_def nth_append)
qed

subsection \<open>Counters of the writes\<close>

text \<open>A run of the flusher's write records.\<close>

fun record_writes :: "(u64 \<times> u64) list \<Rightarrow> measure \<Rightarrow> measure res" where
  "record_writes [] m = Inr m"
| "record_writes ((cur, sz) # ws) m =
     rbind (update_write_measurement cur sz m) (record_writes ws)"

lemma update_write_measurement_stops:
  "update_write_measurement cur sz m = Inl e \<longleftrightarrow> write_count m = - 1 \<and> e = DivideByZero"
  by (auto simp: update_write_measurement_def next_write_time_def Let_def rbind_def
      eq_neg_iff_add_eq_0 split: if_splits)

lemma update_write_measurement_fields:
  assumes "update_write_measurement cur sz m = Inr m'"
  shows "write_count m' = write_count m + 1" "write_bytes m' = write_bytes m + sz"
    "write_time_highest_us m' = max cur (write_time_highest_us m)"
  using assms by (auto simp: update_write_measurement_def Let_def max_def)

lemma record_writes_totals:
  assumes "record_writes ws m = Inr m'"
  shows "write_count m' = write_count m + of_nat (length ws)
       \<and> write_bytes m' = write_bytes m + sum_list (map snd ws)
       \<and> write_time_highest_us m' = fold max (map fst ws) (write_time_highest_us m)"
  using assms
proof (induction ws arbitrary: m)
  case Nil
  then show ?case by simp
next
  case (Cons w ws)
  obtain cur sz where w: "w = (cur, sz)" by (cases w)
  with Cons.prems obtain m1 where "update_write_measurement cur sz m = Inr m1"
    and "record_writes ws m1 = Inr m'" by auto
  with Cons.IH [of m1] show ?case
    by (simp add: w update_write_measurement_fields algebra_simps)
qed

lemma record_writes_returns:
  "(\<exists>m'. record_writes ws m = Inr m') \<longleftrightarrow> unat (write_count m) + length ws < 2 ^ 32"
proof (induction ws arbitrary: m)
  case Nil
  then show ?case using u32_bound [of "write_count m"] by simp
next
  case (Cons w ws)
  obtain cur sz where w: "w = (cur, sz)" by (cases w)
  show ?case
  proof (cases "update_write_measurement cur sz m")
    case (Inl e)
    then have "unat (write_count m) = 2 ^ 32 - 1"
      by (simp add: update_write_measurement_stops minus_one_u32)
    with Inl show ?thesis by (simp add: w)
  next
    case (Inr m1)
    then have "write_count m \<noteq> - 1" by (metis Inl_Inr_False update_write_measurement_stops)
    then have "unat (write_count m) < 2 ^ 32 - 1"
      using u32_bound [of "write_count m"] by (simp add: minus_one_u32)
    then have "unat (write_count m1) = Suc (unat (write_count m))"
      using update_write_measurement_fields [OF Inr] by (simp add: unat_word_ariths)
    with Inr Cons.IH [of m1] show ?thesis by (simp add: w)
  qed
qed

subsection \<open>Priority counters\<close>

lemma length_bump_prio [simp]: "length (bump_prio sc ps cs) = length cs"
  by (induction sc ps cs rule: bump_prio.induct) auto

lemma nth_bump_prio:
  "i < length ps \<Longrightarrow> i < length cs \<Longrightarrow>
   bump_prio sc ps cs ! i = cs ! i + (if ps ! i = sc then 1 else 0)"
  by (induction sc ps cs arbitrary: i rule: bump_prio.induct) (auto simp: nth_Cons split: nat.splits)

section \<open>Properties\<close>

text \<open>
  The latency scan looks at exactly the logs of the last window. From a saved state, mark fewer
  than \<open>MAXLOGS\<close> logs at the times \<open>ts\<close> (wrapping around the table of times if need be), save, and
  scan at time \<open>cur\<close>: the new maximum is the largest of the old one and the latencies of exactly the
  logs just marked (a time of zero is skipped).
\<close>

theorem latency_scan_exact:
  assumes "length ts < MAXLOGS" and "unat (logs_appended m) \<le> MAXLOGS"
    and "logs_appended_end m = logs_appended m"
  shows "flush_time_highest_us (update_flush_time_measurement delta cur
             (save_log_appended (fold mark_log_appended ts m)))
    = Max (insert (flush_time_highest_us m) (delta cur ` {t \<in> set ts. t \<noteq> 0}))"
proof -
  let ?f = "fold mark_log_appended ts m" and ?e = "unat (logs_appended m)"
  let ?m = "save_log_appended ?f"
  note marks = marks_counter [OF refl assms(2,1)]
  have best: "flush_time_highest_us ?f = flush_time_highest_us m"
    by (induction ts arbitrary: m) (simp_all add: mark_log_appended_def Let_def)
  have win: "flush_window ?m = map (slot_after ?e) [0..<length ts]"
    using assms marks by (intro window_slots) (simp_all add: save_log_appended_def)
  let ?t = "logs_append_times ?f"
  have at: "?t (slot_after ?e k) = ts ! k" if "k < length ts" for k using marks that by blast
  have "?t ` {i \<in> slot_after ?e ` {..<length ts}. ?t i \<noteq> 0} = {t \<in> (!) ts ` {..<length ts}. t \<noteq> 0}"
    by (auto simp: at image_iff) (metis at lessThan_iff)
  also have "(!) ts ` {..<length ts} = set ts" by (auto simp: set_conv_nth)
  finally have "logs_append_times ?m ` {i \<in> set (flush_window ?m). logs_append_times ?m i \<noteq> 0}
      = {t \<in> set ts. t \<noteq> 0}"
    unfolding win by (simp add: save_log_appended_def lessThan_atLeast0)
  then show ?thesis
    by (simp add: update_flush_scan flush_scan_Max) (simp add: save_log_appended_def best)
qed

theorem latency_scan_exact_witness:
  "flush_time_highest_us (update_flush_time_measurement (-) 9
      (save_log_appended (fold mark_log_appended [5, 7] measure0))) = 4"
proof -
  have "{t \<in> set [5, 7]. t \<noteq> 0} = {5, 7 :: u64}" by auto
  with latency_scan_exact [of "[5, 7]" measure0 "(-)" 9] show ?thesis
    by (simp add: MAXLOGS_def measure0_def [THEN arg_cong, of logs_appended] 
       measure0_def [THEN arg_cong, of logs_appended_end] measure0_def [THEN arg_cong, of flush_time_highest_us])
qed

text \<open>
  The write statistics add up. After any run of recorded writes from the initial counters that
  returns, the byte counter is the sum of the sizes (modulo \<open>2^64\<close>), the highest time is the largest
  of the times, and the write counter is their number (modulo \<open>2^32\<close>); and the run returns exactly
  when there were fewer than \<open>2^32\<close> writes - one more divides by the zero that the counter wrapped to.
\<close>

theorem write_statistics:
  "(case record_writes ws measure0 of
      Inr m \<Rightarrow> length ws < 2 ^ 32 \<and> unat (write_count m) = length ws
        \<and> write_bytes m = sum_list (map snd ws) \<and> write_time_highest_us m = fold max (map fst ws) 0
    | Inl e \<Rightarrow> 2 ^ 32 \<le> length ws)"
proof (cases "record_writes ws measure0")
  case (Inr m)
  then have "length ws < 2 ^ 32"
    using record_writes_returns [of ws measure0] by (simp add: measure0_def)
  with Inr show ?thesis
    using record_writes_totals [OF Inr] by (simp add: measure0_def unat_of_nat take_bit_eq_mod)
next
  case (Inl e)
  then show ?thesis using record_writes_returns [of ws measure0] by (simp add: measure0_def)
qed

text \<open>
  The reported average is not one. Two writes that took \<open>a\<close> and \<open>b\<close> microseconds are reported
  with the average \<open>a / 2 + b + 1\<close>, since the divisor of the new time is \<open>write_count\<close> and not
  \<open>write_count + 1\<close>.
\<close>

theorem second_write_average:
  "\<exists>m. record_writes [(a, p), (b, q)] measure0 = Inr m \<and> write_time_us m = a div 2 + (b + 1)"
  by (simp add: update_write_measurement_def next_write_time_def measure0_def Let_def)

text \<open>
  A flushed priority system call is counted once. Recording a system call of the table adds one
  to the counter of that call and leaves every other counter as it was.
\<close>

theorem prio_call_counted:
  assumes "i < PRIO_SYSCALL_NUM" and "length (prio_syscall_logs m) = PRIO_SYSCALL_NUM" and "j < PRIO_SYSCALL_NUM"
  shows "prio_syscall_logs (update_prio_syscall_measurement (prio_syscalls ! i) m) ! j =
    (if j = i then prio_syscall_logs m ! j + 1 else prio_syscall_logs m ! j)"
  using assms distinct_prio_syscalls
  by (simp add: update_prio_syscall_measurement_def nth_bump_prio length_prio_syscalls nth_eq_iff_index_eq)

theorem prio_call_counted_witness:
  "prio_syscall_logs (update_prio_syscall_measurement (prio_syscalls ! 3) measure0) ! 3 = 1"
  using prio_call_counted [of 3 measure0 3]
  by (simp add: measure0_def PRIO_SYSCALL_NUM_def) 

end
