(* ===== verification/HL_Logger.thy ===== *)
theory HL_Logger
  imports HL_Measure
begin

text \<open>
  \<open>hl-logger.c\<close>: a system call's audit record is formatted into the event buffer of its
  \<open>audit_buffer\<close> (\<open>audit_log_start_hardlog\<close>, \<open>.._format_..\<close>, \<open>.._n_string_..\<close>, \<open>.._n_hex_..\<close>)
  and \<open>audit_log_end_hardlog\<close> copies it into the circular buffer, waits for room before the copy
  and, for a priority system call, for the flusher after it.

  Parameters: the text that \<open>fmt, args\<close> render to; what \<open>kmalloc\<close> and \<open>vmalloc\<close> return; the kernel's
  \<open>hex_byte_pack_upper\<close>; the clock; and what the other threads do during each sleep.
  Messages to the kernel log are not modelled.
\<close>

section \<open>State\<close>

text \<open>What the audit code of this repository reads of a system call's context.\<close>

record audit_context =
  major :: int
  argv :: "u64 list"
  return_code :: int
  return_valid :: int
  name_count :: int
  filterkey :: "string option"
  sockaddr :: "char list"
  sockaddr_len :: u64
  personality :: u64
  arch :: int
  fds :: "int \<times> int"

text \<open>The message of the kernel's own audit log (\<open>skb\<close>) is a pointer; its contents are not state of the module.\<close>

record audit_buffer =
  skb :: "nat option"
  ctx :: "audit_context option"
  gfp_mask :: u32
  hardlog_event_buffer :: "block option"
  hardlog_event_consumed :: int

text \<open>
  The module's file-level state: the circular buffer, the counters of \<open>hl-measure.c\<close>, the producer
  mutex (held or not), and the two activity flags of the kernel with the pointers to them
  (non-NULL once the symbol was found).
\<close>

record logger =
  audit_cbuff :: audit_circ_buffer
  meas :: measure
  hardlog_audit_producer :: bool
  hardlog_active_ptr :: bool
  hardlog_microlog_active_ptr :: bool
  hardlog_active :: bool
  hardlog_microlog_active :: bool

section \<open>The C library on event buffers\<close>

text \<open>
  The kernel's \<open>vsnprintf\<close>: nothing for a size beyond \<open>INT_MAX\<close>, else at most \<open>size - 1\<close> characters
  and a terminator; the result is the length of the whole text.
\<close>

definition vsnprintf :: "block \<Rightarrow> int \<Rightarrow> u64 \<Rightarrow> string \<Rightarrow> (block \<times> int) res" where
  "vsnprintf b off sz txt =
     (if 2 ^ 31 - 1 < unat sz then Inr (b, 0)
      else if sz = 0 then Inr (b, int (length txt))
      else rbind (store b off (take (unat sz - 1) txt @ [NUL])) (\<lambda>b'. Inr (b', int (length txt))))"

fun strlen_from :: "mem \<Rightarrow> nat \<Rightarrow> nat \<Rightarrow> nat option" where
  "strlen_from m i 0 = None"
| "strlen_from m i (Suc n) = (if m i = NUL then Some 0 else map_option Suc (strlen_from m (Suc i) n))"

definition c_strlen :: "block \<Rightarrow> nat res" where
  "c_strlen b = (if \<not> live b then Inl UseAfterFree
     else (case strlen_from (cells b) 0 (bsize b) of None \<Rightarrow> Inl OutOfBounds | Some n \<Rightarrow> Inr n))"

section \<open>Filling an event buffer\<close>

definition audit_log_start_hardlog ::
    "bool \<Rightarrow> (nat \<Rightarrow> block option) \<Rightarrow> (nat \<Rightarrow> block option) \<Rightarrow> audit_buffer \<Rightarrow> audit_buffer" where
  "audit_log_start_hardlog vmallocf kmalloc vmalloc ab =
     (let p = (if \<not> vmallocf then kmalloc (nat HARDLOG_AUDIT_EVENTSIZE)
               else vmalloc (nat HARDLOG_AUDIT_EVENTSIZE));
          ab1 = ab\<lparr>hardlog_event_buffer := p\<rparr>
      in (case p of None \<Rightarrow> ab1 | Some _ \<Rightarrow> ab1\<lparr>hardlog_event_consumed := 0\<rparr>))"

definition audit_log_format_hardlog ::
    "audit_buffer option \<Rightarrow> string \<Rightarrow> audit_buffer option res" where
  "audit_log_format_hardlog abp txt =
     (case abp of None \<Rightarrow> Inr None
      | Some ab \<Rightarrow> (case hardlog_event_buffer ab of None \<Rightarrow> Inr (Some ab)
        | Some b \<Rightarrow>
           (let consumed = hardlog_event_consumed ab; room = HARDLOG_AUDIT_BLOCKSIZE - consumed
            in if room \<le> 0 then Inr (Some ab)
               else rbind (vsnprintf b consumed (word_of_int room) txt) (\<lambda>(b', len).
                    rbind (if len < room then c_int_add consumed len
                           else c_int_add consumed (len - 10)) (\<lambda>consumed'.
                    Inr (Some (ab\<lparr>hardlog_event_buffer := Some b',
                                  hardlog_event_consumed := consumed'\<rparr>)))))))"

text \<open>
  The room check of the next two operations compares an \<open>int\<close> with a \<open>size_t\<close>, so the \<open>int\<close> is
  converted to 64 unsigned bits. \<open>ab\<close> is dereferenced before it is compared with NULL.
\<close>

definition audit_log_n_string_hardlog ::
    "audit_buffer option \<Rightarrow> string \<Rightarrow> u64 \<Rightarrow> audit_buffer option res" where
  "audit_log_n_string_hardlog abp str slen =
     (case abp of None \<Rightarrow> Inl NullDeref
      | Some ab \<Rightarrow> (case hardlog_event_buffer ab of None \<Rightarrow> Inr (Some ab)
        | Some b \<Rightarrow>
           (let consumed = hardlog_event_consumed ab
            in if word_of_int (HARDLOG_AUDIT_BLOCKSIZE - consumed) < slen + 3 then Inr (Some ab)
               else if length str < unat slen then Inl OutOfBounds
               else rbind (store b consumed (CHR ''\"'' # take (unat slen) str @ [CHR ''\"'', NUL]))
                 (\<lambda>b'. Inr (Some (ab\<lparr>hardlog_event_buffer := Some b',
                    hardlog_event_consumed := c_int_add_size consumed (slen + 2)\<rparr>))))))"

fun hex_loop :: "(char \<Rightarrow> char \<times> char) \<Rightarrow> char list \<Rightarrow> string" where
  "hex_loop pack [] = []"
| "hex_loop pack (c # cs) = fst (pack c) # snd (pack c) # hex_loop pack cs"

definition audit_log_n_hex_hardlog ::
    "(char \<Rightarrow> char \<times> char) \<Rightarrow> audit_buffer option \<Rightarrow> char list \<Rightarrow> u64 \<Rightarrow> audit_buffer option res" where
  "audit_log_n_hex_hardlog pack abp buf len =
     (case abp of None \<Rightarrow> Inr None
      | Some ab \<Rightarrow> (case hardlog_event_buffer ab of None \<Rightarrow> Inr (Some ab)
        | Some b \<Rightarrow>
           (let consumed = hardlog_event_consumed ab
            in if word_of_int (HARDLOG_AUDIT_BLOCKSIZE - consumed) < push_bit 1 len then Inr (Some ab)
               else if length buf < unat len then Inl OutOfBounds
               else rbind (store b consumed (hex_loop pack (take (unat len) buf) @ [NUL]))
                 (\<lambda>b'. Inr (Some (ab\<lparr>hardlog_event_buffer := Some b',
                    hardlog_event_consumed := c_int_add_size consumed (push_bit 1 len)\<rparr>))))))"

section \<open>Ending an event\<close>

fun prio_loop :: "int \<Rightarrow> int list \<Rightarrow> bool" where
  "prio_loop sc [] = False"
| "prio_loop sc (p # ps) = (if p = sc then True else prio_loop sc ps)"

definition is_prio_syscall :: "int \<Rightarrow> bool" where
  "is_prio_syscall sc = prio_loop sc prio_syscalls"

type_synonym 's interleaving = "('s \<Rightarrow> 's) list"

definition mutex_lock ::
    "'z logger_scheme interleaving \<Rightarrow> 'z logger_scheme \<Rightarrow> ('z logger_scheme \<times> 'z logger_scheme interleaving) res" where
  "mutex_lock env s =
     rbind (wait_while hardlog_audit_producer env s)
       (\<lambda>(s', env'). Inr (s'\<lparr>hardlog_audit_producer := True\<rparr>, env'))"

definition make_space_in_cbuff ::
    "'z logger_scheme interleaving \<Rightarrow> 'z logger_scheme \<Rightarrow> (u64 \<times> 'z logger_scheme \<times> 'z logger_scheme interleaving) res" where
  "make_space_in_cbuff env s =
     rbind (wait_while (\<lambda>s. head (audit_cbuff s) - tail (audit_cbuff s) \<ge> of_nat HARDLOG_AUDIT_CBUFFSIZE) env s)
       (\<lambda>(s', env'). Inr (head (audit_cbuff s'), s', env'))"

text \<open>The copy into the circular buffer and the new head (under the mutex).\<close>

definition cbuff_append ::
    "bool \<Rightarrow> u64 \<Rightarrow> block \<Rightarrow> int \<Rightarrow> u64 \<Rightarrow> 'z logger_scheme \<Rightarrow> 'z logger_scheme res" where
  "cbuff_append flushtimef now ev consumed cbuff_head s =
     (case buffer (audit_cbuff s) of None \<Rightarrow> Inl NullDeref
      | Some b \<Rightarrow>
         rbind (load ev 0 (unat (word_of_int consumed :: u64))) (\<lambda>bytes.
         rbind (store b (uint (cbuff_head mod of_nat HARDLOG_AUDIT_CBUFFSIZE)) bytes) (\<lambda>b'.
         Inr (s\<lparr>audit_cbuff := (audit_cbuff s)\<lparr>buffer := Some b',
                   head := head (audit_cbuff s) + word_of_int consumed\<rparr>,
                meas := (if flushtimef then mark_log_appended now else id)
                   (update_logs_created_measurement (word_of_int consumed) (meas s))\<rparr>))))"

text \<open>A priority system call waits until the flusher has passed its last byte.\<close>

definition wait_flushed ::
    "audit_buffer \<Rightarrow> u64 \<Rightarrow> 'z logger_scheme interleaving \<Rightarrow> 'z logger_scheme
     \<Rightarrow> ('z logger_scheme \<times> 'z logger_scheme interleaving) res" where
  "wait_flushed ab cbuff_head env s =
     (case ctx ab of None \<Rightarrow> Inr (s, env)
      | Some c \<Rightarrow>
         if is_prio_syscall (major c)
         then rbind (wait_while (\<lambda>s. tail (audit_cbuff s) < cbuff_head) env s)
                (\<lambda>(s', env'). Inr (s'\<lparr>meas := update_prio_syscall_measurement (major c) (meas s')\<rparr>, env'))
         else Inr (s, env))"

definition audit_log_end_hardlog ::
    "bool \<Rightarrow> u64 \<Rightarrow> audit_buffer option \<Rightarrow> 'z logger_scheme interleaving \<Rightarrow> 'z logger_scheme
     \<Rightarrow> (audit_buffer option \<times> 'z logger_scheme \<times> 'z logger_scheme interleaving) res" where
  "audit_log_end_hardlog flushtimef now abp env s =
     (case abp of None \<Rightarrow> Inr (None, s, env)
      | Some ab \<Rightarrow> (case hardlog_event_buffer ab of None \<Rightarrow> Inr (Some ab, s, env)
        | Some b \<Rightarrow>
         rbind (c_strlen b) (\<lambda>n.
         if n < 35
         then rbind (free_block b) (\<lambda>b'.
              Inr (Some (ab\<lparr>hardlog_event_buffer := Some b'\<rparr>),
                   s\<lparr>meas := update_empty_logs_measurement (meas s)\<rparr>, env))
         else
           let consumed = hardlog_event_consumed ab in
           rbind (vsnprintf b consumed (word_of_int (HARDLOG_AUDIT_BLOCKSIZE - consumed)) [NEWLINE]) (\<lambda>(b1, len).
           let consumed1 = c_int_add_size consumed (word_of_int len) in
           rbind (mutex_lock env s) (\<lambda>(s1, env1).
           rbind (make_space_in_cbuff env1 s1) (\<lambda>(cbuff_head, s2, env2).
           rbind (cbuff_append flushtimef now b1 consumed1 cbuff_head s2) (\<lambda>s3.
           let target = head (audit_cbuff s3); s4 = s3\<lparr>hardlog_audit_producer := False\<rparr> in
           rbind (wait_flushed ab target env2 s4) (\<lambda>(s5, env5).
           rbind (free_block b1) (\<lambda>b2.
           Inr (Some (ab\<lparr>hardlog_event_buffer := Some b2, hardlog_event_consumed := consumed1\<rparr>),
                s5, env5))))))))))"

section \<open>Setup and teardown\<close>

text \<open>
  What the kernel answers to the setup: whether \<open>setup_hardlog_pointers\<close> exists and what it
  returns, and whether the two flags exist. The second flag's guard tests the first pointer again.
\<close>

record logger_env =
  has_setup_pointers :: bool
  setup_pointers_result :: bool
  has_hardlog_active :: bool
  has_microlog_active :: bool

definition hardlog_logger_setup ::
    "logger_env \<Rightarrow> (nat \<Rightarrow> block option) \<Rightarrow> bool \<Rightarrow> 'z logger_scheme \<Rightarrow> (bool \<times> 'z logger_scheme) res" where
  "hardlog_logger_setup e vmalloc microlog s =
     (if \<not> has_setup_pointers e then Inr (False, s)
      else if \<not> setup_pointers_result e then Inr (False, s)
      else
        let s1 = s\<lparr>audit_cbuff := (audit_cbuff s)\<lparr>buffer := vmalloc (HARDLOG_AUDIT_CBUFFSIZE + 4096)\<rparr>\<rparr> in
        if buffer (audit_cbuff s1) = None then Inr (False, s1)
        else
          let s2 = s1\<lparr>audit_cbuff := (audit_cbuff s1)\<lparr>head := 0, tail := 0\<rparr>,
                      hardlog_active_ptr := has_hardlog_active e\<rparr> in
          if \<not> hardlog_active_ptr s2 then Inr (False, s2)
          else
            let s3 = s2\<lparr>hardlog_active := True, hardlog_microlog_active_ptr := has_microlog_active e\<rparr> in
            if hardlog_active_ptr s3
            then (if \<not> hardlog_microlog_active_ptr s3 then Inl NullDeref
                  else Inr (True, s3\<lparr>hardlog_microlog_active := microlog\<rparr>))
            else Inr (False, s3))"

definition hardlog_logger_teardown :: "'z logger_scheme \<Rightarrow> 'z logger_scheme res" where
  "hardlog_logger_teardown s =
     (let s1 = (if hardlog_active_ptr s then s\<lparr>hardlog_active := False\<rparr> else s);
          s2 = (if hardlog_microlog_active_ptr s1 then s1\<lparr>hardlog_microlog_active := False\<rparr> else s1);
          s3 = s2\<lparr>hardlog_audit_producer := False\<rparr>
      in (case buffer (audit_cbuff s3) of None \<Rightarrow> Inr s3
          | Some b \<Rightarrow> rbind (free_block b) (\<lambda>b'.
              Inr (s3\<lparr>audit_cbuff := (audit_cbuff s3)\<lparr>buffer := Some b'\<rparr>\<rparr>))))"

section \<open>Facts about events\<close>

definition event_room :: "audit_buffer \<Rightarrow> bool" where
  "event_room ab \<longleftrightarrow> (case hardlog_event_buffer ab of None \<Rightarrow> False
     | Some b \<Rightarrow> live b \<and> bsize b = 512 \<and>
         0 \<le> hardlog_event_consumed ab \<and> hardlog_event_consumed ab \<le> 511)"

definition event_text :: "audit_buffer \<Rightarrow> string" where
  "event_text ab = (case hardlog_event_buffer ab of None \<Rightarrow> []
     | Some b \<Rightarrow> read_mem (cells b) 0 (nat (hardlog_event_consumed ab)))"

text \<open>A well-formed event: the buffer is an allocation of 512 bytes and ends in a terminator.\<close>

definition event_ok :: "audit_buffer \<Rightarrow> bool" where
  "event_ok ab \<longleftrightarrow> event_room ab \<and> (case hardlog_event_buffer ab of None \<Rightarrow> False
     | Some b \<Rightarrow> cells b (nat (hardlog_event_consumed ab)) = NUL)"

lemma event_roomE:
  assumes "event_room ab"
  obtains b c where "hardlog_event_buffer ab = Some b" "live b" "bsize b = 512"
    "hardlog_event_consumed ab = int c" "c \<le> 511"
proof -
  from assms obtain b where b: "hardlog_event_buffer ab = Some b" "live b" "bsize b = 512"
      "0 \<le> hardlog_event_consumed ab" "hardlog_event_consumed ab \<le> 511"
    by (auto simp: event_room_def split: option.splits)
  then show thesis by (intro that [of b "nat (hardlog_event_consumed ab)"]) auto
qed

text \<open>
  One step of an event's text: \<open>bs\<close> and a terminator are stored at the consumed position.
\<close>

definition append_text :: "audit_buffer \<Rightarrow> string \<Rightarrow> audit_buffer" where
  "append_text ab bs = (case hardlog_event_buffer ab of None \<Rightarrow> ab
     | Some b \<Rightarrow> ab\<lparr>hardlog_event_buffer :=
            Some (b\<lparr>cells := write_mem (cells b) (nat (hardlog_event_consumed ab)) (bs @ [NUL])\<rparr>),
          hardlog_event_consumed := hardlog_event_consumed ab + int (length bs)\<rparr>)"

lemma append_text_ok:
  assumes "event_room ab" and "nat (hardlog_event_consumed ab) + length bs \<le> 511"
  shows "event_ok (append_text ab bs)"
    and "event_text (append_text ab bs) = event_text ab @ bs"
    and "ctx (append_text ab bs) = ctx ab"
    and "hardlog_event_consumed (append_text ab bs) = hardlog_event_consumed ab + int (length bs)"
proof -
  from assms(1) obtain b c where b: "hardlog_event_buffer ab = Some b" "live b" "bsize b = 512"
      "hardlog_event_consumed ab = int c" "c \<le> 511" by (rule event_roomE)
  from assms(2) b have c: "c + length bs \<le> 511" by simp
  have len: "nat (int c + int (length bs)) = c + length bs" by simp
  show "event_ok (append_text ab bs)"
    using b c by (simp add: append_text_def event_ok_def event_room_def len write_mem_def nth_append)
  show "event_text (append_text ab bs) = event_text ab @ bs"
    by (simp add: append_text_def event_text_def b len read_mem_add read_write_before read_write_prefix)
  show "hardlog_event_consumed (append_text ab bs) = hardlog_event_consumed ab + int (length bs)"
    by (simp add: append_text_def b)
qed (simp add: append_text_def split: option.splits)

lemma event_ok_room: "event_ok ab \<Longrightarrow> event_room ab"
  by (simp add: event_ok_def)

lemma room_unat [word_facts]: "c \<le> 511 \<Longrightarrow> unat (511 - of_nat c :: u64) = 511 - c"
  using unat_of_int_small [of "511 - int c"] by simp

lemma format_appends:
  assumes "event_room ab" and "nat (hardlog_event_consumed ab) + length txt < 511"
  shows "audit_log_format_hardlog (Some ab) txt = Inr (Some (append_text ab txt))"
proof -
  from assms(1) obtain b c where b: "hardlog_event_buffer ab = Some b" "live b" "bsize b = 512"
      "hardlog_event_consumed ab = int c" "c \<le> 511" by (rule event_roomE)
  with assms(2) have c: "c + length txt < 511" by simp
  have u: "unat (511 - of_nat c :: u64) = 511 - c"
    using c by (simp add: room_unat)
  have nz: "(511 - of_nat c :: u64) \<noteq> 0"
  proof
    assume "(511 - of_nat c :: u64) = 0"
    with u c show False by simp
  qed
  have "\<not> 2 ^ 31 - 1 < 511 - c" by simp
  then have "vsnprintf b (int c) (511 - of_nat c) txt =
      Inr (b\<lparr>cells := write_mem (cells b) c (txt @ [NUL])\<rparr>, int (length txt))"
    using b c nz by (simp add: vsnprintf_def u store_Inr)
  then show ?thesis
    using b c by (simp add: audit_log_format_hardlog_def Let_def append_text_def c_int_add_def int32_range_def)
qed

lemma n_string_appends:
  assumes "event_room ab" and "unat slen \<le> length str"
    and "nat (hardlog_event_consumed ab) + unat slen + 3 \<le> 511"
  shows "audit_log_n_string_hardlog (Some ab) str slen =
    Inr (Some (append_text ab (CHR ''\"'' # take (unat slen) str @ [CHR ''\"''])))"
proof -
  from assms(1) obtain b c where b: "hardlog_event_buffer ab = Some b" "live b" "bsize b = 512"
      "hardlog_event_consumed ab = int c" "c \<le> 511" by (rule event_roomE)
  define n where "n = unat slen"
  with assms b have c: "c + n + 3 \<le> 511" by simp
  have s3: "unat (slen + 3) = n + 3" and s2: "unat (slen + 2) = n + 2"
    using c by (simp_all add: n_def unat_word_ariths)
  have u: "unat (511 - of_nat c :: u64) = 511 - c"
    using c by (simp add: room_unat)
  have guard: "\<not> (511 - of_nat c < slen + 3)"
    using c by (simp add: word_less_nat_alt u s3)
  define xs where "xs = take (unat slen) str"
  with assms(2) have xs: "length xs = n" by (simp add: n_def)
  have st: "store b (int c) (CHR ''\"'' # xs @ [CHR ''\"'', NUL]) =
      Inr (b\<lparr>cells := write_mem (cells b) c (CHR ''\"'' # xs @ [CHR ''\"'', NUL])\<rparr>)"
    using b c by (simp add: store_Inr xs)
  have "c_int_add_size (int c) (slen + 2) = int c + int (unat (slen + 2))"
    using c s2 by (intro c_int_add_size_small) auto
  then have sz: "c_int_add_size (int c) (slen + 2) = int c + (int n + 2)"
    by (simp only: s2 of_nat_add of_nat_numeral)
  show ?thesis
    using b guard assms(2)
    by (simp add: audit_log_n_string_hardlog_def Let_def append_text_def st sz xs flip: xs_def)
qed

lemma length_hex_loop [simp]: "length (hex_loop pack cs) = 2 * length cs"
  by (induction cs) auto

lemma n_hex_appends:
  assumes "event_room ab" and "unat len \<le> length buf"
    and "nat (hardlog_event_consumed ab) + 2 * unat len \<le> 511"
  shows "audit_log_n_hex_hardlog pack (Some ab) buf len =
    Inr (Some (append_text ab (hex_loop pack (take (unat len) buf))))"
proof -
  from assms(1) obtain b c where b: "hardlog_event_buffer ab = Some b" "live b" "bsize b = 512"
      "hardlog_event_consumed ab = int c" "c \<le> 511" by (rule event_roomE)
  define n where "n = unat len"
  with assms b have c: "c + 2 * n \<le> 511" by simp
  have s2: "unat (len * 2) = 2 * n"
    using c by (simp add: n_def unat_word_ariths)
  have guard: "\<not> (511 - of_nat c < len * 2)"
    using c by (simp add: word_less_nat_alt room_unat s2)
  define xs where "xs = take (unat len) buf"
  with assms(2) have xs: "length xs = n" by (simp add: n_def)
  have st: "store b (int c) (hex_loop pack xs @ [NUL]) =
      Inr (b\<lparr>cells := write_mem (cells b) c (hex_loop pack xs @ [NUL])\<rparr>)"
    using b c by (simp add: store_Inr xs)
  have "c_int_add_size (int c) (len * 2) = int c + int (unat (len * 2))"
    using c s2 by (intro c_int_add_size_small) auto
  then have sz: "c_int_add_size (int c) (len * 2) = int c + 2 * int n"
    by (simp only: s2 of_nat_mult of_nat_numeral)
  show ?thesis
    using b guard assms(2)
    by (simp add: audit_log_n_hex_hardlog_def Let_def append_text_def st sz xs flip: xs_def)
qed

lemma n_string_drops:
  assumes "event_room ab" and "511 < nat (hardlog_event_consumed ab) + unat slen + 3"
    and "unat slen < 2 ^ 64 - 3"
  shows "audit_log_n_string_hardlog (Some ab) str slen = Inr (Some ab)"
proof -
  from assms(1) obtain b c where b: "hardlog_event_buffer ab = Some b" "live b" "bsize b = 512"
      "hardlog_event_consumed ab = int c" "c \<le> 511" by (rule event_roomE)
  have s3: "unat (slen + 3) = unat slen + 3"
    using assms(3) by (simp add: unat_word_ariths)
  then have "511 - of_nat c < slen + 3"
    using assms(2) b by (simp add: word_less_nat_alt room_unat)
  with b show ?thesis by (simp add: audit_log_n_string_hardlog_def)
qed

text \<open>An oversize text leaves the event with a consumed count that ignores the truncation.\<close>

lemma format_oversize:
  assumes "event_room ab" and "hardlog_event_consumed ab = int c" and "c < 511"
    and "511 \<le> c + length txt" and "length txt < 2 ^ 31 - 512"
  shows "\<exists>b'. audit_log_format_hardlog (Some ab) txt =
      Inr (Some (ab\<lparr>hardlog_event_buffer := Some b',
                    hardlog_event_consumed := int c + (int (length txt) - 10)\<rparr>))
    \<and> live b' \<and> bsize b' = 512"
proof -
  from assms(1,2) obtain b where b: "hardlog_event_buffer ab = Some b" "live b" "bsize b = 512"
    by (auto elim: event_roomE)
  have u: "unat (511 - of_nat c :: u64) = 511 - c"
    using assms(3) by (simp add: room_unat)
  have nz: "(511 - of_nat c :: u64) \<noteq> 0"
  proof
    assume "(511 - of_nat c :: u64) = 0"
    with u assms(3) show False by simp
  qed
  have "\<not> 2 ^ 31 - 1 < 511 - c" by simp
  moreover have "length (take (510 - c) txt) = 510 - c" using assms(3,4) by simp
  ultimately have "vsnprintf b (int c) (511 - of_nat c) txt =
      Inr (b\<lparr>cells := write_mem (cells b) c (take (510 - c) txt @ [NUL])\<rparr>, int (length txt))"
    using b assms(3) nz by (simp add: vsnprintf_def u store_Inr)
  with b assms have "audit_log_format_hardlog (Some ab) txt =
      Inr (Some (ab\<lparr>hardlog_event_buffer :=
            Some (b\<lparr>cells := write_mem (cells b) c (take (510 - c) txt @ [NUL])\<rparr>),
          hardlog_event_consumed := int c + (int (length txt) - 10)\<rparr>))"
    by (simp add: audit_log_format_hardlog_def Let_def c_int_add_def int32_range_def)
  with b show ?thesis
    by (intro exI [of _ "b\<lparr>cells := write_mem (cells b) c (take (510 - c) txt @ [NUL])\<rparr>"]) simp
qed

subsection \<open>Ending an event\<close>

lemma strlen_from_text:
  "(\<And>j. j < k \<Longrightarrow> m (i + j) \<noteq> NUL) \<Longrightarrow> m (i + k) = NUL \<Longrightarrow> k < n \<Longrightarrow> strlen_from m i n = Some k"
proof (induction n arbitrary: i k)
  case (Suc n)
  show ?case
  proof (cases k)
    case 0
    with Suc.prems show ?thesis by simp
  next
    case (Suc k')
    have "m i \<noteq> NUL" using Suc.prems(1) [of 0] Suc by simp
    moreover have "strlen_from m (Suc i) n = Some k'"
    proof (rule Suc.IH)
      fix j assume "j < k'"
      then show "m (Suc i + j) \<noteq> NUL" using Suc.prems(1) [of "Suc j"] Suc by simp
    qed (use Suc.prems Suc in simp_all)
    ultimately show ?thesis using Suc by simp
  qed
qed simp

lemma c_strlen_event:
  assumes "event_ok ab" and "hardlog_event_buffer ab = Some b" and "NUL \<notin> set (event_text ab)"
  shows "c_strlen b = Inr (nat (hardlog_event_consumed ab))"
proof -
  from assms(1,2) obtain c where b: "live b" "bsize b = 512"
      "hardlog_event_consumed ab = int c" "c \<le> 511" "cells b c = NUL"
    by (auto simp: event_ok_def elim!: event_roomE)
  have "cells b (0 + j) \<noteq> NUL" if "j < c" for j
  proof -
    from that have "cells b j \<in> set (event_text ab)"
      using assms(2) b by (auto simp: event_text_def read_mem_def)
    with assms(3) show ?thesis by auto
  qed
  with b have "strlen_from (cells b) 0 512 = Some c"
    by (intro strlen_from_text) auto
  with b show ?thesis by (simp add: c_strlen_def)
qed

text \<open>What is copied into the circular buffer: the text and, when it still fits, a newline.\<close>

definition event_record :: "audit_buffer \<Rightarrow> string" where
  "event_record ab = event_text ab @ [if hardlog_event_consumed ab \<le> 509 then NEWLINE else NUL]"

lemma length_event_record: "length (event_record ab) = length (event_text ab) + 1"
  by (simp add: event_record_def)

lemma length_event_text: "event_room ab \<Longrightarrow> length (event_text ab) = nat (hardlog_event_consumed ab)"
  by (auto simp: event_text_def elim!: event_roomE)

lemma endline:
  assumes "event_ok ab" and "hardlog_event_buffer ab = Some b" and "hardlog_event_consumed ab = int c"
  obtains b1 where "vsnprintf b (int c) (511 - of_nat c) [NEWLINE] = Inr (b1, 1)"
    "live b1" "bsize b1 = 512" "read_mem (cells b1) 0 (c + 1) = event_record ab" "c \<le> 511"
proof -
  from assms have b: "live b" "bsize b = 512" "c \<le> 511" "cells b c = NUL"
    by (auto simp: event_ok_def elim!: event_roomE)
  have u: "unat (511 - of_nat c :: u64) = 511 - c" using b by (simp add: room_unat)
  have small: "\<not> 2 ^ 31 - 1 < 511 - c" by simp
  have et: "event_text ab = read_mem (cells b) 0 c"
    using assms by (simp add: event_text_def)
  show thesis
  proof (cases "c = 511")
    case True
    then have "vsnprintf b (int c) (511 - of_nat c) [NEWLINE] = Inr (b, 1)"
      by (simp add: vsnprintf_def)
    moreover have "read_mem (cells b) 0 (c + 1) = event_record ab"
      using True b unfolding read_mem_snoc by (simp add: event_record_def assms(3) et)
    ultimately show thesis using b by (intro that)
  next
    case False
    with b have c: "c < 511" by simp
    have nz: "(511 - of_nat c :: u64) \<noteq> 0"
    proof
      assume "(511 - of_nat c :: u64) = 0"
      with u c show False by simp
    qed
    let ?w = "take (510 - c) [NEWLINE] @ [NUL]"
    have "vsnprintf b (int c) (511 - of_nat c) [NEWLINE] =
        Inr (b\<lparr>cells := write_mem (cells b) c ?w\<rparr>, 1)"
      using b c nz small by (simp add: vsnprintf_def u store_Inr)
    moreover have w: "write_mem (cells b) c ?w c = (if c \<le> 509 then NEWLINE else NUL)"
      using c by (auto simp: write_mem_def nth_append take_Cons')
    moreover have "read_mem (write_mem (cells b) c ?w) 0 (c + 1) = event_record ab"
      unfolding read_mem_snoc add_0 w by (simp add: event_record_def assms(3) et read_write_before)
    ultimately show thesis using b by (intro that [of "b\<lparr>cells := write_mem (cells b) c ?w\<rparr>"]) auto
  qed
qed

text \<open>Copying \<open>bytes\<close> to the head.\<close>

definition push_bytes :: "audit_circ_buffer \<Rightarrow> string \<Rightarrow> audit_circ_buffer" where
  "push_bytes cb bytes = (case buffer cb of None \<Rightarrow> cb
     | Some b \<Rightarrow> cb\<lparr>buffer := Some (b\<lparr>cells := write_mem (cells b) (unat (head cb) mod CBUFF) bytes\<rparr>),
                    head := head cb + of_nat (length bytes)\<rparr>)"

lemma push_bytes_frame [simp]:
  "tail (push_bytes cb bytes) = tail cb"
  "hostbuf_ok (push_bytes cb bytes) = hostbuf_ok cb"
  by (auto simp: push_bytes_def hostbuf_ok_def split: option.splits)

lemma push_bytes_head: "hostbuf_ok cb \<Longrightarrow> head (push_bytes cb bytes) = head cb + of_nat (length bytes)"
  by (auto simp: push_bytes_def elim!: hostbuf_okE)

lemma push_bytes_used:
  assumes "hostbuf_ok cb" and "used cb + length bytes < 2 ^ 64"
  shows "used (push_bytes cb bytes) = used cb + length bytes"
  using assms by (simp add: used_def push_bytes_head host_ring.used_add)

lemma push_bytes_pending:
  assumes "hostbuf_ok cb" and "used cb + length bytes \<le> CBUFF"
    and "unat (head cb) mod CBUFF + length bytes \<le> CBUFF"
  shows "pending (push_bytes cb bytes) = pending cb @ bytes"
proof -
  from assms(1) obtain b where b: "buffer cb = Some b" by (rule hostbuf_okE)
  have "used (push_bytes cb bytes) = used cb + length bytes"
    using assms host_ring.cap_lt by (intro push_bytes_used) auto
  then show ?thesis
    using host_ring.push_appends [of "head cb" "tail cb" bytes "cells b"] assms(2,3) b
    by (simp add: pending_def used_def ring_mem_def push_bytes_def)
qed

lemma cbuff_append_eq:
  assumes "hostbuf_ok (audit_cbuff s)" and "live ev" and "n \<le> bsize ev" and "n \<le> 512"
  shows "cbuff_append flushtimef now ev (int n) (head (audit_cbuff s)) s =
    Inr (s\<lparr>audit_cbuff := push_bytes (audit_cbuff s) (read_mem (cells ev) 0 n),
           meas := (if flushtimef then mark_log_appended now else id)
              (update_logs_created_measurement (of_nat n) (meas s))\<rparr>)"
proof -
  let ?cb = "audit_cbuff s" and ?i = "head (audit_cbuff s) mod of_nat CBUFF"
  from assms(1) obtain b where b: "buffer ?cb = Some b" "live b" "bsize b = CBUFF + PAGE_SIZE"
    by (rule hostbuf_okE)
  have un: "unat (of_nat n :: u64) = n"
    using assms(4) by (simp add: unat_of_nat take_bit_eq_mod)
  have ld: "load ev 0 n = Inr (read_mem (cells ev) 0 n)"
    using assms by (simp add: load_Inr)
  have i: "unat ?i = unat (head ?cb) mod CBUFF" by (rule host_ring.unat_mod_cap)
  have "unat ?i + length (read_mem (cells ev) 0 n) \<le> bsize b"
    using host_ring.linear_write_fits [of n "head ?cb"] assms(4) b by simp
  then have "store b (uint ?i) (read_mem (cells ev) 0 n) =
      Inr (b\<lparr>cells := write_mem (cells b) (unat (head ?cb) mod CBUFF) (read_mem (cells ev) 0 n)\<rparr>)"
    using b by (simp only: store_word i)
  then show ?thesis
    using b by (simp add: cbuff_append_def ld un push_bytes_def)
qed

text \<open>The critical section, for a record that fits the allocation.\<close>

definition commit_record :: "bool \<Rightarrow> u64 \<Rightarrow> string \<Rightarrow> 'z logger_scheme \<Rightarrow> 'z logger_scheme" where
  "commit_record flushtimef now rec s =
     s\<lparr>audit_cbuff := push_bytes (audit_cbuff s) rec,
       meas := (if flushtimef then mark_log_appended now else id)
          (update_logs_created_measurement (of_nat (length rec)) (meas s)),
       hardlog_audit_producer := False\<rparr>"

lemma commit_record_cbuff [simp]:
  "audit_cbuff (commit_record flushtimef now rec s) = push_bytes (audit_cbuff s) rec"
  "hardlog_audit_producer (commit_record flushtimef now rec s) = False"
  by (simp_all add: commit_record_def)

text \<open>What the other threads may do: they leave the allocation of the circular buffer alone.\<close>

definition keeps_hostbuf :: "'z logger_scheme interleaving \<Rightarrow> bool" where
  "keeps_hostbuf env \<longleftrightarrow>
     (\<forall>f \<in> set env. \<forall>x. hostbuf_ok (audit_cbuff x) \<longrightarrow> hostbuf_ok (audit_cbuff (f x)))"

lemma wait_while_hostbuf:
  assumes "wait_while c env s = Inr (s', env')" "keeps_hostbuf env" "hostbuf_ok (audit_cbuff s)"
  shows "hostbuf_ok (audit_cbuff s') \<and> keeps_hostbuf env'"
  using wait_while_inv [OF assms(1), of "\<lambda>x. hostbuf_ok (audit_cbuff x)"] assms(2,3)
  by (auto simp: keeps_hostbuf_def)

lemma mutex_lock_hostbuf:
  assumes "mutex_lock env s = Inr (s', env')" "keeps_hostbuf env" "hostbuf_ok (audit_cbuff s)"
  shows "hostbuf_ok (audit_cbuff s') \<and> keeps_hostbuf env'"
  using assms by (auto simp: mutex_lock_def dest!: wait_while_hostbuf)

lemma make_space_hostbuf:
  assumes "make_space_in_cbuff env s = Inr (h, s', env')" "keeps_hostbuf env" "hostbuf_ok (audit_cbuff s)"
  shows "hostbuf_ok (audit_cbuff s') \<and> keeps_hostbuf env' \<and> h = head (audit_cbuff s')
    \<and> used (audit_cbuff s') < CBUFF"
proof -
  from assms(1) have w: "wait_while (\<lambda>s. head (audit_cbuff s) - tail (audit_cbuff s) \<ge> of_nat CBUFF) env s
      = Inr (s', env')" and h: "h = head (audit_cbuff s')"
    by (auto simp: make_space_in_cbuff_def)
  from wait_while_exit [OF w] have "used (audit_cbuff s') < CBUFF"
    by (simp add: used_def word_le_nat_alt host_ring.unat_cap)
  with wait_while_hostbuf [OF w assms(2,3)] h show ?thesis by simp
qed

text \<open>An event long enough to be kept: the handler is lock, room, commit, unlock, wait.\<close>

lemma end_event_core:
  assumes "event_ok ab" and "NUL \<notin> set (event_text ab)" and "35 \<le> length (event_text ab)"
  shows "\<exists>ab' copy. (\<forall>s. hostbuf_ok (audit_cbuff s) \<longrightarrow> (\<exists>s3. copy (head (audit_cbuff s)) s = Inr s3
        \<and> head (audit_cbuff s3) = head (audit_cbuff (commit_record flushtimef now (event_record ab) s))
        \<and> s3\<lparr>hardlog_audit_producer := False\<rparr> = commit_record flushtimef now (event_record ab) s))
    \<and> audit_log_end_hardlog flushtimef now (Some ab) env s =
    rbind (mutex_lock env s) (\<lambda>(s1, env1).
    rbind (make_space_in_cbuff env1 s1) (\<lambda>(h, s2, env2).
    rbind (copy h s2) (\<lambda>s3.
    rbind (wait_flushed ab (head (audit_cbuff s3)) env2 (s3\<lparr>hardlog_audit_producer := False\<rparr>))
      (\<lambda>(s5, env5). Inr (Some ab', s5, env5)))))"
proof -
  from assms(1) obtain b c where b: "hardlog_event_buffer ab = Some b" "bsize b = 512"
      "hardlog_event_consumed ab = int c" "c \<le> 511"
    by (metis event_ok_room event_roomE)
  obtain b1 where b1: "vsnprintf b (int c) (511 - of_nat c) [NEWLINE] = Inr (b1, 1)"
    "live b1" "bsize b1 = 512" "read_mem (cells b1) 0 (c + 1) = event_record ab"
    using assms(1) b(1,3) by (rule endline)
  have c: "length (event_text ab) = c"
    using length_event_text [OF event_ok_room [OF assms(1)]] b by simp
  have len: "c_strlen b = Inr c" using c_strlen_event [OF assms(1) b(1) assms(2)] b by simp
  have sz: "c_int_add_size (int c) 1 = int (c + 1)"
    using c_int_add_size_small [of "int c" 1] b by simp
  have rec: "length (event_record ab) = c + 1" by (simp add: length_event_record c)
  let ?ab = "ab\<lparr>hardlog_event_buffer := Some (b1\<lparr>live := False\<rparr>), hardlog_event_consumed := int (c + 1)\<rparr>"
  let ?copy = "cbuff_append flushtimef now b1 (int (c + 1)) :: u64 \<Rightarrow> 'a logger_scheme \<Rightarrow> 'a logger_scheme res"
  have "?copy (head (audit_cbuff s2)) s2 =
      Inr (s2\<lparr>audit_cbuff := push_bytes (audit_cbuff s2) (event_record ab),
              meas := (if flushtimef then mark_log_appended now else id)
                 (update_logs_created_measurement (of_nat (c + 1)) (meas s2))\<rparr>)"
    if "hostbuf_ok (audit_cbuff s2)" for s2
    using cbuff_append_eq [OF that b1(2), of "c + 1"] b1 b by simp
  then have "\<forall>s. hostbuf_ok (audit_cbuff s) \<longrightarrow> (\<exists>s3. ?copy (head (audit_cbuff s)) s = Inr s3
        \<and> head (audit_cbuff s3) = head (audit_cbuff (commit_record flushtimef now (event_record ab) s))
        \<and> s3\<lparr>hardlog_audit_producer := False\<rparr> = commit_record flushtimef now (event_record ab) s)"
    by (simp add: commit_record_def rec del: of_nat_Suc)
  moreover have "audit_log_end_hardlog flushtimef now (Some ab) env s =
    rbind (mutex_lock env s) (\<lambda>(s1, env1).
    rbind (make_space_in_cbuff env1 s1) (\<lambda>(h, s2, env2).
    rbind (?copy h s2) (\<lambda>s3.
    rbind (wait_flushed ab (head (audit_cbuff s3)) env2 (s3\<lparr>hardlog_audit_producer := False\<rparr>))
      (\<lambda>(s5, env5). Inr (Some ?ab, s5, env5)))))"
    using assms(3) c b1
    by (simp add: audit_log_end_hardlog_def b len sz Let_def free_block_def del: of_nat_Suc)
  ultimately show ?thesis by blast
qed

lemma end_event_steps:
  assumes "event_ok ab" and "NUL \<notin> set (event_text ab)" and "35 \<le> length (event_text ab)"
    and "keeps_hostbuf env" and "hostbuf_ok (audit_cbuff s)"
  shows "\<exists>ab'. audit_log_end_hardlog flushtimef now (Some ab) env s =
    rbind (mutex_lock env s) (\<lambda>(s1, env1).
    rbind (make_space_in_cbuff env1 s1) (\<lambda>(h, s2, env2).
    rbind (wait_flushed ab (head (audit_cbuff (commit_record flushtimef now (event_record ab) s2)))
             env2 (commit_record flushtimef now (event_record ab) s2))
      (\<lambda>(s5, env5). Inr (Some ab', s5, env5))))"
proof -
  obtain ab' copy where copy: "\<And>s. hostbuf_ok (audit_cbuff s) \<Longrightarrow> \<exists>s3. copy (head (audit_cbuff s)) s = Inr s3
        \<and> head (audit_cbuff s3) = head (audit_cbuff (commit_record flushtimef now (event_record ab) s))
        \<and> s3\<lparr>hardlog_audit_producer := False\<rparr> = commit_record flushtimef now (event_record ab) s"
    and steps: "audit_log_end_hardlog flushtimef now (Some ab) env s =
      rbind (mutex_lock env s) (\<lambda>(s1, env1).
      rbind (make_space_in_cbuff env1 s1) (\<lambda>(h, s2, env2).
      rbind (copy h s2) (\<lambda>s3.
      rbind (wait_flushed ab (head (audit_cbuff s3)) env2 (s3\<lparr>hardlog_audit_producer := False\<rparr>))
        (\<lambda>(s5, env5). Inr (Some ab', s5, env5)))))"
    using end_event_core [OF assms(1-3), of flushtimef now env s] by blast
  show ?thesis
  proof (cases "mutex_lock env s")
    case (Inr p)
    obtain s1 env1 where p: "p = (s1, env1)" by (cases p)
    from mutex_lock_hostbuf [OF Inr [unfolded p] assms(4,5)]
    have ok1: "keeps_hostbuf env1" "hostbuf_ok (audit_cbuff s1)" by simp_all
    show ?thesis
    proof (cases "make_space_in_cbuff env1 s1")
      case (Inr q)
      obtain h s2 env2 where q: "q = (h, s2, env2)" by (cases q)
      from make_space_hostbuf [OF Inr [unfolded q] ok1]
      have h: "hostbuf_ok (audit_cbuff s2)" "h = head (audit_cbuff s2)" by simp_all
      from copy [OF h(1)] obtain s3 where "copy h s2 = Inr s3"
          "head (audit_cbuff s3) = head (audit_cbuff (commit_record flushtimef now (event_record ab) s2))"
          "s3\<lparr>hardlog_audit_producer := False\<rparr> = commit_record flushtimef now (event_record ab) s2" using h(2) by blast
      with Inr \<open>mutex_lock env s = Inr p\<close> p q show ?thesis
        by (intro exI [of _ ab']) (simp add: steps)
    qed (use Inr p steps in simp)
  qed (use steps in simp)
qed

subsection \<open>A whole event\<close>

text \<open>The calls that the kernel makes between start and end of an event.\<close>

datatype event_op = Format string | NString string | NHex "char list"

fun run_event_op :: "(char \<Rightarrow> char \<times> char) \<Rightarrow> event_op \<Rightarrow> audit_buffer option \<Rightarrow> audit_buffer option res" where
  "run_event_op pack (Format t) abp = audit_log_format_hardlog abp t"
| "run_event_op pack (NString t) abp = audit_log_n_string_hardlog abp t (of_nat (length t))"
| "run_event_op pack (NHex bs) abp = audit_log_n_hex_hardlog pack abp bs (of_nat (length bs))"

fun run_event :: "(char \<Rightarrow> char \<times> char) \<Rightarrow> event_op list \<Rightarrow> audit_buffer option \<Rightarrow> audit_buffer option res" where
  "run_event pack [] abp = Inr abp"
| "run_event pack (e # es) abp = rbind (run_event_op pack e abp) (run_event pack es)"

text \<open>What each call is meant to add to the event.\<close>

fun rendered :: "(char \<Rightarrow> char \<times> char) \<Rightarrow> event_op \<Rightarrow> string" where
  "rendered pack (Format t) = t"
| "rendered pack (NString t) = CHR ''\"'' # t @ [CHR ''\"'']"
| "rendered pack (NHex bs) = hex_loop pack bs"

lemma unat_of_length: "length xs < 2 ^ 64 \<Longrightarrow> unat (of_nat (length xs) :: u64) = length xs"
  by (simp add: unat_of_nat take_bit_eq_mod)

lemma run_event_op_appends:
  assumes "event_room ab" and "nat (hardlog_event_consumed ab) + length (rendered pack e) \<le> 510"
  shows "run_event_op pack e (Some ab) = Inr (Some (append_text ab (rendered pack e)))"
proof (cases e)
  case (Format t)
  with assms show ?thesis by (simp add: format_appends)
next
  case (NString t)
  with assms(2) have "unat (of_nat (length t) :: u64) = length t"
    by (intro unat_of_length) simp
  with NString assms show ?thesis by (simp add: n_string_appends)
next
  case (NHex bs)
  with assms(2) have "unat (of_nat (length bs) :: u64) = length bs"
    by (intro unat_of_length) simp
  with NHex assms show ?thesis by (simp add: n_hex_appends)
qed

lemma run_event_appends:
  assumes "event_room ab"
    and "nat (hardlog_event_consumed ab) + length (concat (map (rendered pack) es)) \<le> 510"
  shows "\<exists>ab'. run_event pack es (Some ab) = Inr (Some ab') \<and> event_room ab'
    \<and> (es \<noteq> [] \<longrightarrow> event_ok ab') \<and> ctx ab' = ctx ab
    \<and> event_text ab' = event_text ab @ concat (map (rendered pack) es)
    \<and> hardlog_event_consumed ab' = hardlog_event_consumed ab + int (length (concat (map (rendered pack) es)))"
  using assms
proof (induction es arbitrary: ab)
  case Nil
  then show ?case by simp
next
  case (Cons e es)
  let ?ab = "append_text ab (rendered pack e)"
  have fit: "nat (hardlog_event_consumed ab) + length (rendered pack e) \<le> 510"
    using Cons.prems(2) by simp
  then have ok: "event_ok ?ab" "event_text ?ab = event_text ab @ rendered pack e" "ctx ?ab = ctx ab"
      "hardlog_event_consumed ?ab = hardlog_event_consumed ab + int (length (rendered pack e))"
    using append_text_ok [of ab "rendered pack e"] Cons.prems(1) by simp_all
  have "0 \<le> hardlog_event_consumed ab"
    using Cons.prems(1) by (auto elim: event_roomE)
  then have "\<exists>ab'. run_event pack es (Some ?ab) = Inr (Some ab') \<and> event_room ab'
    \<and> (es \<noteq> [] \<longrightarrow> event_ok ab') \<and> ctx ab' = ctx ?ab
    \<and> event_text ab' = event_text ?ab @ concat (map (rendered pack) es)
    \<and> hardlog_event_consumed ab' = hardlog_event_consumed ?ab + int (length (concat (map (rendered pack) es)))"
    using Cons.prems ok by (intro Cons.IH) (auto simp: event_ok_room nat_add_distrib)
  moreover have "run_event pack (e # es) (Some ab) = run_event pack es (Some ?ab)"
    using run_event_op_appends [OF Cons.prems(1) fit] by simp
  ultimately show ?case using ok by (cases "es = []") auto
qed

lemma start_event:
  assumes "(if vmallocf then vmalloc 512 else kmalloc 512) = Some b" and "live b" "bsize b = 512"
  shows "event_room (audit_log_start_hardlog vmallocf kmalloc vmalloc ab)"
    and "hardlog_event_consumed (audit_log_start_hardlog vmallocf kmalloc vmalloc ab) = 0"
    and "event_text (audit_log_start_hardlog vmallocf kmalloc vmalloc ab) = []"
    and "ctx (audit_log_start_hardlog vmallocf kmalloc vmalloc ab) = ctx ab"
  using assms by (cases vmallocf; simp add: audit_log_start_hardlog_def event_room_def event_text_def)+

subsection \<open>Priority\<close>

lemma prio_loop_iff: "prio_loop sc ps \<longleftrightarrow> sc \<in> set ps"
  by (induction ps) auto

lemma is_prio_iff: "is_prio_syscall sc \<longleftrightarrow> sc \<in> set prio_syscalls"
  by (simp add: is_prio_syscall_def prio_loop_iff)

text \<open>Without a wait, locking and making room only take the mutex.\<close>

lemma no_wait:
  assumes "\<not> hardlog_audit_producer s" and "used (audit_cbuff s) < CBUFF"
  shows "mutex_lock env s = Inr (s\<lparr>hardlog_audit_producer := True\<rparr>, env)"
    and "make_space_in_cbuff env (s\<lparr>hardlog_audit_producer := True\<rparr>) =
      Inr (head (audit_cbuff s), s\<lparr>hardlog_audit_producer := True\<rparr>, env)"
  using assms
  by (simp_all add: mutex_lock_def make_space_in_cbuff_def used_def word_le_nat_alt host_ring.unat_cap)

lemma commit_record_locked [simp]:
  "commit_record flushtimef now rec (s\<lparr>hardlog_audit_producer := True\<rparr>) = commit_record flushtimef now rec s"
  by (simp add: commit_record_def)

lemma wait_flushed_normal:
  "(\<forall>c. ctx ab = Some c \<longrightarrow> \<not> is_prio_syscall (major c)) \<Longrightarrow> wait_flushed ab target env s = Inr (s, env)"
  by (auto simp: wait_flushed_def split: option.splits)

lemma wait_flushed_exit:
  assumes "wait_flushed ab target env s = Inr (s', env')" and "ctx ab = Some c" and "is_prio_syscall (major c)"
  shows "target \<le> tail (audit_cbuff s')"
  using assms by (auto simp: wait_flushed_def not_less dest!: wait_while_exit)

lemma wait_flushed_inv:
  assumes "wait_flushed ab target env s = Inr (s', env')" and "P (audit_cbuff s)"
    and "\<And>f x. f \<in> set env \<Longrightarrow> P (audit_cbuff x) \<Longrightarrow> P (audit_cbuff (f x))"
  shows "P (audit_cbuff s')"
  using assms wait_while_inv [where P = "\<lambda>x. P (audit_cbuff x)"]
  by (fastforce simp: wait_flushed_def split: option.splits if_splits)

text \<open>Mutual exclusion aside, what the handler does to the ring when nothing has to wait.\<close>

lemma end_event_no_wait:
  assumes "event_ok ab" and "NUL \<notin> set (event_text ab)" and "35 \<le> length (event_text ab)"
    and "hostbuf_ok (audit_cbuff s)" and "\<not> hardlog_audit_producer s" and "used (audit_cbuff s) < CBUFF"
  shows "\<exists>ab'. audit_log_end_hardlog flushtimef now (Some ab) env s =
    rbind (wait_flushed ab (head (audit_cbuff s) + of_nat (length (event_record ab))) env
            (commit_record flushtimef now (event_record ab) s))
      (\<lambda>(s5, env5). Inr (Some ab', s5, env5))"
proof -
  let ?s = "s\<lparr>hardlog_audit_producer := True\<rparr>"
  obtain ab' copy where copy: "hostbuf_ok (audit_cbuff ?s) \<Longrightarrow> \<exists>s3. copy (head (audit_cbuff ?s)) ?s = Inr s3
        \<and> head (audit_cbuff s3) = head (audit_cbuff (commit_record flushtimef now (event_record ab) ?s))
        \<and> s3\<lparr>hardlog_audit_producer := False\<rparr> = commit_record flushtimef now (event_record ab) ?s"
    and steps: "audit_log_end_hardlog flushtimef now (Some ab) env s =
      rbind (mutex_lock env s) (\<lambda>(s1, env1).
      rbind (make_space_in_cbuff env1 s1) (\<lambda>(h, s2, env2).
      rbind (copy h s2) (\<lambda>s3.
      rbind (wait_flushed ab (head (audit_cbuff s3)) env2 (s3\<lparr>hardlog_audit_producer := False\<rparr>))
        (\<lambda>(s5, env5). Inr (Some ab', s5, env5)))))"
    using end_event_core [OF assms(1-3), of flushtimef now env s] by blast
  obtain s3 where "copy (head (audit_cbuff s)) ?s = Inr s3"
      "head (audit_cbuff s3) = head (audit_cbuff s) + of_nat (length (event_record ab))"
      "s3\<lparr>hardlog_audit_producer := False\<rparr> = commit_record flushtimef now (event_record ab) s"
    using copy assms(4) by (auto simp: push_bytes_head)
  then show ?thesis using steps assms(5,6) by (intro exI [of _ ab']) (simp add: no_wait)
qed

text \<open>A sample event and a sample state for the closed instances below.\<close>

definition syscall_context :: "int \<Rightarrow> audit_context" where
  "syscall_context n = \<lparr>major = n, argv = [0, 0, 0, 0], return_code = 0, return_valid = 1, name_count = 0, filterkey = None,
     sockaddr = [], sockaddr_len = 0, personality = 0, arch = - 1073741762, fds = (- 1, - 1)\<rparr>"

lemma major_syscall_context [simp]: "major (syscall_context n) = n"
  by (simp add: syscall_context_def)

definition text_buffer :: "nat \<Rightarrow> nat \<Rightarrow> audit_context option \<Rightarrow> audit_buffer" where
  "text_buffer n sz c = \<lparr>skb = None, ctx = c, gfp_mask = 0,
     hardlog_event_buffer = Some \<lparr>cells = (\<lambda>i. if i < n then CHR ''x'' else NUL), bsize = sz, live = True\<rparr>,
     hardlog_event_consumed = int n\<rparr>"

definition logger_at :: "u64 \<Rightarrow> u64 \<Rightarrow> logger" where
  "logger_at h t = \<lparr>audit_cbuff = \<lparr>buffer = Some \<lparr>cells = (\<lambda>_. NUL), bsize = CBUFF + PAGE_SIZE, live = True\<rparr>,
       backup_buffer = None, head = h, tail = t\<rparr>,
     meas = measure0, hardlog_audit_producer = False, hardlog_active_ptr = True,
     hardlog_microlog_active_ptr = True, hardlog_active = True, hardlog_microlog_active = False\<rparr>"

lemma text_buffer_facts:
  assumes "n \<le> 511"
  shows "event_ok (text_buffer n 512 c)" "event_room (text_buffer n 512 c)"
    "event_text (text_buffer n sz c) = replicate n CHR ''x''" "ctx (text_buffer n sz c) = c"
    "hardlog_event_consumed (text_buffer n sz c) = int n"
  using assms
  by (auto simp: text_buffer_def event_ok_def event_room_def event_text_def intro!: nth_equalityI)

lemma text_buffer_no_nul: "NUL \<notin> set (event_text (text_buffer n sz c))"
  by (auto simp: text_buffer_def event_text_def read_mem_def)

lemma logger_at_facts:
  "hostbuf_ok (audit_cbuff (logger_at h t))" "\<not> hardlog_audit_producer (logger_at h t)"
  "used (audit_cbuff (logger_at h t)) = unat (h - t)"
  "head (audit_cbuff (logger_at h t)) = h" "tail (audit_cbuff (logger_at h t)) = t"
  "meas (logger_at h t) = measure0"
  by (simp_all add: logger_at_def hostbuf_ok_def used_def)

lemma keeps_hostbuf_Nil [simp]: "keeps_hostbuf []"
  by (simp add: keeps_hostbuf_def)

lemma oversize_guard:
  assumes "513 \<le> d" and "d < 2 ^ 31" and "w < 2 ^ 62" 
  shows "\<not> (511 - of_nat d < (w :: u64))"
proof -
  have "2 ^ 63 \<le> unat (511 - of_nat d :: u64)"
    using assms(1,2) unat_of_int_neg [of "511 - int d"] by simp
  moreover have "unat w < 2 ^ 62" using assms(3) by (simp add: word_less_nat_alt)
  ultimately show ?thesis by (simp only: word_less_nat_alt not_less) simp
qed

lemma short_event:
  assumes "event_ok ab" and "NUL \<notin> set (event_text ab)" and "length (event_text ab) < 35"
  shows "\<exists>ab'. audit_log_end_hardlog flushtimef now (Some ab) env s =
    Inr (Some ab', s\<lparr>meas := update_empty_logs_measurement (meas s)\<rparr>, env)"
proof -
  from assms(1) obtain b c where b: "hardlog_event_buffer ab = Some b" "live b"
      "hardlog_event_consumed ab = int c" "c \<le> 511"
    by (metis event_ok_room event_roomE)
  have "c_strlen b = Inr c" using c_strlen_event [OF assms(1) b(1) assms(2)] b by simp
  moreover have "length (event_text ab) = c"
    using length_event_text [OF event_ok_room [OF assms(1)]] b by simp
  ultimately show ?thesis
    using b assms(3) by (simp add: audit_log_end_hardlog_def free_block_def)
qed

lemma wait_flushed_cases:
  "wait_flushed ab target env s = Inl Waiting \<or> (\<exists>r. wait_flushed ab target env s = Inr r)"
  using wait_while_cases [of "\<lambda>s. tail (audit_cbuff s) < target" env s]
  by (auto simp: wait_flushed_def split: option.splits)

lemma keeps_hostbufD:
  "keeps_hostbuf env \<Longrightarrow> f \<in> set env \<Longrightarrow> hostbuf_ok (audit_cbuff x) \<Longrightarrow> hostbuf_ok (audit_cbuff (f x))"
  by (simp add: keeps_hostbuf_def)

text \<open>
  The handler either is still waiting, or it returns through the states of its three waits: \<open>s1\<close>
  with the mutex, \<open>s2\<close> with room in the ring, \<open>s'\<close> at the end.
\<close>

lemma end_event_outcome:
  assumes "event_ok ab" and "NUL \<notin> set (event_text ab)" and "35 \<le> length (event_text ab)"
    and "keeps_hostbuf env" and "hostbuf_ok (audit_cbuff s)"
  shows "audit_log_end_hardlog flushtimef now (Some ab) env s = Inl Waiting
    \<or> (\<exists>ab' s1 env1 h s2 env2 s' env'.
        mutex_lock env s = Inr (s1, env1) \<and> make_space_in_cbuff env1 s1 = Inr (h, s2, env2)
      \<and> wait_flushed ab (head (audit_cbuff s2) + of_nat (length (event_record ab))) env2
           (commit_record flushtimef now (event_record ab) s2) = Inr (s', env')
      \<and> audit_log_end_hardlog flushtimef now (Some ab) env s = Inr (Some ab', s', env')
      \<and> keeps_hostbuf env2 \<and> hostbuf_ok (audit_cbuff s2) \<and> hostbuf_ok (audit_cbuff s'))"
proof -
  obtain ab' where steps: "audit_log_end_hardlog flushtimef now (Some ab) env s =
    rbind (mutex_lock env s) (\<lambda>(s1, env1).
    rbind (make_space_in_cbuff env1 s1) (\<lambda>(h, s2, env2).
    rbind (wait_flushed ab (head (audit_cbuff (commit_record flushtimef now (event_record ab) s2)))
             env2 (commit_record flushtimef now (event_record ab) s2))
      (\<lambda>(s5, env5). Inr (Some ab', s5, env5))))"
    using end_event_steps [OF assms] by blast
  show ?thesis
  proof (cases "mutex_lock env s")
    case (Inl e)
    then have "e = Waiting"
      using wait_while_cases [of hardlog_audit_producer env s] by (auto simp: mutex_lock_def)
    with Inl steps show ?thesis by simp
  next
    case (Inr p)
    then obtain s1 env1 where lock: "mutex_lock env s = Inr (s1, env1)" by (cases p) auto
    note ok1 = mutex_lock_hostbuf [OF lock assms(4,5)]
    show ?thesis
    proof (cases "make_space_in_cbuff env1 s1")
      case (Inl e)
      then have "e = Waiting"
        using wait_while_cases [of "\<lambda>s. head (audit_cbuff s) - tail (audit_cbuff s) \<ge> of_nat CBUFF" env1 s1]
        by (auto simp: make_space_in_cbuff_def)
      with Inl lock steps show ?thesis by simp
    next
      case (Inr q)
      then obtain h s2 env2 where space: "make_space_in_cbuff env1 s1 = Inr (h, s2, env2)"
        by (cases q) auto
      note ok2 = make_space_hostbuf [OF space ok1 [THEN conjunct2] ok1 [THEN conjunct1]]
      let ?s3 = "commit_record flushtimef now (event_record ab) s2"
      let ?t = "head (audit_cbuff s2) + of_nat (length (event_record ab))"
      have t: "head (audit_cbuff ?s3) = ?t" using ok2 by (simp add: push_bytes_head)
      show ?thesis
      proof (cases "wait_flushed ab ?t env2 ?s3")
        case (Inl e)
        then have "e = Waiting" using wait_flushed_cases [of ab ?t env2 ?s3] by auto
        with Inl lock space steps t show ?thesis by simp
      next
        case (Inr z)
        then obtain s' env' where w: "wait_flushed ab ?t env2 ?s3 = Inr (s', env')" by (cases z) auto
        have "hostbuf_ok (audit_cbuff ?s3)" using ok2 by simp
        then have "hostbuf_ok (audit_cbuff s')"
          using ok2 keeps_hostbufD by (intro wait_flushed_inv [where P = hostbuf_ok, OF w]) blast+
        moreover have "audit_log_end_hardlog flushtimef now (Some ab) env s = Inr (Some ab', s', env')"
          using steps lock space t w by simp
        ultimately show ?thesis using lock space w ok2 by blast
      qed
    qed
  qed
qed

text \<open>The same outcome as an equation, for an event that does not have to wait at all.\<close>

lemma end_event_now:
  assumes "event_ok ab" and "NUL \<notin> set (event_text ab)" and "35 \<le> length (event_text ab)"
    and "hostbuf_ok (audit_cbuff s)" and "\<not> hardlog_audit_producer s" and "used (audit_cbuff s) < CBUFF"
    and "\<forall>c. ctx ab = Some c \<longrightarrow> \<not> is_prio_syscall (major c)"
  shows "\<exists>ab'. audit_log_end_hardlog flushtimef now (Some ab) [] s =
    Inr (Some ab', commit_record flushtimef now (event_record ab) s, [])"
  using end_event_no_wait [OF assms(1-6), of flushtimef now "[]"] assms(7)
  by (simp add: wait_flushed_normal)

lemma event_record_short:
  "event_room ab \<Longrightarrow> length (event_text ab) \<le> 509 \<Longrightarrow> event_record ab = event_text ab @ [NEWLINE]"
  by (auto simp: event_record_def length_event_text elim!: event_roomE)

lemma event_record_full:
  "event_room ab \<Longrightarrow> 510 \<le> length (event_text ab) \<Longrightarrow> event_record ab = event_text ab @ [NUL]"
  by (auto simp: event_record_def length_event_text elim!: event_roomE)

lemma length_event_record_le: "event_room ab \<Longrightarrow> length (event_record ab) \<le> 512"
  by (auto simp: length_event_record length_event_text elim!: event_roomE)

text \<open>The priority system calls' guarantee, with the flusher as the only other thread.\<close>

definition keeps_head :: "'z logger_scheme interleaving \<Rightarrow> bool" where
  "keeps_head env \<longleftrightarrow> (\<forall>f \<in> set env. \<forall>x. head (audit_cbuff (f x)) = head (audit_cbuff x))"

lemma head_kept:
  assumes "wait_while c env s = Inr (s', env')" and "keeps_head env"
  shows "head (audit_cbuff s') = head (audit_cbuff s) \<and> keeps_head env'"
  using wait_while_inv [OF assms(1), of "\<lambda>x. head (audit_cbuff x) = head (audit_cbuff s)"] assms(2)
  by (auto simp: keeps_head_def)

lemma mutex_lock_head:
  assumes "mutex_lock env s = Inr (s', env')" and "keeps_head env"
  shows "head (audit_cbuff s') = head (audit_cbuff s) \<and> keeps_head env'"
  using assms by (auto simp: mutex_lock_def dest!: head_kept)

lemma make_space_head:
  assumes "make_space_in_cbuff env s = Inr (h, s', env')" and "keeps_head env"
  shows "head (audit_cbuff s') = head (audit_cbuff s) \<and> keeps_head env'"
  using assms by (auto simp: make_space_in_cbuff_def dest!: head_kept)

lemma push_bytes_overruns:
  assumes "hostbuf_ok cb" and "used cb \<le> CBUFF" and "CBUFF < used cb + length bytes"
    and "length bytes \<le> CBUFF" and "unat (head cb) mod CBUFF + length bytes \<le> CBUFF"
  shows "take (used cb + length bytes - CBUFF) (pending (push_bytes cb bytes)) = drop (CBUFF - used cb) bytes"
proof -
  from assms(1) obtain b where b: "buffer cb = Some b" by (rule hostbuf_okE)
  have u: "used (push_bytes cb bytes) = used cb + length bytes"
    using assms CBUFF_eq by (intro push_bytes_used) auto
  have "pending (push_bytes cb bytes) =
      ring_bytes CBUFF (write_mem (cells b) (unat (head cb) mod CBUFF) bytes) (unat (tail cb))
        ((used cb + length bytes - CBUFF) + CBUFF)"
    using assms(3) b u by (simp add: pending_def ring_mem_def push_bytes_def)
  then have "take (used cb + length bytes - CBUFF) (pending (push_bytes cb bytes)) =
      ring_bytes CBUFF (write_mem (cells b) (unat (head cb) mod CBUFF) bytes) (unat (tail cb))
        (used cb + length bytes - CBUFF)"
    by (simp only: ring_bytes_add) simp
  also have "\<dots> = drop (CBUFF - used cb) bytes"
    using assms(2,3,5) host_ring.push_overruns [of "head cb" "tail cb" bytes "cells b"]
    by (simp add: used_def)
  finally show ?thesis .
qed

lemma push_bytes_straddles:
  assumes "hostbuf_ok cb" and "used cb + length bytes \<le> CBUFF"
    and "CBUFF < unat (head cb) mod CBUFF + length bytes"
  shows "pending (push_bytes cb bytes) = pending cb @ take (CBUFF - unat (head cb) mod CBUFF) bytes
    @ read_mem (ring_mem cb) 0 (length bytes - (CBUFF - unat (head cb) mod CBUFF))"
proof -
  from assms(1) obtain b where b: "buffer cb = Some b" by (rule hostbuf_okE)
  have "used (push_bytes cb bytes) = used cb + length bytes"
    using assms host_ring.cap_lt by (intro push_bytes_used) auto
  then show ?thesis
    using host_ring.push_straddles [of "head cb" "tail cb" bytes "cells b"] assms(2,3) b
    by (simp add: pending_def used_def ring_mem_def push_bytes_def)
qed

lemma prio_priority: "is_prio_syscall 59"
  by (simp add: is_prio_iff prio_syscalls_def)

text \<open>The allocation made by the setup.\<close>

definition fresh_block :: "nat \<Rightarrow> block option" where
  "fresh_block n = Some \<lparr>cells = (\<lambda>_. NUL), bsize = n, live = True\<rparr>"

lemma wait_flushed_returns:
  assumes "k \<le> length env" and "target \<le> tail (audit_cbuff (fold (\<lambda>f. f) (take k env) s))"
  shows "\<exists>r. wait_flushed ab target env s = Inr r"
  using wait_while_returns [of k env "\<lambda>s. tail (audit_cbuff s) < target" s] assms
  by (auto simp: wait_flushed_def not_less split: option.splits)

subsection \<open>Fields of any length\<close>

lemma n_hex_drops:
  assumes "event_room ab" and "511 < nat (hardlog_event_consumed ab) + 2 * unat len" and "unat len < 2 ^ 63"
  shows "audit_log_n_hex_hardlog pack (Some ab) buf len = Inr (Some ab)"
proof -
  from assms(1) obtain b c where b: "hardlog_event_buffer ab = Some b" "live b" "bsize b = 512"
      "hardlog_event_consumed ab = int c" "c \<le> 511" by (rule event_roomE)
  have "unat (len * 2) = 2 * unat len" using assms(3) by (simp add: unat_word_ariths)
  then have "511 - of_nat c < len * 2"
    using assms(2) b by (simp add: word_less_nat_alt room_unat)
  with b show ?thesis by (simp add: audit_log_n_hex_hardlog_def)
qed

text \<open>A field as the kernel passes it from user data: a string or bytes, of any sensible length.\<close>

fun user_field :: "event_op \<Rightarrow> bool" where
  "user_field (Format _) = False"
| "user_field (NString t) \<longleftrightarrow> length t < 2 ^ 62"
| "user_field (NHex bs) \<longleftrightarrow> length bs < 2 ^ 62"

text \<open>What a field needs beyond the bytes that the event holds: a string also leaves one byte free.\<close>

fun needs :: "event_op \<Rightarrow> nat" where
  "needs (NString t) = length t + 3"
| "needs (NHex bs) = 2 * length bs"
| "needs (Format t) = length t + 1"

text \<open>The fields that are accepted: each one that fits what the earlier ones leave, whole.\<close>

fun accepted :: "(char \<Rightarrow> char \<times> char) \<Rightarrow> nat \<Rightarrow> event_op list \<Rightarrow> string" where
  "accepted pack n [] = []"
| "accepted pack n (e # es) =
     (if n + needs e \<le> 511 then rendered pack e @ accepted pack (n + length (rendered pack e)) es else accepted pack n es)"

lemma user_field_step:
  assumes "event_room ab" and "user_field e"
  shows "run_event_op pack e (Some ab) = Inr (Some
    (if nat (hardlog_event_consumed ab) + needs e \<le> 511 then append_text ab (rendered pack e) else ab))"
proof (cases e)
  case (NString t)
  then have u: "unat (of_nat (length t) :: u64) = length t" using assms(2) by (intro unat_of_length) simp
  show ?thesis
    using NString assms u n_string_appends [OF assms(1), of "of_nat (length t)" t] n_string_drops [OF assms(1), of "of_nat (length t)" t]
    by simp
next
  case (NHex bs)
  then have u: "unat (of_nat (length bs) :: u64) = length bs" using assms(2) by (intro unat_of_length) simp
  show ?thesis
    using NHex assms u n_hex_appends [OF assms(1), of "of_nat (length bs)" bs] n_hex_drops [OF assms(1), of "of_nat (length bs)"]
    by simp
qed (use assms in simp)

lemma user_fields_run:
  assumes "event_ok ab" and "list_all user_field es"
  shows "\<exists>ab'. run_event pack es (Some ab) = Inr (Some ab') \<and> event_ok ab'
    \<and> event_text ab' = event_text ab @ accepted pack (length (event_text ab)) es"
  using assms
proof (induction es arbitrary: ab)
  case Nil
  then show ?case by simp
next
  case (Cons e es)
  have room: "event_room ab" and len: "length (event_text ab) = nat (hardlog_event_consumed ab)"
    using "Cons.prems"(1) by (simp_all add: event_ok_room length_event_text)
  have e: "user_field e" "list_all user_field es" using "Cons.prems"(2) by simp_all
  show ?case
  proof (cases "length (event_text ab) + needs e \<le> 511")
    case True
    then have fit: "nat (hardlog_event_consumed ab) + length (rendered pack e) \<le> 511"
      using len e(1) by (cases e) simp_all
    show ?thesis
      using "Cons.IH" [OF append_text_ok(1) [OF room fit] e(2)] append_text_ok(2) [OF room fit]
        user_field_step [OF room e(1), of pack] True len by simp
  next
    case False
    then show ?thesis using "Cons.IH" [OF "Cons.prems"(1) e(2)] user_field_step [OF room e(1), of pack] len by simp
  qed
qed

section \<open>Properties\<close>

text \<open>
  C15: an event is recorded completely. From a fresh 512-byte allocation, any non-empty sequence of
  format, string and hex calls whose rendered texts have at most 510 characters together succeeds
  and leaves exactly the concatenation of the rendered texts in the event, terminated, with the
  consumed count equal to its length.
\<close>

theorem event_complete:
  assumes "(if vmallocf then vmalloc 512 else kmalloc 512) = Some b" and "live b" "bsize b = 512"
    and "es \<noteq> []" and "length (concat (map (rendered pack) es)) \<le> 510"
  shows "\<exists>ab'. run_event pack es (Some (audit_log_start_hardlog vmallocf kmalloc vmalloc ab)) = Inr (Some ab')
    \<and> event_ok ab' \<and> event_text ab' = concat (map (rendered pack) es)
    \<and> hardlog_event_consumed ab' = int (length (concat (map (rendered pack) es)))"
proof -
  note start = start_event [where vmallocf = vmallocf and kmalloc = kmalloc and vmalloc = vmalloc
      and b = b and ab = ab, OF assms(1-3)]
  show ?thesis
    using run_event_appends [OF start(1), of pack es] start assms(4,5) by auto
qed

theorem event_complete_witness:
  "\<exists>ab'. run_event (\<lambda>c. (c, c)) [Format ''pid=1 comm='', NString ''sh'', NHex ''A'']
      (Some (audit_log_start_hardlog False
         (\<lambda>n. Some \<lparr>cells = (\<lambda>_. CHR ''?''), bsize = n, live = True\<rparr>) (\<lambda>_. None) (text_buffer 0 0 None)))
      = Inr (Some ab')
    \<and> event_text ab' = ''pid=1 comm=\"sh\"AA''"
  using event_complete [of False "\<lambda>_. None" "\<lambda>n. Some \<lparr>cells = (\<lambda>_. CHR ''?''), bsize = n, live = True\<rparr>"
      "\<lparr>cells = (\<lambda>_. CHR ''?''), bsize = 512, live = True\<rparr>"
      "[Format ''pid=1 comm='', NString ''sh'', NHex ''A'']" "\<lambda>c. (c, c)" "text_buffer 0 0 None"]
  by auto

text \<open>The reader of a hex field, given an inverse of the kernel's packing of one byte.\<close>

fun hex_unloop :: "(char \<times> char \<Rightarrow> char) \<Rightarrow> string \<Rightarrow> char list" where
  "hex_unloop unpack (a # b # cs) = unpack (a, b) # hex_unloop unpack cs"
| "hex_unloop unpack _ = []"

lemma hex_unloop_loop:
  "(\<And>c. unpack (pack c) = c) \<Longrightarrow> hex_unloop unpack (hex_loop pack cs) = cs"
  by (induction cs) auto

text \<open>
  Hex fields decode. If the kernel's packing of one byte has an inverse, what
  \<open>audit_log_n_hex_hardlog\<close> adds to an event with room for it decodes to the bytes it was given.
\<close>

theorem hex_field_decodes:
  assumes "\<And>c. unpack (pack c) = c"
    and "event_room ab" and "unat len \<le> length buf"
    and "nat (hardlog_event_consumed ab) + 2 * unat len \<le> 511"
  shows "\<exists>ab'. audit_log_n_hex_hardlog pack (Some ab) buf len = Inr (Some ab') \<and> event_ok ab'
    \<and> take (length (event_text ab)) (event_text ab') = event_text ab
    \<and> hex_unloop unpack (drop (length (event_text ab)) (event_text ab')) = take (unat len) buf"
  using n_hex_appends [OF assms(2-4), of pack]
    append_text_ok [OF assms(2), of "hex_loop pack (take (unat len) buf)"] assms(3,4)
  by (auto simp: hex_unloop_loop [of unpack pack, OF assms(1)])

theorem hex_field_decodes_witness:
  "\<exists>ab'. audit_log_n_hex_hardlog (\<lambda>c. (c, CHR ''0'')) (Some (text_buffer 3 512 None)) ''ab'' 2 = Inr (Some ab')
    \<and> hex_unloop fst (drop 3 (event_text ab')) = ''ab''"
  using hex_field_decodes [of fst "\<lambda>c. (c, CHR ''0'')" "text_buffer 3 512 None" 2 "''ab''"]
  by (auto simp: text_buffer_facts)

text \<open>
  An oversize event corrupts memory. If a formatted text does not fit (by at least 12
  characters), the call succeeds but adds the full length less ten to the consumed count. The room
  checks of the next string or hex call then compare a negative \<open>int\<close>, converted to unsigned, with
  the length: they pass, and the call writes outside the 512-byte event buffer.
\<close>

theorem oversize_event_overflows:
  assumes "event_room ab" and "hardlog_event_consumed ab = int c" and "c < 511"
    and "523 \<le> c + length txt" and "length txt < 2 ^ 31 - 512"
    and "unat slen \<le> length str" and "slen < 2 ^ 60"
  shows "\<exists>ab'. audit_log_format_hardlog (Some ab) txt = Inr (Some ab')
    \<and> audit_log_n_string_hardlog (Some ab') str slen = Inl OutOfBounds
    \<and> audit_log_n_hex_hardlog pack (Some ab') str slen = Inl OutOfBounds"
proof -
  from format_oversize [OF assms(1-3) _ assms(5)] assms(4)
  obtain b' where b': "audit_log_format_hardlog (Some ab) txt =
      Inr (Some (ab\<lparr>hardlog_event_buffer := Some b',
                    hardlog_event_consumed := int c + (int (length txt) - 10)\<rparr>))"
    "live b'" "bsize b' = 512" by auto
  define d where "d = c + length txt - 10"
  have d: "int c + (int (length txt) - 10) = int d" "513 \<le> d" "d < 2 ^ 31"
    using assms by (auto simp: d_def)
  have small: "unat slen < 2 ^ 60" using assms(7) by (simp add: word_less_nat_alt)
  have "unat (slen + 3) < 2 ^ 62" "unat (slen * 2) < 2 ^ 62"
    using small by (simp_all add: unat_word_ariths)
  then have "slen + 3 < 2 ^ 62" "slen * 2 < 2 ^ 62"
    by (simp_all add: word_less_nat_alt)
  then have "\<not> (511 - of_nat d < slen + 3)" "\<not> (511 - of_nat d < slen * 2)"
    using oversize_guard [OF d(2,3)] by blast+
  moreover have "store b' (int d) (CHR ''\"'' # take (unat slen) str @ [CHR ''\"'', NUL]) = Inl OutOfBounds"
    "store b' (int d) (hex_loop pack (take (unat slen) str) @ [NUL]) = Inl OutOfBounds"
    using d b' by (simp_all add: store_def)
  ultimately have "audit_log_n_string_hardlog (Some (ab\<lparr>hardlog_event_buffer := Some b',
        hardlog_event_consumed := int d\<rparr>)) str slen = Inl OutOfBounds"
    "audit_log_n_hex_hardlog pack (Some (ab\<lparr>hardlog_event_buffer := Some b',
        hardlog_event_consumed := int d\<rparr>)) str slen = Inl OutOfBounds"
    using assms(6) by (simp_all add: audit_log_n_string_hardlog_def audit_log_n_hex_hardlog_def Let_def)
  with b'(1) show ?thesis unfolding d(1) by blast
qed

theorem oversize_event_overflows_witness:
  "\<exists>ab'. audit_log_format_hardlog (Some (text_buffer 500 512 None)) (replicate 23 CHR ''y'') = Inr (Some ab')
    \<and> audit_log_n_string_hardlog (Some ab') ''sh'' 2 = Inl OutOfBounds
    \<and> audit_log_n_hex_hardlog (\<lambda>c. (c, c)) (Some ab') ''sh'' 2 = Inl OutOfBounds"
  by (rule oversize_event_overflows [of _ 500]) (simp_all add: text_buffer_facts)

text \<open>
  C34: ending an event is memory safe. For a well-formed event and an allocated circular buffer,
  whatever the other threads do to the counters, the handler returns or keeps waiting; it never
  stops with a memory error, and the allocation of the circular buffer stays as it was.
\<close>

theorem end_never_faults:
  assumes "event_ok ab" and "NUL \<notin> set (event_text ab)"
    and "keeps_hostbuf env" and "hostbuf_ok (audit_cbuff s)"
  shows "audit_log_end_hardlog flushtimef now (Some ab) env s = Inl Waiting
    \<or> (\<exists>ab' s' env'. audit_log_end_hardlog flushtimef now (Some ab) env s = Inr (ab', s', env')
        \<and> hostbuf_ok (audit_cbuff s'))"
proof (cases "length (event_text ab) < 35")
  case True
  then show ?thesis using short_event [OF assms(1,2), of flushtimef now env s] assms(4) by fastforce
next
  case False
  then show ?thesis
    using end_event_outcome [OF assms(1,2) _ assms(3,4), of flushtimef now] by fastforce
qed

theorem end_never_faults_witness:
  "audit_log_end_hardlog False 0 (Some (text_buffer 40 512 None))
      [\<lambda>s. s\<lparr>hardlog_audit_producer := False\<rparr>]
      ((logger_at 7 7)\<lparr>hardlog_audit_producer := True\<rparr>) = Inl Waiting
    \<or> (\<exists>ab' s' env'. audit_log_end_hardlog False 0 (Some (text_buffer 40 512 None))
      [\<lambda>s. s\<lparr>hardlog_audit_producer := False\<rparr>]
      ((logger_at 7 7)\<lparr>hardlog_audit_producer := True\<rparr>) = Inr (ab', s', env') \<and> hostbuf_ok (audit_cbuff s'))"
  by (rule end_never_faults)
    (simp_all add: text_buffer_facts text_buffer_no_nul logger_at_facts keeps_hostbuf_def)

text \<open>
  A short event leaves no trace in the ring. An event of fewer than 35 characters is freed and
  counted as empty; the circular buffer, the mutex and the interleaving are untouched.
\<close>

theorem short_event_dropped:
  assumes "event_ok ab" and "NUL \<notin> set (event_text ab)" and "length (event_text ab) < 35"
  shows "\<exists>ab'. audit_log_end_hardlog flushtimef now (Some ab) env s =
    Inr (Some ab', s\<lparr>meas := update_empty_logs_measurement (meas s)\<rparr>, env)"
  using assms by (rule short_event)

theorem short_event_dropped_witness:
  "\<exists>ab'. audit_log_end_hardlog False 0 (Some (text_buffer 3 512 None)) [] (logger_at 7 7) =
    Inr (Some ab', (logger_at 7 7)\<lparr>meas := update_empty_logs_measurement measure0\<rparr>, [])"
  using short_event_dropped [of "text_buffer 3 512 None" False 0 "[]" "logger_at 7 7"]
  by (simp add: text_buffer_facts logger_at_facts)

text \<open>
  C16: ending an event appends it to the byte queue. With room for the record and no wrap at the
  capacity, the handler (not waiting, not a priority call) returns with the pending bytes extended
  by exactly the event's text and a newline, the tail unmoved and the mutex released.
\<close>

theorem end_appends_record:
  assumes "event_ok ab" and "NUL \<notin> set (event_text ab)"
    and "35 \<le> length (event_text ab)" and "length (event_text ab) \<le> 509"
    and "hostbuf_ok (audit_cbuff s)" and "\<not> hardlog_audit_producer s"
    and "used (audit_cbuff s) + length (event_text ab) + 1 \<le> CBUFF"
    and "unat (head (audit_cbuff s)) mod CBUFF + length (event_text ab) + 1 \<le> CBUFF"
    and "\<forall>c. ctx ab = Some c \<longrightarrow> \<not> is_prio_syscall (major c)"
  shows "\<exists>ab' s'. audit_log_end_hardlog flushtimef now (Some ab) [] s = Inr (Some ab', s', [])
    \<and> pending (audit_cbuff s') = pending (audit_cbuff s) @ event_text ab @ [NEWLINE]
    \<and> tail (audit_cbuff s') = tail (audit_cbuff s) \<and> \<not> hardlog_audit_producer s'"
proof -
  have rec: "event_record ab = event_text ab @ [NEWLINE]"
    using assms(1,4) by (simp add: event_record_short event_ok_room)
  obtain ab' where run: "audit_log_end_hardlog flushtimef now (Some ab) [] s =
      Inr (Some ab', commit_record flushtimef now (event_record ab) s, [])"
    using end_event_now [OF assms(1-3,5,6) _ assms(9)] assms(7) by fastforce
  have "pending (push_bytes (audit_cbuff s) (event_record ab)) = pending (audit_cbuff s) @ event_record ab"
    using assms(5,7,8) by (intro push_bytes_pending) (simp_all add: rec)
  with run show ?thesis by (simp add: rec)
qed

theorem end_appends_record_witness:
  "\<exists>ab' s'. audit_log_end_hardlog False 0 (Some (text_buffer 40 512 None)) [] (logger_at 7 7) = Inr (Some ab', s', [])
    \<and> pending (audit_cbuff s') = replicate 40 CHR ''x'' @ [NEWLINE]"
proof -
  have "pending (audit_cbuff (logger_at 7 7)) = []" by (simp add: pending_def logger_at_facts)
  with end_appends_record [of "text_buffer 40 512 None" "logger_at 7 7" False 0]
  show ?thesis
    by (auto simp: text_buffer_facts text_buffer_no_nul logger_at_facts CBUFF_eq)
qed

text \<open>
  A full event loses its newline. When 510 of the 511 bytes are used, the append of the newline
  has room for the terminator only, and the record ends in a null character, although one byte of
  the block size is reserved for the end of the line.
\<close>

theorem full_event_loses_newline:
  assumes "event_ok ab" and "NUL \<notin> set (event_text ab)" and "length (event_text ab) = 510"
    and "hostbuf_ok (audit_cbuff s)" and "\<not> hardlog_audit_producer s"
    and "used (audit_cbuff s) + 511 \<le> CBUFF" and "unat (head (audit_cbuff s)) mod CBUFF + 511 \<le> CBUFF"
    and "\<forall>c. ctx ab = Some c \<longrightarrow> \<not> is_prio_syscall (major c)"
  shows "\<exists>ab' s'. audit_log_end_hardlog flushtimef now (Some ab) [] s = Inr (Some ab', s', [])
    \<and> pending (audit_cbuff s') = pending (audit_cbuff s) @ event_text ab @ [NUL]"
proof -
  have rec: "event_record ab = event_text ab @ [NUL]"
    using assms(1,3) by (simp add: event_record_full event_ok_room)
  obtain ab' where run: "audit_log_end_hardlog flushtimef now (Some ab) [] s =
      Inr (Some ab', commit_record flushtimef now (event_record ab) s, [])"
    using end_event_now [OF assms(1,2) _ assms(4,5) _ assms(8)] assms(3,6) by fastforce
  have "pending (push_bytes (audit_cbuff s) (event_record ab)) = pending (audit_cbuff s) @ event_record ab"
    using assms(3,4,6,7) by (intro push_bytes_pending) (simp_all add: rec)
  with run show ?thesis by (simp add: rec)
qed

theorem full_event_loses_newline_witness:
  "\<exists>ab' s'. audit_log_end_hardlog False 0 (Some (text_buffer 510 512 None)) [] (logger_at 7 7) = Inr (Some ab', s', [])
    \<and> pending (audit_cbuff s') = event_text (text_buffer 510 512 None) @ [NUL]"
proof -
  have "pending (audit_cbuff (logger_at 7 7)) = []" by (simp add: pending_def logger_at_facts)
  with full_event_loses_newline [of "text_buffer 510 512 None" "logger_at 7 7" False 0]
  show ?thesis
    by (auto simp: text_buffer_facts(1,2,4,5) text_buffer_no_nul logger_at_facts CBUFF_eq length_event_text)
qed

text \<open>
  A priority system call is flushed before it returns. If the only other thread is the flusher
  (it leaves the head and the allocation alone), a priority call whose handler returns has its
  record appended at the head, and the tail has reached the end of the record.
\<close>

theorem prio_returns_flushed:
  assumes "event_ok ab" and "NUL \<notin> set (event_text ab)" and "35 \<le> length (event_text ab)"
    and "ctx ab = Some c" and "is_prio_syscall (major c)"
    and "hostbuf_ok (audit_cbuff s)" and "keeps_hostbuf env"
    and "keeps_head env"
    and "audit_log_end_hardlog flushtimef now (Some ab) env s = Inr (ab', s', env')"
  shows "head (audit_cbuff s') = head (audit_cbuff s) + of_nat (length (event_text ab) + 1)
    \<and> head (audit_cbuff s') \<le> tail (audit_cbuff s')"
proof -
  from end_event_outcome [OF assms(1-3,7,6), of flushtimef now] assms(9)
  obtain s1 env1 h s2 env2 where
    lock: "mutex_lock env s = Inr (s1, env1)" and space: "make_space_in_cbuff env1 s1 = Inr (h, s2, env2)"
    and wait: "wait_flushed ab (head (audit_cbuff s2) + of_nat (length (event_record ab))) env2
           (commit_record flushtimef now (event_record ab) s2) = Inr (s', env')"
    and ok2: "hostbuf_ok (audit_cbuff s2)"
    by auto
  let ?t = "head (audit_cbuff s2) + of_nat (length (event_record ab))"
  note h1 = mutex_lock_head [OF lock assms(8)]
  note h2 = make_space_head [OF space h1 [THEN conjunct2]]
  have "head (audit_cbuff s') = ?t"
    using ok2 h1 h2
    by (intro wait_flushed_inv [where P = "\<lambda>cb. head cb = ?t", OF wait]) (auto simp: push_bytes_head keeps_head_def)
  moreover have "?t \<le> tail (audit_cbuff s')" using wait_flushed_exit [OF wait assms(4,5)] .
  ultimately show ?thesis using h1 h2 by (simp add: length_event_record)
qed

theorem prio_returns_flushed_witness:
  "\<exists>ab' s' env'. audit_log_end_hardlog False 0 (Some (text_buffer 40 512 (Some (syscall_context 59))))
      [\<lambda>s. s\<lparr>audit_cbuff := (audit_cbuff s)\<lparr>tail := head (audit_cbuff s)\<rparr>\<rparr>] (logger_at 7 7) = Inr (ab', s', env')
    \<and> head (audit_cbuff s') = 7 + of_nat (40 + 1) \<and> head (audit_cbuff s') \<le> tail (audit_cbuff s')"
proof -
  let ?ab = "text_buffer 40 512 (Some (syscall_context 59))"
  let ?env = "[\<lambda>s :: logger. s\<lparr>audit_cbuff := (audit_cbuff s)\<lparr>tail := head (audit_cbuff s)\<rparr>\<rparr>]"
  have ab: "event_ok ?ab" "NUL \<notin> set (event_text ?ab)" "length (event_text ?ab) = 40"
      "ctx ?ab = Some (syscall_context 59)" "is_prio_syscall (major (syscall_context 59))"
    by (simp_all add: text_buffer_facts text_buffer_no_nul prio_priority)
  have env: "keeps_hostbuf ?env" by (simp add: keeps_hostbuf_def hostbuf_ok_def)
  have "used (audit_cbuff (logger_at 7 7)) < CBUFF" by (simp add: logger_at_facts CBUFF_eq)
  moreover have "35 \<le> length (event_text ?ab)" by (simp add: ab(3))
  ultimately obtain ab' s' env' where run:
    "audit_log_end_hardlog False 0 (Some ?ab) ?env (logger_at 7 7) = Inr (ab', s', env')"
    using end_event_no_wait [OF ab(1,2), where s = "logger_at 7 7" and env = ?env and flushtimef = False and now = 0]
      ab(3,4) prio_priority env
    by (auto simp: wait_flushed_def length_event_record push_bytes_head logger_at_facts)
  have h: "keeps_head ?env" by (simp add: keeps_head_def)
  have "head (audit_cbuff s') = head (audit_cbuff (logger_at 7 7)) + of_nat (length (event_text ?ab) + 1)
    \<and> head (audit_cbuff s') \<le> tail (audit_cbuff s')"
    by (rule prio_returns_flushed [OF ab(1,2) _ ab(4,5) logger_at_facts(1) env h run]) (simp_all add: ab(3))
  with run show ?thesis by (auto simp: ab(3) logger_at_facts)
qed

text \<open>
  The last bytes before the buffer is full are overwritten. The producer makes sure that the
  buffer is not full, not that the record fits. With a record longer than the room, the handler
  returns, and the oldest bytes that were not yet flushed are replaced by the end of the record.
\<close>

theorem append_overruns_unflushed:
  assumes "event_ok ab" and "NUL \<notin> set (event_text ab)" and "35 \<le> length (event_text ab)"
    and "hostbuf_ok (audit_cbuff s)" and "\<not> hardlog_audit_producer s"
    and "used (audit_cbuff s) < CBUFF" and "CBUFF < used (audit_cbuff s) + length (event_text ab) + 1"
    and "unat (head (audit_cbuff s)) mod CBUFF + length (event_text ab) + 1 \<le> CBUFF"
    and "\<forall>c. ctx ab = Some c \<longrightarrow> \<not> is_prio_syscall (major c)"
  shows "\<exists>ab' s'. audit_log_end_hardlog flushtimef now (Some ab) [] s = Inr (Some ab', s', [])
    \<and> take (used (audit_cbuff s) + length (event_record ab) - CBUFF) (pending (audit_cbuff s'))
       = drop (CBUFF - used (audit_cbuff s)) (event_record ab)"
proof -
  obtain ab' where run: "audit_log_end_hardlog flushtimef now (Some ab) [] s =
      Inr (Some ab', commit_record flushtimef now (event_record ab) s, [])"
    using end_event_now [OF assms(1-6,9)] by blast
  have "take (used (audit_cbuff s) + length (event_record ab) - CBUFF)
      (pending (push_bytes (audit_cbuff s) (event_record ab))) = drop (CBUFF - used (audit_cbuff s)) (event_record ab)"
    using assms length_event_record_le [OF event_ok_room [OF assms(1)]]
    by (intro push_bytes_overruns) (auto simp: length_event_record CBUFF_eq)
  with run show ?thesis by simp
qed

theorem append_overruns_unflushed_witness:
  "\<exists>ab' s'. audit_log_end_hardlog False 0 (Some (text_buffer 40 512 None)) [] (logger_at 100 (- 1048475)) = Inr (Some ab', s', [])
    \<and> take 40 (pending (audit_cbuff s')) = replicate 39 CHR ''x'' @ [NEWLINE]"
proof -
  have u: "unat (100 - (- 1048475) :: u64) = 1048575" by simp
  have "event_record (text_buffer 40 512 None) = replicate 40 CHR ''x'' @ [NEWLINE]"
    by (simp add: event_record_short text_buffer_facts(1,2,3))
  with append_overruns_unflushed [of "text_buffer 40 512 None" "logger_at 100 (- 1048475)" False 0]
  show ?thesis
    by (simp add: text_buffer_facts text_buffer_no_nul logger_at_facts u CBUFF_eq)
qed

text \<open>
  A record that crosses the capacity is not contiguous in the queue. The rest of the record is
  copied behind the capacity, while the queue continues with the bytes at the start of the buffer.
\<close>

theorem record_straddling_capacity:
  assumes "event_ok ab" and "NUL \<notin> set (event_text ab)" and "35 \<le> length (event_text ab)"
    and "hostbuf_ok (audit_cbuff s)" and "\<not> hardlog_audit_producer s"
    and "used (audit_cbuff s) + length (event_text ab) + 1 \<le> CBUFF"
    and "CBUFF < unat (head (audit_cbuff s)) mod CBUFF + length (event_text ab) + 1"
    and "\<forall>c. ctx ab = Some c \<longrightarrow> \<not> is_prio_syscall (major c)"
  shows "\<exists>ab' s' r. audit_log_end_hardlog flushtimef now (Some ab) [] s = Inr (Some ab', s', [])
    \<and> r = CBUFF - unat (head (audit_cbuff s)) mod CBUFF \<and> 0 < r \<and> r < length (event_record ab)
    \<and> pending (audit_cbuff s') = pending (audit_cbuff s) @ take r (event_record ab)
         @ read_mem (ring_mem (audit_cbuff s)) 0 (length (event_record ab) - r)"
proof -
  let ?r = "CBUFF - unat (head (audit_cbuff s)) mod CBUFF"
  obtain ab' where run: "audit_log_end_hardlog flushtimef now (Some ab) [] s =
      Inr (Some ab', commit_record flushtimef now (event_record ab) s, [])"
    using end_event_now [OF assms(1-5) _ assms(8)] assms(3,6) by fastforce
  have "pending (push_bytes (audit_cbuff s) (event_record ab)) = pending (audit_cbuff s) @ take ?r (event_record ab)
         @ read_mem (ring_mem (audit_cbuff s)) 0 (length (event_record ab) - ?r)"
    using assms(4,6,7) by (intro push_bytes_straddles) (simp_all add: length_event_record)
  moreover have "0 < ?r" using CBUFF_eq by simp
  moreover have "?r < length (event_record ab)" using assms(7) by (simp add: length_event_record)
  ultimately show ?thesis using run by auto
qed

theorem record_straddling_capacity_witness:
  "\<exists>ab' s'. audit_log_end_hardlog False 0 (Some (text_buffer 40 512 None)) [] (logger_at 1048566 1048566) = Inr (Some ab', s', [])
    \<and> pending (audit_cbuff s') = replicate 10 CHR ''x'' @ replicate 31 NUL"
proof -
  have p: "pending (audit_cbuff (logger_at 1048566 1048566)) = []" by (simp add: pending_def logger_at_facts)
  have m: "read_mem (ring_mem (audit_cbuff (logger_at 1048566 1048566))) 0 n = replicate n NUL" for n
    by (simp add: ring_mem_def logger_at_def read_mem_def map_replicate_const)
  have "event_record (text_buffer 40 512 None) = replicate 40 CHR ''x'' @ [NEWLINE]"
    by (simp add: event_record_short text_buffer_facts(1,2,3))
  with record_straddling_capacity [of "text_buffer 40 512 None" "logger_at 1048566 1048566" False 0]
  show ?thesis
    by (auto simp: text_buffer_facts text_buffer_no_nul logger_at_facts CBUFF_eq p m)
qed

text \<open>
  A priority system call returns once its record is flushed. With the mutex free and the buffer
  not full, the handler returns on every interleaving in which, after some number of sleeps, the
  tail has reached the end of the record just appended.
\<close>

theorem prio_returns_when_flushed:
  assumes "event_ok ab" and "NUL \<notin> set (event_text ab)" and "35 \<le> length (event_text ab)"
    and "hostbuf_ok (audit_cbuff s)" and "keeps_hostbuf env"
    and "\<not> hardlog_audit_producer s" and "used (audit_cbuff s) < CBUFF"
    and "k \<le> length env"
    and "head (audit_cbuff s) + of_nat (length (event_record ab))
      \<le> tail (audit_cbuff (fold (\<lambda>f. f) (take k env) (commit_record flushtimef now (event_record ab) s)))"
  shows "\<exists>ab' s' env'. audit_log_end_hardlog flushtimef now (Some ab) env s = Inr (Some ab', s', env')"
  using end_event_no_wait [OF assms(1-4,6,7), of flushtimef now env] wait_flushed_returns [OF assms(8,9), of ab] by fastforce

theorem prio_returns_when_flushed_witness:
  "\<exists>ab' s' env'. audit_log_end_hardlog False 0 (Some (text_buffer 40 512 (Some (syscall_context 59))))
      [id, \<lambda>s. s\<lparr>audit_cbuff := (audit_cbuff s)\<lparr>tail := head (audit_cbuff s)\<rparr>\<rparr>] (logger_at 7 7) = Inr (Some ab', s', env')"
proof -
  let ?ab = "text_buffer 40 512 (Some (syscall_context 59))"
  let ?flush = "\<lambda>s :: logger. s\<lparr>audit_cbuff := (audit_cbuff s)\<lparr>tail := head (audit_cbuff s)\<rparr>\<rparr>"
  have env: "keeps_hostbuf [id, ?flush]" by (simp add: keeps_hostbuf_def hostbuf_ok_def)
  have fold: "fold (\<lambda>f. f) (take 2 [id, ?flush]) s = ?flush s" for s
    by simp
  show ?thesis
    by (rule prio_returns_when_flushed [where k = 2, OF _ _ _ logger_at_facts(1) env])
      (simp_all only: fold, simp_all add: text_buffer_facts text_buffer_no_nul logger_at_facts CBUFF_eq push_bytes_head)
qed

text \<open>
  The setup of the logger. If the kernel has its symbols and \<open>vmalloc\<close> gives a live allocation
  of the size asked for, the setup succeeds: the buffer is allocated and empty, and the two flags
  that redirect the kernel's audit messages are set (the second as configured).
\<close>

theorem logger_setup_ready:
  assumes "has_setup_pointers e" and "setup_pointers_result e"
    and "has_hardlog_active e" and "has_microlog_active e"
    and "vmalloc (CBUFF + 4096) = Some b" and "live b" and "bsize b = CBUFF + 4096"
  shows "\<exists>s'. hardlog_logger_setup e vmalloc microlog s = Inr (True, s')
    \<and> hostbuf_ok (audit_cbuff s') \<and> pending (audit_cbuff s') = [] \<and> used (audit_cbuff s') = 0
    \<and> hardlog_active s' \<and> hardlog_microlog_active s' = microlog"
  using assms by (simp add: hardlog_logger_setup_def Let_def hostbuf_ok_def pending_def used_def)

theorem logger_setup_ready_witness:
  "\<exists>s'. hardlog_logger_setup \<lparr>has_setup_pointers = True, setup_pointers_result = True,
      has_hardlog_active = True, has_microlog_active = True\<rparr> fresh_block False (logger_at 9 3) = Inr (True, s')
    \<and> pending (audit_cbuff s') = []"
  using logger_setup_ready [of "\<lparr>has_setup_pointers = True, setup_pointers_result = True,
      has_hardlog_active = True, has_microlog_active = True\<rparr>" fresh_block _ False "logger_at 9 3"]
  by (auto simp: fresh_block_def)

text \<open>
  A kernel without \<open>hardlog_microlog_active\<close> crashes the setup. The guard of the second flag
  tests the pointer of the first, so the missing symbol's NULL pointer is written through. That happens
  exactly when the first symbol does exist.
\<close>

theorem logger_setup_missing_symbol:
  assumes "has_setup_pointers e" and "setup_pointers_result e"
    and "vmalloc (CBUFF + 4096) = Some b" and "\<not> has_microlog_active e"
  shows "hardlog_logger_setup e vmalloc microlog s = Inl NullDeref \<longleftrightarrow> has_hardlog_active e"
  using assms by (simp_all add: hardlog_logger_setup_def Let_def)

theorem logger_setup_missing_symbol_witness:
  "hardlog_logger_setup \<lparr>has_setup_pointers = True, setup_pointers_result = True,
      has_hardlog_active = True, has_microlog_active = False\<rparr> fresh_block False (logger_at 9 3) = Inl NullDeref"
  using logger_setup_missing_symbol [of "\<lparr>has_setup_pointers = True, setup_pointers_result = True,
      has_hardlog_active = True, has_microlog_active = False\<rparr>" fresh_block _ False "logger_at 9 3"]
  by (auto simp: fresh_block_def)

text \<open>
  A handler that is still running at the teardown uses freed memory. After the teardown of a
  set-up logger, ending an event of 35 characters or more stops with a use of the freed buffer.
\<close>

theorem append_after_teardown:
  assumes "event_ok ab" and "NUL \<notin> set (event_text ab)" and "35 \<le> length (event_text ab)"
    and "hostbuf_ok (audit_cbuff s)" and "used (audit_cbuff s) < CBUFF"
  shows "\<exists>s'. hardlog_logger_teardown s = Inr s' \<and> \<not> hardlog_audit_producer s'
    \<and> audit_log_end_hardlog flushtimef now (Some ab) env s' = Inl UseAfterFree"
proof -
  from assms(4) obtain cb where cb: "buffer (audit_cbuff s) = Some cb" "live cb" "bsize cb = CBUFF + PAGE_SIZE"
    by (rule hostbuf_okE)
  have "\<exists>s'. hardlog_logger_teardown s = Inr s' \<and> \<not> hardlog_audit_producer s'
      \<and> audit_cbuff s' = (audit_cbuff s)\<lparr>buffer := Some (cb\<lparr>live := False\<rparr>)\<rparr>"
    using cb by (cases "hardlog_active_ptr s"; cases "hardlog_microlog_active_ptr s";
        simp add: hardlog_logger_teardown_def Let_def free_block_def)
  then obtain s' where s': "hardlog_logger_teardown s = Inr s'" "\<not> hardlog_audit_producer s'"
      "audit_cbuff s' = (audit_cbuff s)\<lparr>buffer := Some (cb\<lparr>live := False\<rparr>)\<rparr>"
    by blast
  from assms(1) obtain b c where b: "hardlog_event_buffer ab = Some b" "bsize b = 512"
      "hardlog_event_consumed ab = int c" "c \<le> 511"
    by (metis event_ok_room event_roomE)
  obtain b1 where b1: "vsnprintf b (int c) (511 - of_nat c) [NEWLINE] = Inr (b1, 1)"
    "live b1" "bsize b1 = 512"
    using assms(1) b(1,3) by (rule endline)
  have c: "length (event_text ab) = c"
    using length_event_text [OF event_ok_room [OF assms(1)]] b by simp
  have len: "c_strlen b = Inr c" using c_strlen_event [OF assms(1) b(1) assms(2)] b by simp
  have sz: "c_int_add_size (int c) 1 = int (c + 1)"
    using c_int_add_size_small [of "int c" 1] b by simp
  have un: "unat (of_nat (c + 1) :: u64) = c + 1"
    using b(4) by (simp add: unat_of_nat take_bit_eq_mod del: of_nat_Suc of_nat_add)
  have "used (audit_cbuff s') < CBUFF" using s' assms(5) by (simp add: used_def)
  note nw = no_wait [OF s'(2) this]
  have st: "store (cb\<lparr>live := False\<rparr>) off xs = Inl UseAfterFree" for off xs by (simp add: store_def)
  have ld: "load b1 0 (c + 1) = Inr (read_mem (cells b1) 0 (c + 1))"
    using b1 b(4) by (simp add: load_def)
  have "cbuff_append flushtimef now b1 (int (c + 1)) h (s'\<lparr>hardlog_audit_producer := True\<rparr>) = Inl UseAfterFree" for h
    unfolding cbuff_append_def of_int_of_nat_eq un ld by (simp add: s' st)
  then have "audit_log_end_hardlog flushtimef now (Some ab) env s' = Inl UseAfterFree"
    using assms(3) c b1
    by (simp add: audit_log_end_hardlog_def b len sz nw Let_def del: of_nat_Suc of_nat_add)
  with s' show ?thesis by blast
qed

theorem append_after_teardown_witness:
  "\<exists>s'. hardlog_logger_teardown (logger_at 7 7) = Inr s'
    \<and> audit_log_end_hardlog False 0 (Some (text_buffer 40 512 None)) [] s' = Inl UseAfterFree"
  using append_after_teardown [of "text_buffer 40 512 None" "logger_at 7 7" False 0 "[]"]
  by (auto simp: text_buffer_facts text_buffer_no_nul logger_at_facts CBUFF_eq)

text \<open>
  C22: data of any length cannot corrupt an event. For any sequence of string and hexadecimal fields
  of any content (below 2 ^ 62 bytes each), the event stays a well-formed, terminated text inside
  its 512 bytes; each field is appended whole if it fits what is left and dropped whole if not.
\<close>

theorem fields_keep_event_ok:
  assumes "event_ok ab" and "list_all user_field es"
  shows "\<exists>ab'. run_event pack es (Some ab) = Inr (Some ab') \<and> event_ok ab'
    \<and> event_text ab' = event_text ab @ accepted pack (length (event_text ab)) es"
  using assms by (rule user_fields_run)

theorem fields_keep_event_ok_witness:
  "\<exists>ab'. run_event (\<lambda>c. (c, c)) [NString (replicate 600 CHR ''a''), NHex ''b''] (Some (text_buffer 2 512 None)) = Inr (Some ab')
    \<and> event_ok ab' \<and> event_text ab' = ''xxbb''"
proof -
  have "event_text (text_buffer 2 512 None) = ''xx''" by (simp add: text_buffer_facts eval_nat_numeral)
  moreover have "event_ok (text_buffer 2 512 None)" by (simp add: text_buffer_facts)
  ultimately show ?thesis
    using fields_keep_event_ok [of "text_buffer 2 512 None" "[NString (replicate 600 CHR ''a''), NHex ''b'']" "\<lambda>c. (c, c)"]
    by (simp del: run_event.simps)
qed

end
