(* ===== verification/HL_Bio.thy ===== *)
theory HL_Bio
  imports HL_Measure
begin

text \<open>
  \<open>hl-bio-fs.c\<close>: the bytes \<open>start .. end\<close> of the circular buffer are sent to the audit device, by
  block IO in pages of 4096 bytes and requests of at most 256 pages (\<open>bio_open\<close>, \<open>bio_write\<close>,
  \<open>bio_close\<close>), or through the file system (\<open>fs_open\<close>, \<open>fs_write\<close>, \<open>fs_close\<close>).

  Parameters: what the kernel's allocators and openers return; the block layer \<open>submit\<close>, which is
  given the request, its bytes and the device (of an arbitrary type) and answers with the device
  and a status; the VFS's \<open>kernel_write\<close>; the measured time of a write. The flags \<open>device\<close> and
  \<open>debug\<close> only concern messages and are left out.
\<close>

section \<open>State\<close>

text \<open>
  A page that a request refers to: page \<open>n\<close> of the circular buffer, the bounce buffer, or the
  welcome message. \<open>vmalloc\<close> memory is page-aligned, so \<open>vmalloc_to_page\<close> of the address of the
  byte \<open>i\<close> of the circular buffer is its page \<open>i div 4096\<close>.
\<close>

datatype page_ref = CbuffPage nat | TmpbufPage | WelcomePage

record bio_vec =
  bv_page :: page_ref
  bv_len :: nat
  bv_offset :: nat

record bio =
  bi_bdev :: bool
  bi_sector :: u64
  bi_write :: bool
  bi_io_vec :: "bio_vec list"

definition bio_empty :: bio where
  "bio_empty = \<lparr>bi_bdev = False, bi_sector = 0, bi_write = False, bi_io_vec = []\<rparr>"

record block_device =
  bd_disk :: "string option"

record struct_file =
  f_pos :: u64

record 'dev usb =
  bdevice :: "block_device kptr"
  bdevice_sector :: u64
  usb_bio :: "bio kptr"
  tmpbuf :: "block option"
  device_file :: "struct_file kptr"
  hardlog_welcome :: "block option"
  dev :: 'dev

definition SECTORS_PER_PAGE :: u64 where
  "SECTORS_PER_PAGE = 4096 div 512"

section \<open>Requests\<close>

text \<open>\<open>bio_add_page\<close>: a request allocated for 256 pages takes no more.\<close>

definition bio_add_page :: "page_ref \<Rightarrow> nat \<Rightarrow> nat \<Rightarrow> bio \<Rightarrow> bio" where
  "bio_add_page p len off b =
     (if length (bi_io_vec b) < 256
      then b\<lparr>bi_io_vec := bi_io_vec b @ [\<lparr>bv_page = p, bv_len = len, bv_offset = off\<rparr>]\<rparr> else b)"

definition bio_reset :: "bio \<Rightarrow> bio" where
  "bio_reset b = bio_empty"

text \<open>\<open>bio_set_dev\<close>, the sector and \<open>REQ_OP_WRITE\<close>, which the code always sets together.\<close>

definition bio_aim :: "u64 \<Rightarrow> bio \<Rightarrow> bio" where
  "bio_aim sector b = b\<lparr>bi_bdev := True, bi_sector := sector, bi_write := True\<rparr>"

text \<open>The bytes of a page at the time the request is submitted.\<close>

definition load_at :: "block option \<Rightarrow> nat \<Rightarrow> nat \<Rightarrow> char list res" where
  "load_at p off n = (case p of None \<Rightarrow> Inl NullDeref | Some b \<Rightarrow> load b (int off) n)"

fun page_bytes :: "audit_circ_buffer \<Rightarrow> 'dev usb \<Rightarrow> bio_vec \<Rightarrow> char list res" where
  "page_bytes cb u v = (case bv_page v of
       CbuffPage n \<Rightarrow> load_at (buffer cb) (4096 * n + bv_offset v) (bv_len v)
     | TmpbufPage \<Rightarrow> load_at (tmpbuf u) (bv_offset v) (bv_len v)
     | WelcomePage \<Rightarrow> load_at (hardlog_welcome u) (bv_offset v) (bv_len v))"

fun gather :: "audit_circ_buffer \<Rightarrow> 'dev usb \<Rightarrow> bio_vec list \<Rightarrow> char list res" where
  "gather cb u [] = Inr []"
| "gather cb u (v # vs) =
     rbind (page_bytes cb u v) (\<lambda>xs. rbind (gather cb u vs) (\<lambda>ys. Inr (xs @ ys)))"

text \<open>
  The block layer: whether it is a write, the first sector, the bytes. A request without a device
  makes the kernel follow a NULL pointer.
\<close>

type_synonym 'dev submit = "bool \<Rightarrow> u64 \<Rightarrow> char list \<Rightarrow> 'dev \<Rightarrow> 'dev \<times> int"

definition submit_bio_wait ::
    "'dev submit \<Rightarrow> audit_circ_buffer \<Rightarrow> 'dev usb \<Rightarrow> (int \<times> 'dev usb) res" where
  "submit_bio_wait submit cb u =
     rbind (deref (usb_bio u)) (\<lambda>b. rbind (gather cb u (bi_io_vec b)) (\<lambda>bs.
       if \<not> bi_bdev b then Inl NullDeref
       else case submit (bi_write b) (bi_sector b) bs (dev u) of (d, r) \<Rightarrow> Inr (r, u\<lparr>dev := d\<rparr>)))"

definition on_bio :: "(bio \<Rightarrow> bio) \<Rightarrow> 'dev usb \<Rightarrow> 'dev usb res" where
  "on_bio f u = rbind (deref (usb_bio u)) (\<lambda>b. Inr (u\<lparr>usb_bio := Ptr (f b)\<rparr>))"

section \<open>Block IO\<close>

text \<open>What the kernel answers to \<open>bio_open\<close> and \<open>fs_open\<close>.\<close>

record open_env =
  env_blkdev :: "block_device kptr"
  env_bio :: "bio kptr"
  env_welcome_page :: bool
  env_vmalloc :: "nat \<Rightarrow> block option"
  env_file :: "struct_file kptr"

definition bio_open :: "open_env \<Rightarrow> 'dev submit \<Rightarrow> audit_circ_buffer \<Rightarrow> 'dev usb \<Rightarrow> (bool \<times> 'dev usb) res" where
  "bio_open e submit cb u0 =
     (let u = u0\<lparr>bdevice := env_blkdev e\<rparr> in
      if is_err (bdevice u) \<or> is_null (bdevice u) then Inr (False, u)
      else rbind (deref (bdevice u)) (\<lambda>bd. case bd_disk bd of
        None \<Rightarrow> Inr (False, u)
      | Some name \<Rightarrow>
          if name \<noteq> ''sdb'' then Inr (False, u)
          else let u1 = u\<lparr>usb_bio := env_bio e\<rparr> in
          if is_err (usb_bio u1) \<or> is_null (usb_bio u1) then Inr (False, u1)
          else if \<not> env_welcome_page e then Inr (False, u1)
          else rbind (on_bio (bio_add_page WelcomePage 512 0 \<circ> bio_aim (bdevice_sector u1)) u1) (\<lambda>u2.
            rbind (submit_bio_wait submit cb (u2\<lparr>bdevice_sector := bdevice_sector u2 + 1\<rparr>)) (\<lambda>(len, u3).
            if len < 0 then Inr (False, u3)
            else rbind (on_bio bio_reset u3) (\<lambda>u4.
              let u5 = u4\<lparr>tmpbuf := env_vmalloc e 4096\<rparr> in
              Inr (tmpbuf u5 \<noteq> None, u5))))))"

text \<open>\<open>blkdev_put\<close> gives the device back; the pointer keeps its value.\<close>

definition bio_close :: "('dev \<Rightarrow> 'dev) \<Rightarrow> 'dev usb \<Rightarrow> 'dev usb" where
  "bio_close put u = (if \<not> is_null (bdevice u) then u\<lparr>dev := put (dev u)\<rparr> else u)"

text \<open>One turn of the loop of \<open>bio_write\<close> up to \<open>added_pages++\<close>.\<close>

definition add_chunk :: "audit_circ_buffer \<Rightarrow> u64 \<Rightarrow> u64 \<Rightarrow> 'dev usb \<Rightarrow> 'dev usb res" where
  "add_chunk cb cbuff_index remaining u =
     (if remaining \<ge> 4096
      then on_bio (bio_add_page (CbuffPage (unat cbuff_index div 4096)) 4096 0)
             (u\<lparr>bdevice_sector := bdevice_sector u + SECTORS_PER_PAGE\<rparr>)
      else
        rbind (load_at (buffer cb) (unat cbuff_index) (unat remaining)) (\<lambda>bs.
        (case tmpbuf u of None \<Rightarrow> Inl NullDeref
         | Some t \<Rightarrow> rbind (store t 0 bs) (\<lambda>t'.
             on_bio (bio_add_page TmpbufPage 4096 0)
               (u\<lparr>tmpbuf := Some t', bdevice_sector := bdevice_sector u + SECTORS_PER_PAGE\<rparr>)))))"

text \<open>
  A full request is submitted and the next one set up: whether the submission failed, its status,
  the pages in the request, the state.
\<close>

definition submit_if_full ::
    "'dev submit \<Rightarrow> audit_circ_buffer \<Rightarrow> u64 \<Rightarrow> int \<Rightarrow> 'dev usb \<Rightarrow> (bool \<times> int \<times> u64 \<times> 'dev usb) res" where
  "submit_if_full submit cb added_pages len u =
     (if added_pages = 256
      then rbind (submit_bio_wait submit cb u) (\<lambda>(len', u1).
           rbind (on_bio bio_reset u1) (\<lambda>u2.
           if len' < 0 then Inr (True, len', added_pages, u2)
           else rbind (on_bio (bio_aim (bdevice_sector u2)) u2) (\<lambda>u3. Inr (False, len', 0, u3))))
      else Inr (False, len, added_pages, u))"

lemma unat_minus_page: "\<not> remaining \<le> (4096 :: u64) \<Longrightarrow> unat (remaining - 4096) = unat remaining - 4096"
  by (subst unat_sub) (simp_all add: not_le order_less_imp_le)

function bio_loop ::
    "'dev submit \<Rightarrow> audit_circ_buffer \<Rightarrow> u64 \<Rightarrow> u64 \<Rightarrow> u64 \<Rightarrow> u64 \<Rightarrow> int \<Rightarrow> 'dev usb
     \<Rightarrow> (bool \<times> int \<times> u64 \<times> 'dev usb) res" where
  "bio_loop submit cb start remaining consumed added_pages len u =
     rbind (add_chunk cb ((start + consumed) mod of_nat HARDLOG_AUDIT_CBUFFSIZE) remaining u) (\<lambda>u1.
     rbind (submit_if_full submit cb (added_pages + 1) len u1) (\<lambda>(failed, len', added', u2).
     if failed then Inr (True, len', added', u2)
     else if remaining \<le> 4096 then Inr (False, len', added', u2)
     else bio_loop submit cb start (remaining - 4096) (consumed + 4096) added' len' u2))"
  by pat_completeness auto

termination
  by (relation "measure (\<lambda>(_, _, _, remaining, _). unat remaining)")
    (auto simp: unat_minus_page word_le_nat_alt)

declare bio_loop.simps [simp del]

text \<open>The rest after the loop: whether a submission failed, the last status.\<close>

fun bio_finish :: "'dev submit \<Rightarrow> audit_circ_buffer \<Rightarrow> bool \<times> int \<times> u64 \<times> 'dev usb \<Rightarrow> (bool \<times> int \<times> 'dev usb) res" where
  "bio_finish submit cb (failed, len, added_pages, u) =
     (if failed then Inr (True, len, u)
      else if added_pages > 0
      then rbind (submit_bio_wait submit cb u) (\<lambda>(len', u1).
           rbind (on_bio bio_reset u1) (\<lambda>u2. Inr (len' < 0, len', u2)))
      else Inr (False, len, u))"

definition bio_write ::
    "'dev submit \<Rightarrow> u64 \<Rightarrow> audit_circ_buffer \<Rightarrow> u64 \<Rightarrow> u64 \<Rightarrow> 'dev usb \<times> measure
     \<Rightarrow> (int \<times> 'dev usb \<times> measure) res" where
  "bio_write submit elapsed cb end start um =
     (case um of (u, m) \<Rightarrow>
      if is_err (usb_bio u) \<or> is_null (usb_bio u) then Inr (- 1, u, m)
      else let remaining = end - start in
      if remaining \<le> 0 then Inr (- 1, u, m)
      else if is_err (bdevice u) \<or> is_null (bdevice u) then Inr (- 1, u, m)
      else
        rbind (on_bio (bio_aim (bdevice_sector u)) u) (\<lambda>u1.
        rbind (bio_loop submit cb start remaining 0 0 0 u1) (\<lambda>after.
        rbind (bio_finish submit cb after) (\<lambda>(failed, len, u2).
        if failed then Inr (- 1, u2, m)
        else rbind (update_write_measurement elapsed (end - start) m) (\<lambda>m'.
             Inr (len, u2, m'))))))"

section \<open>The file system\<close>

type_synonym 'dev kwrite = "char list \<Rightarrow> u64 \<Rightarrow> 'dev \<Rightarrow> int \<times> u64 \<times> 'dev"

definition kernel_write_file :: "'dev kwrite \<Rightarrow> char list \<Rightarrow> 'dev usb \<Rightarrow> (int \<times> 'dev usb) res" where
  "kernel_write_file kwrite bs u =
     rbind (deref (device_file u)) (\<lambda>f.
       case kwrite bs (f_pos f) (dev u) of (len, pos, d) \<Rightarrow>
         Inr (len, u\<lparr>device_file := Ptr (f\<lparr>f_pos := pos\<rparr>), dev := d\<rparr>))"

definition fs_open :: "open_env \<Rightarrow> 'dev kwrite \<Rightarrow> 'dev usb \<Rightarrow> (bool \<times> 'dev usb) res" where
  "fs_open e kwrite u0 =
     (let u = u0\<lparr>device_file := env_file e\<rparr> in
      if is_err (device_file u) then Inr (False, u)
      else rbind (load_at (hardlog_welcome u) 0 512) (\<lambda>bs.
           rbind (kernel_write_file kwrite bs u) (\<lambda>(len, u1). Inr (0 < len, u1))))"

definition fs_close :: "('dev \<Rightarrow> 'dev) \<Rightarrow> 'dev usb \<Rightarrow> 'dev usb" where
  "fs_close close u =
     (if is_err (device_file u) \<or> is_null (device_file u) then u else u\<lparr>dev := close (dev u)\<rparr>)"

definition fs_write ::
    "'dev kwrite \<Rightarrow> u64 \<Rightarrow> audit_circ_buffer \<Rightarrow> u64 \<Rightarrow> u64 \<Rightarrow> 'dev usb \<times> measure
     \<Rightarrow> (int \<times> 'dev usb \<times> measure) res" where
  "fs_write kwrite elapsed cb end start um =
     (case um of (u, m) \<Rightarrow>
      let remaining = end - start in
      if remaining \<le> 0 then Inr (0, u, m)
      else if is_err (device_file u) \<or> is_null (device_file u) then Inr (- 1, u, m)
      else
        rbind (load_at (buffer cb) 0 (unat (end - start))) (\<lambda>bs.
        rbind (kernel_write_file kwrite bs u) (\<lambda>(len, u1).
        if len \<le> 0 then Inr (len, u1, m)
        else rbind (update_write_measurement elapsed (end - start) m) (\<lambda>m'. Inr (len, u1, m')))))"

section \<open>What a flush sends\<close>

text \<open>
  The bytes of one flush: whole pages, each the page that the position lies in, and a last page that
  starts with the remaining bytes and ends with what the bounce buffer held.
\<close>

function flush_bytes :: "mem \<Rightarrow> mem \<Rightarrow> nat \<Rightarrow> nat \<Rightarrow> char list" where
  "flush_bytes m tmp s n =
     (if 4096 \<le> n
      then read_mem m (4096 * (s mod CBUFF div 4096)) 4096 @
           (if n = 4096 then [] else flush_bytes m tmp (s + 4096) (n - 4096))
      else read_mem m (s mod CBUFF) n @ read_mem tmp n (4096 - n))"
  by pat_completeness auto
termination by (relation "measure (\<lambda>(_, _, _, n). n)") auto

declare flush_bytes.simps [simp del]

text \<open>The requests: at most 256 pages (2048 sectors) each, on consecutive sectors.\<close>

definition REQUEST_MAX :: nat where
  "REQUEST_MAX = 256 * 4096"

function requests :: "u64 \<Rightarrow> char list \<Rightarrow> (u64 \<times> char list) list" where
  "requests sector bs =
     (if length bs \<le> REQUEST_MAX then [(sector, bs)]
      else (sector, take REQUEST_MAX bs) # requests (sector + 2048) (drop REQUEST_MAX bs))"
  by pat_completeness auto
termination by (relation "measure (\<lambda>(_, bs). length bs)") (auto simp: REQUEST_MAX_def)

declare requests.simps [simp del]

text \<open>The requests are submitted in order until one fails.\<close>

fun send :: "'dev submit \<Rightarrow> (u64 \<times> char list) list \<Rightarrow> 'dev \<Rightarrow> 'dev \<times> int" where
  "send submit [] d = (d, 0)"
| "send submit ((sector, bs) # rs) d =
     (case submit True sector bs d of (d', r) \<Rightarrow>
        if r < 0 \<or> rs = [] then (d', r) else send submit rs d')"

section \<open>Facts\<close>

definition tmp_ok :: "'dev usb \<Rightarrow> bool" where
  "tmp_ok u \<longleftrightarrow> (case tmpbuf u of None \<Rightarrow> False | Some t \<Rightarrow> live t \<and> bsize t = 4096)"

definition tmp_mem :: "'dev usb \<Rightarrow> mem" where
  "tmp_mem u = (case tmpbuf u of None \<Rightarrow> (\<lambda>_. NUL) | Some t \<Rightarrow> cells t)"

text \<open>Between two writes the device is open, the request empty, the bounce buffer allocated.\<close>

definition usb_ready :: "'dev usb \<Rightarrow> bool" where
  "usb_ready u \<longleftrightarrow> (\<exists>bd. bdevice u = Ptr bd) \<and> (\<exists>b. usb_bio u = Ptr b \<and> bi_io_vec b = []) \<and> tmp_ok u"

definition valid_vec :: "bio_vec \<Rightarrow> bool" where
  "valid_vec v \<longleftrightarrow> bv_len v = 4096 \<and> bv_offset v = 0 \<and>
     (case bv_page v of CbuffPage n \<Rightarrow> n < 256 | TmpbufPage \<Rightarrow> True | WelcomePage \<Rightarrow> False)"

definition cbuff_vec :: "bio_vec \<Rightarrow> bool" where
  "cbuff_vec v \<longleftrightarrow> bv_page v \<noteq> TmpbufPage"

text \<open>While a write is being built: \<open>n\<close> pages, aimed at the sector \<open>n\<close> pages back.\<close>

definition loading :: "'dev usb \<Rightarrow> bio \<Rightarrow> nat \<Rightarrow> bool" where
  "loading u b n \<longleftrightarrow> (\<exists>bd. bdevice u = Ptr bd) \<and> tmp_ok u \<and> usb_bio u = Ptr b
     \<and> bi_bdev b \<and> bi_write b \<and> length (bi_io_vec b) = n \<and> list_all valid_vec (bi_io_vec b)
     \<and> bdevice_sector u = bi_sector b + of_nat (8 * n)"

definition vec_bytes :: "audit_circ_buffer \<Rightarrow> mem \<Rightarrow> bio_vec \<Rightarrow> char list" where
  "vec_bytes cb tmp v = (case bv_page v of
       CbuffPage n \<Rightarrow> read_mem (ring_mem cb) (4096 * n) 4096 | _ \<Rightarrow> read_mem tmp 0 4096)"

lemma length_vec_bytes [simp]: "length (vec_bytes cb tmp v) = 4096"
  by (simp add: vec_bytes_def split: page_ref.splits)

lemma length_vecs_bytes [simp]: "length (concat (map (vec_bytes cb tmp) vs)) = 4096 * length vs"
  by (induction vs) simp_all

lemma vecs_bytes_cbuff:
  "list_all cbuff_vec vs \<Longrightarrow> list_all valid_vec vs \<Longrightarrow>
   concat (map (vec_bytes cb tmp) vs) = concat (map (vec_bytes cb tmp') vs)"
  by (induction vs) (auto simp: vec_bytes_def cbuff_vec_def valid_vec_def split: page_ref.splits)

lemma gather_valid:
  assumes "hostbuf_ok cb" and "tmp_ok u" and "list_all valid_vec vs"
  shows "gather cb u vs = Inr (concat (map (vec_bytes cb (tmp_mem u)) vs))"
  using assms(3)
proof (induction vs)
  case (Cons v vs)
  from assms(1) obtain b where b: "buffer cb = Some b" "live b" "bsize b = CBUFF + PAGE_SIZE"
    by (rule hostbuf_okE)
  from assms(2) obtain t where t: "tmpbuf u = Some t" "live t" "bsize t = 4096"
    by (auto simp: tmp_ok_def split: option.splits)
  have "page_bytes cb u v = Inr (vec_bytes cb (tmp_mem u) v)"
    using Cons.prems b t
    by (auto simp: valid_vec_def vec_bytes_def load_at_def load_def ring_mem_def tmp_mem_def CBUFF_eq
        nat_mult_distrib split: page_ref.splits)
  with Cons show ?case by simp
qed simp

lemma submit_bio_wait_valid:
  assumes "hostbuf_ok cb" and "loading u b n"
  shows "submit_bio_wait submit cb u =
    (case submit True (bi_sector b) (concat (map (vec_bytes cb (tmp_mem u)) (bi_io_vec b))) (dev u) of
       (d, r) \<Rightarrow> Inr (r, u\<lparr>dev := d\<rparr>))"
  using assms by (simp add: submit_bio_wait_def loading_def gather_valid)

text \<open>The fields that no operation of a write touches.\<close>

definition same_handles :: "'dev usb \<Rightarrow> 'dev usb \<Rightarrow> bool" where
  "same_handles u u' \<longleftrightarrow> bdevice u' = bdevice u \<and> device_file u' = device_file u
     \<and> hardlog_welcome u' = hardlog_welcome u"

lemma same_handles_trans: "same_handles u v \<Longrightarrow> same_handles v w \<Longrightarrow> same_handles u w"
  by (simp add: same_handles_def)

text \<open>The page or bounce-buffer bytes that one turn adds.\<close>

definition chunk_bytes :: "mem \<Rightarrow> mem \<Rightarrow> nat \<Rightarrow> nat \<Rightarrow> char list" where
  "chunk_bytes m tmp idx n =
     (if 4096 \<le> n then read_mem m (4096 * (idx div 4096)) 4096
      else read_mem m idx n @ read_mem tmp n (4096 - n))"

lemma length_chunk_bytes [simp]: "length (chunk_bytes m tmp idx n) = 4096"
  by (simp add: chunk_bytes_def)

lemma flush_bytes_chunk:
  "flush_bytes m tmp s n =
     chunk_bytes m tmp (s mod CBUFF) n @ (if n \<le> 4096 then [] else flush_bytes m tmp (s + 4096) (n - 4096))"
  by (subst flush_bytes.simps) (simp add: chunk_bytes_def)

lemma add_chunk_valid:
  assumes "hostbuf_ok cb" and "loading u b n" and "n < 256" and "list_all cbuff_vec (bi_io_vec b)"
    and "unat idx < CBUFF"
  shows "\<exists>u' b'. add_chunk cb idx rem u = Inr u' \<and> loading u' b' (Suc n) \<and> bi_sector b' = bi_sector b
    \<and> concat (map (vec_bytes cb (tmp_mem u')) (bi_io_vec b')) =
        concat (map (vec_bytes cb (tmp_mem u)) (bi_io_vec b))
          @ chunk_bytes (ring_mem cb) (tmp_mem u) (unat idx) (unat rem)
    \<and> (4096 \<le> unat rem \<longrightarrow> list_all cbuff_vec (bi_io_vec b') \<and> tmp_mem u' = tmp_mem u)
    \<and> dev u' = dev u \<and> bdevice_sector u' = bdevice_sector u + 8 \<and> same_handles u u'"
proof -
  let ?bs = "concat (map (vec_bytes cb (tmp_mem u)) (bi_io_vec b))"
  note tmp = vecs_bytes_cbuff [OF assms(4), of cb]
  have valid: "list_all valid_vec (bi_io_vec b)" using assms(2) by (simp add: loading_def)
  show ?thesis
  proof (cases "4096 \<le> unat rem")
    case True
    let ?v = "\<lparr>bv_page = CbuffPage (unat idx div 4096), bv_len = 4096, bv_offset = 0\<rparr>"
    let ?b = "b\<lparr>bi_io_vec := bi_io_vec b @ [?v]\<rparr>"
    let ?u = "u\<lparr>bdevice_sector := bdevice_sector u + 8, usb_bio := Ptr ?b\<rparr>"
    have v: "valid_vec ?v" "cbuff_vec ?v" using assms(5) by (simp_all add: valid_vec_def cbuff_vec_def CBUFF_eq)
    have "add_chunk cb idx rem u = Inr ?u"
      using True assms(2,3)
      by (simp add: add_chunk_def on_bio_def bio_add_page_def loading_def SECTORS_PER_PAGE_def word_le_nat_alt)
    moreover have "loading ?u ?b (Suc n)"
      using assms(2) v by (simp add: loading_def tmp_ok_def algebra_simps)
    ultimately show ?thesis
      using True v assms(4)
      by (intro exI [of _ ?u] exI [of _ ?b])
        (simp add: vec_bytes_def chunk_bytes_def tmp_mem_def same_handles_def)
  next
    case False
    from assms(1) obtain c where c: "buffer cb = Some c" "live c" "bsize c = CBUFF + PAGE_SIZE"
      by (rule hostbuf_okE)
    from assms(2) obtain t where t: "tmpbuf u = Some t" "live t" "bsize t = 4096"
      by (auto simp: loading_def tmp_ok_def split: option.splits)
    let ?r = "unat rem" and ?i = "unat idx"
    let ?t = "t\<lparr>cells := write_mem (cells t) 0 (read_mem (cells c) ?i ?r)\<rparr>"
    let ?v = "\<lparr>bv_page = TmpbufPage, bv_len = 4096, bv_offset = 0\<rparr>"
    let ?b = "b\<lparr>bi_io_vec := bi_io_vec b @ [?v]\<rparr>"
    let ?u = "u\<lparr>tmpbuf := Some ?t, bdevice_sector := bdevice_sector u + 8, usb_bio := Ptr ?b\<rparr>"
    have "load_at (buffer cb) i r = Inr (read_mem (cells c) i r)" if "i < CBUFF" "r \<le> 4096" for i r
      using c that by (simp add: load_at_def load_Inr)
    then have "load_at (buffer cb) ?i ?r = Inr (read_mem (cells c) ?i ?r)"
      using False assms(5) by simp
    moreover have "store t 0 xs = Inr (t\<lparr>cells := write_mem (cells t) 0 xs\<rparr>)" if "length xs \<le> 4096" for xs
      using t that by (simp add: store_Inr)
    then have "store t 0 (read_mem (cells c) ?i ?r) = Inr ?t" using False by simp
    ultimately have "add_chunk cb idx rem u = Inr ?u"
      using False assms(2,3) t
      by (simp add: add_chunk_def on_bio_def bio_add_page_def loading_def SECTORS_PER_PAGE_def word_le_nat_alt)
    moreover have "valid_vec ?v" by (simp add: valid_vec_def)
    then have "loading ?u ?b (Suc n)"
      using assms(2) t by (simp add: loading_def tmp_ok_def algebra_simps)
    moreover have "read_mem (cells ?t) 0 4096 = read_mem (cells c) ?i ?r @ read_mem (cells t) ?r (4096 - ?r)"
      using False read_mem_add [of "cells ?t" 0 ?r "4096 - ?r"]
        read_write_same [of "cells t" 0 "read_mem (cells c) ?i ?r"]
      by (simp add: read_write_after)
    ultimately show ?thesis
      using False c t tmp [OF valid, of "cells ?t" "cells t"]
      by (intro exI [of _ ?u] exI [of _ ?b])
        (simp add: vec_bytes_def chunk_bytes_def tmp_mem_def same_handles_def ring_mem_def)
  qed
qed

lemma requests_small: "length bs \<le> REQUEST_MAX \<Longrightarrow> requests sector bs = [(sector, bs)]"
  by (subst requests.simps) simp

lemma requests_full:
  "length pb = REQUEST_MAX \<Longrightarrow> rest \<noteq> [] \<Longrightarrow>
   requests sector (pb @ rest) = (sector, pb) # requests (sector + 2048) rest"
  by (subst requests.simps) auto

lemma requests_not_Nil [simp]: "requests sector bs \<noteq> []"
  by (subst requests.simps) simp

text \<open>Submitting a request of \<open>n\<close> pages and resetting it.\<close>

lemma submit_reset:
  assumes "hostbuf_ok cb" and "loading u b n"
    and "submit True (bi_sector b) (concat (map (vec_bytes cb (tmp_mem u)) (bi_io_vec b))) (dev u) = (d, r)"
  shows "\<exists>u'. rbind (submit_bio_wait submit cb u) (\<lambda>(len, u1). rbind (on_bio bio_reset u1) (f len)) = f r u'
    \<and> usb_ready u' \<and> dev u' = d \<and> usb_bio u' = Ptr bio_empty \<and> tmp_mem u' = tmp_mem u
    \<and> bdevice_sector u' = bdevice_sector u \<and> same_handles u u'"
proof -
  have "submit_bio_wait submit cb u = Inr (r, u\<lparr>dev := d\<rparr>)"
    using submit_bio_wait_valid [OF assms(1,2), of submit] assms(3) by simp
  with assms(2) show ?thesis
    by (intro exI [of _ "u\<lparr>dev := d, usb_bio := Ptr bio_empty\<rparr>"])
      (simp add: on_bio_def loading_def bio_reset_def usb_ready_def bio_empty_def tmp_ok_def tmp_mem_def same_handles_def)
qed

lemma bio_finish_valid:
  assumes "hostbuf_ok cb" and "loading u b (unat added)" and "0 < unat added"
    and "submit True (bi_sector b) (concat (map (vec_bytes cb (tmp_mem u)) (bi_io_vec b))) (dev u) = (d, r)"
  shows "\<exists>u'. bio_finish submit cb (False, len, added, u) = Inr (r < 0, r, u')
    \<and> usb_ready u' \<and> dev u' = d \<and> bdevice_sector u' = bdevice_sector u \<and> same_handles u u'"
  using submit_reset [where submit = submit and f = "\<lambda>len u. Inr (len < 0, len, u)", OF assms(1,2,4)] assms(3)
  by (auto simp: word_gt_0 unat_eq_zero [symmetric] simp del: unat_eq_zero)

text \<open>After a full request: it was submitted and reset, and the next one is aimed.\<close>

lemma submit_if_full_valid:
  assumes "hostbuf_ok cb" and "loading u b 256"
    and "submit True (bi_sector b) (concat (map (vec_bytes cb (tmp_mem u)) (bi_io_vec b))) (dev u) = (d, r)"
  shows "\<exists>u'. submit_if_full submit cb 256 len u = Inr (r < 0, r, (if r < 0 then 256 else 0), u')
    \<and> usb_ready u' \<and> dev u' = d \<and> tmp_mem u' = tmp_mem u \<and> bdevice_sector u' = bdevice_sector u
    \<and> same_handles u u'
    \<and> (0 \<le> r \<longrightarrow> (\<exists>b'. loading u' b' 0 \<and> bi_io_vec b' = [] \<and> bi_sector b' = bdevice_sector u))"
proof -
  define f where "f = (\<lambda>(len' :: int) (u2 :: 'a usb). if len' < 0 then Inr (True, len', 256 :: u64, u2)
      else rbind (on_bio (bio_aim (bdevice_sector u2)) u2) (\<lambda>u3. Inr (False, len', 0, u3)))"
  from submit_reset [where submit = submit and f = f, OF assms]
  obtain u1 where u1: "submit_if_full submit cb 256 len u = f r u1" "usb_ready u1" "dev u1 = d"
      "usb_bio u1 = Ptr bio_empty" "tmp_mem u1 = tmp_mem u" "bdevice_sector u1 = bdevice_sector u" "same_handles u u1"
    by (auto simp: submit_if_full_def f_def)
  show ?thesis
  proof (cases "r < 0")
    case True
    with u1 show ?thesis by (simp add: f_def)
  next
    case False
    let ?b = "bio_aim (bdevice_sector u) bio_empty"
    have "f r u1 = Inr (False, r, 0, u1\<lparr>usb_bio := Ptr ?b\<rparr>)"
      using False u1 by (simp add: f_def on_bio_def)
    moreover have "loading (u1\<lparr>usb_bio := Ptr ?b\<rparr>) ?b 0"
      using u1 by (simp add: loading_def usb_ready_def bio_aim_def bio_empty_def tmp_ok_def)
    ultimately show ?thesis
      using False u1
      by (intro exI [of _ "u1\<lparr>usb_bio := Ptr ?b\<rparr>"])
        (auto simp: usb_ready_def tmp_ok_def tmp_mem_def same_handles_def bio_aim_def bio_empty_def)
  qed
qed

lemma next_index:
  assumes "s mod CBUFF = unat ((start + consumed) mod of_nat CBUFF :: u64)"
  shows "(s + 4096) mod CBUFF = unat ((start + (consumed + 4096)) mod of_nat CBUFF :: u64)"
proof -
  have "(s + 4096) mod CBUFF = (unat (start + consumed) mod CBUFF + 4096) mod CBUFF"
    using assms by (metis host_ring.unat_mod_cap mod_add_left_eq)
  also have "\<dots> = unat ((start + consumed + 4096) mod of_nat CBUFF :: u64)"
    using host_ring.index_add [of "start + consumed" 4096] by (simp add: mod_add_left_eq)
  finally show ?thesis by (simp add: add.assoc)
qed

lemma pages_step: "4096 < n \<Longrightarrow> (n + 4095) div 4096 = Suc ((n - 4096 + 4095) div 4096)" for n :: nat
  by (simp add: div_if)

text \<open>
  The loop and the rest after it submit exactly the requests of the flush, behind the bytes that are
  already in the request.
\<close>

lemma bio_loop_send:
  assumes "hostbuf_ok cb" and "loading u b (unat added)" and "unat added < 256"
    and "list_all cbuff_vec (bi_io_vec b)" and "0 < unat rem"
    and "s mod CBUFF = unat ((start + consumed) mod of_nat CBUFF :: u64)"
    and "send submit (requests (bi_sector b)
          (concat (map (vec_bytes cb (tmp_mem u)) (bi_io_vec b)) @ flush_bytes (ring_mem cb) (tmp_mem u) s (unat rem)))
          (dev u) = (d, r)"
  shows "\<exists>u'. rbind (bio_loop submit cb start rem consumed added len u) (bio_finish submit cb) = Inr (r < 0, r, u')
    \<and> usb_ready u' \<and> dev u' = d \<and> same_handles u u'
    \<and> (0 \<le> r \<longrightarrow> bdevice_sector u' = bdevice_sector u + of_nat (8 * ((unat rem + 4095) div 4096)))"
  using assms(2-)
proof (induction "unat rem" arbitrary: rem consumed added len u b s d r rule: less_induct)
  case less
  let ?idx = "(start + consumed) mod of_nat CBUFF :: u64"
  let ?pb = "\<lambda>u b. concat (map (vec_bytes cb (tmp_mem u)) (bi_io_vec b))"
  let ?chunk = "chunk_bytes (ring_mem cb) (tmp_mem u) (s mod CBUFF) (unat rem)"
  let ?rest = "flush_bytes (ring_mem cb) (tmp_mem u) (s + 4096) (unat rem - 4096)"
  have "unat ?idx < CBUFF" by (rule host_ring.index_lt)
  from add_chunk_valid [OF assms(1) less.prems(1,2,3) this, of rem] less.prems(5)
  obtain u1 b1 where u1: "add_chunk cb ?idx rem u = Inr u1" "loading u1 b1 (Suc (unat added))"
      "bi_sector b1 = bi_sector b" "?pb u1 b1 = ?pb u b @ ?chunk"
      "4096 \<le> unat rem \<Longrightarrow> list_all cbuff_vec (bi_io_vec b1)" "4096 \<le> unat rem \<Longrightarrow> tmp_mem u1 = tmp_mem u"
      "dev u1 = dev u" "bdevice_sector u1 = bdevice_sector u + 8" "same_handles u u1"
    by auto
  have len1: "length (?pb u1 b1) = 4096 * Suc (unat added)"
    using u1(2) by (simp add: loading_def)
  have add1: "unat (added + 1) = Suc (unat added)"
    using less.prems(2) by (intro unat_inc) simp
  have all: "?pb u b @ flush_bytes (ring_mem cb) (tmp_mem u) s (unat rem) =
      ?pb u1 b1 @ (if unat rem \<le> 4096 then [] else ?rest)"
    unfolding u1(4) by (subst flush_bytes_chunk) simp
  note step = bio_loop.simps [of submit cb start rem consumed added len u, unfolded u1(1) rbind_simps]
  have rest: "?rest \<noteq> []" if "\<not> unat rem \<le> 4096"
    using that by (subst flush_bytes_chunk) (metis length_chunk_bytes append_is_Nil_conv list.size(3) zero_neq_numeral)
  have rem: "rem \<le> 4096 \<longleftrightarrow> unat rem \<le> 4096" by (simp add: word_le_nat_alt)
  have sec: "bdevice_sector u1 = bi_sector b1 + of_nat (8 * Suc (unat added))"
    using u1(2) by (simp add: loading_def)
  obtain d1 r1 where sub: "submit True (bi_sector b1) (?pb u1 b1) (dev u1) = (d1, r1)" by fastforce
  note send = less.prems(6) [unfolded all]
  show ?case
  proof (cases "Suc (unat added) = 256")
    case full: True
    have "unat (added + 1) = unat (256 :: u64)" using add1 full by simp
    then have a256: "added + 1 = 256" by (rule unsigned_word_eqI)
    have l1: "loading u1 b1 256" using u1(2) full by simp
    from submit_if_full_valid [where submit = submit and len = len, OF assms(1) l1 sub]
    obtain u2 where u2: "submit_if_full submit cb 256 len u1 = Inr (r1 < 0, r1, (if r1 < 0 then 256 else 0), u2)"
        "usb_ready u2" "dev u2 = d1" "tmp_mem u2 = tmp_mem u1" "bdevice_sector u2 = bdevice_sector u1"
        "same_handles u1 u2"
        "0 \<le> r1 \<Longrightarrow> \<exists>b'. loading u2 b' 0 \<and> bi_io_vec b' = [] \<and> bi_sector b' = bdevice_sector u1"
      by blast
    have pb: "length (?pb u1 b1) = REQUEST_MAX" using len1 full by (simp add: REQUEST_MAX_def)
    note handles = same_handles_trans [OF u1(9) u2(6)]
    show ?thesis
    proof (cases "unat rem \<le> 4096")
      case True
      then have "(d, r) = (d1, r1)"
        using send sub pb u1(3,7) by (simp add: requests_small split: if_splits)
      moreover have "(unat rem + 4095) div 4096 = 1" using True less.prems(4) by (simp add: div_nat_eqI)
      ultimately show ?thesis
        using True u2 u1(8) handles by (intro exI [of _ u2]) (auto simp: step a256 rem)
    next
      case False
      have reqs: "requests (bi_sector b) (?pb u1 b1 @ ?rest) = (bi_sector b, ?pb u1 b1) # requests (bi_sector b + 2048) ?rest"
        using pb rest [OF False] by (rule requests_full)
      have send': "send submit ((bi_sector b, ?pb u1 b1) # requests (bi_sector b + 2048) ?rest) (dev u1) = (d, r)"
        using send u1(7) False by (simp only: if_False reqs)
      show ?thesis
      proof (cases "r1 < 0")
        case True
        then have "(d, r) = (d1, r1)" using send' sub u1(3) by simp
        with True show ?thesis using u2 handles by (simp add: step a256)
      next
        case ok: False
        with u2(7) obtain b' where b': "loading u2 b' 0" "bi_io_vec b' = []" "bi_sector b' = bdevice_sector u1" by auto
        have "bi_sector b' = bi_sector b + 2048"
          using b'(3) sec full u1(3) by simp
        moreover have "send submit (requests (bi_sector b + 2048) ?rest) d1 = (d, r)"
          using send' sub u1(3) ok by simp
        ultimately have "send submit (requests (bi_sector b') (?pb u2 b' @ flush_bytes (ring_mem cb) (tmp_mem u2) (s + 4096) (unat (rem - 4096)))) (dev u2) = (d, r)"
          using u1(6) False b'(2) u2(3,4) by (simp add: unat_minus_page rem)
        then have "\<exists>u'. rbind (bio_loop submit cb start (rem - 4096) (consumed + 4096) 0 r1 u2) (bio_finish submit cb) = Inr (r < 0, r, u')
          \<and> usb_ready u' \<and> dev u' = d \<and> same_handles u2 u'
          \<and> (0 \<le> r \<longrightarrow> bdevice_sector u' = bdevice_sector u2 + of_nat (8 * ((unat (rem - 4096) + 4095) div 4096)))"
          using False less.prems b' next_index [OF less.prems(5)]
          by (intro less.hyps [where b = b' and s = "s + 4096"]) (simp_all add: unat_minus_page rem)
        moreover have "rbind (bio_loop submit cb start rem consumed added len u) (bio_finish submit cb) =
            rbind (bio_loop submit cb start (rem - 4096) (consumed + 4096) 0 r1 u2) (bio_finish submit cb)"
          using False ok u2(1) by (simp add: step a256 rem)
        moreover have "bdevice_sector u2 + of_nat (8 * ((unat (rem - 4096) + 4095) div 4096))
            = bdevice_sector u + of_nat (8 * ((unat rem + 4095) div 4096))"
          using False u2(5) u1(8) by (simp add: pages_step [of "unat rem"] unat_minus_page rem)
        ultimately show ?thesis
          using same_handles_trans [OF handles] by metis
      qed
    qed
  next
    case False
    then have few: "unat (added + 1) < 256" "unat (added + 1) \<noteq> 256" using add1 less.prems(2) by auto
    then have "added + 1 \<noteq> 256" by auto
    then have cont: "submit_if_full submit cb (added + 1) len u1 = Inr (False, len, added + 1, u1)"
      by (simp add: submit_if_full_def)
    have l1: "loading u1 b1 (unat (added + 1))" using u1(2) add1 by simp
    show ?thesis
    proof (cases "unat rem \<le> 4096")
      case True
      have "length (?pb u1 b1) \<le> REQUEST_MAX"
        using len1 False less.prems(2) by (simp add: REQUEST_MAX_def)
      then have dr: "(d, r) = (d1, r1)"
        using True send sub u1(3,7) by (simp add: requests_small split: if_splits)
      have "0 < unat (added + 1)" using add1 by simp
      from bio_finish_valid [where submit = submit and len = len, OF assms(1) l1 this sub]
      obtain u' where "bio_finish submit cb (False, len, added + 1, u1) = Inr (r1 < 0, r1, u')"
          "usb_ready u'" "dev u' = d1" "bdevice_sector u' = bdevice_sector u1" "same_handles u1 u'"
        by blast
      moreover have "(unat rem + 4095) div 4096 = 1" using True less.prems(4) by (simp add: div_nat_eqI)
      ultimately show ?thesis
        using True dr u1(8) same_handles_trans [OF u1(9)] by (simp add: step cont rem del: bio_finish.simps)
    next
      case more: False
      have "send submit (requests (bi_sector b1) (?pb u1 b1 @ flush_bytes (ring_mem cb) (tmp_mem u1) (s + 4096) (unat (rem - 4096)))) (dev u1) = (d, r)"
        using send u1 more by (simp add: unat_minus_page rem)
      then have "\<exists>u'. rbind (bio_loop submit cb start (rem - 4096) (consumed + 4096) (added + 1) len u1) (bio_finish submit cb) = Inr (r < 0, r, u')
          \<and> usb_ready u' \<and> dev u' = d \<and> same_handles u1 u'
          \<and> (0 \<le> r \<longrightarrow> bdevice_sector u' = bdevice_sector u1 + of_nat (8 * ((unat (rem - 4096) + 4095) div 4096)))"
        using more less.prems l1 few u1(5) next_index [OF less.prems(5)]
        by (intro less.hyps [where b = b1 and s = "s + 4096"]) (simp_all add: unat_minus_page rem)
      moreover have "rbind (bio_loop submit cb start rem consumed added len u) (bio_finish submit cb) =
          rbind (bio_loop submit cb start (rem - 4096) (consumed + 4096) (added + 1) len u1) (bio_finish submit cb)"
        using more by (simp add: step cont rem)
      moreover have "bdevice_sector u1 + of_nat (8 * ((unat (rem - 4096) + 4095) div 4096))
          = bdevice_sector u + of_nat (8 * ((unat rem + 4095) div 4096))"
        using more u1(8) by (simp add: pages_step [of "unat rem"] unat_minus_page rem)
      ultimately show ?thesis
        using same_handles_trans [OF u1(9)] by metis
    qed
  qed
qed

subsection \<open>A whole write\<close>

lemma bio_write_send:
  assumes "usb_ready u" and "hostbuf_ok cb" and "end \<noteq> start"
    and "send submit (requests (bdevice_sector u)
      (flush_bytes (ring_mem cb) (tmp_mem u) (unat start) (unat (end - start)))) (dev u) = (d, r)"
  shows "\<exists>u'. bio_write submit elapsed cb end start (u, m) =
      (if r < 0 then Inr (- 1, u', m)
       else rbind (update_write_measurement elapsed (end - start) m) (\<lambda>m'. Inr (r, u', m')))
    \<and> usb_ready u' \<and> dev u' = d \<and> same_handles u u'
    \<and> (0 \<le> r \<longrightarrow> bdevice_sector u' = bdevice_sector u + of_nat (8 * ((unat (end - start) + 4095) div 4096)))"
proof -
  from assms(1) obtain bd b where u: "bdevice u = Ptr bd" "usb_bio u = Ptr b" "bi_io_vec b = []" "tmp_ok u"
    by (auto simp: usb_ready_def)
  let ?b = "bio_aim (bdevice_sector u) b" and ?rem = "end - start"
  let ?u = "u\<lparr>usb_bio := Ptr ?b\<rparr>"
  have load0: "loading ?u ?b (unat (0 :: u64))" "bi_io_vec ?b = []" "bi_sector ?b = bdevice_sector u"
    using u by (simp_all add: loading_def bio_aim_def tmp_ok_def)
  have rem: "\<not> ?rem \<le> 0" "0 < unat ?rem" using assms(3) by (simp_all add: unat_gt_0)
  have idx: "unat start mod CBUFF = unat ((start + 0) mod of_nat CBUFF :: u64)"
    by (simp add: host_ring.unat_mod_cap)
  have tm: "tmp_mem ?u = tmp_mem u" by (simp add: tmp_mem_def)
  obtain u' where u': "rbind (bio_loop submit cb start ?rem 0 0 0 ?u) (bio_finish submit cb) = Inr (r < 0, r, u')"
    "usb_ready u'" "dev u' = d" "same_handles ?u u'"
    "0 \<le> r \<Longrightarrow> bdevice_sector u' = bdevice_sector u + of_nat (8 * ((unat ?rem + 4095) div 4096))"
    using bio_loop_send [where submit = submit and len = 0 and d = d and r = r,
        OF assms(2) load0(1) _ _ rem(2) idx] load0 assms(4) tm by auto
  have "bio_write submit elapsed cb end start (u, m) =
      rbind (rbind (bio_loop submit cb start ?rem 0 0 0 ?u) (bio_finish submit cb)) (\<lambda>(failed, len, u2).
        if failed then Inr (- 1, u2, m)
        else rbind (update_write_measurement elapsed (end - start) m) (\<lambda>m'. Inr (len, u2, m')))"
    using u rem(1) by (simp add: bio_write_def on_bio_def Let_def rbind_assoc del: bio_finish.simps)
  moreover have "same_handles u u'" using u'(4) by (simp add: same_handles_def)
  ultimately show ?thesis using u' by (intro exI [of _ u']) simp
qed

subsection \<open>The bytes of a flush\<close>

lemma concat_requests: "concat (map snd (requests sector bs)) = bs"
proof (induction sector bs rule: requests.induct)
  case (1 sector bs)
  then show ?case
    by (cases "length bs \<le> REQUEST_MAX") (simp_all add: requests_small, subst requests.simps, simp)
qed

text \<open>A device that takes every request and keeps the bytes in the order of arrival.\<close>

definition append_sink :: "('dev \<Rightarrow> char list) \<Rightarrow> 'dev submit \<Rightarrow> bool" where
  "append_sink stored submit \<longleftrightarrow> (\<forall>sector bs d.
     stored (fst (submit True sector bs d)) = stored d @ bs \<and> 0 \<le> snd (submit True sector bs d))"

lemma send_append_sink:
  assumes "append_sink stored submit"
  shows "stored (fst (send submit rs d)) = stored d @ concat (map snd rs) \<and> 0 \<le> snd (send submit rs d)"
  using assms
  by (induction submit rs d rule: send.induct)
    (auto simp: append_sink_def split: prod.splits, (metis fst_conv snd_conv not_less)+)

lemma page_position: "4096 * (s mod CBUFF div 4096) = (s - s mod 4096) mod CBUFF" for s :: nat
proof -
  have "4096 * (s mod CBUFF div 4096) = s mod CBUFF - s mod CBUFF mod 4096"
    by (simp add: minus_mod_eq_mult_div)
  also have "s mod CBUFF mod 4096 = s mod 4096"
    by (rule mod_mod_cancel) (simp add: CBUFF_eq)
  finally have e: "4096 * (s mod CBUFF div 4096) = s mod CBUFF - s mod 4096" .
  have "s mod 4096 \<le> s mod CBUFF"
    by (metis \<open>s mod CBUFF mod 4096 = s mod 4096\<close> mod_less_eq_dividend)
  then have "s - s mod 4096 = s div CBUFF * CBUFF + (s mod CBUFF - s mod 4096)"
    using \<open>s mod 4096 \<le> s mod CBUFF\<close> div_mult_mod_eq [of s CBUFF] by linarith
  then have "(s - s mod 4096) mod CBUFF = (s mod CBUFF - s mod 4096) mod CBUFF" by simp
  also have "s mod CBUFF < CBUFF" by (simp add: CBUFF_eq)
  then have "(s mod CBUFF - s mod 4096) mod CBUFF = s mod CBUFF - s mod 4096" by (intro mod_less) simp
  finally show ?thesis using e by simp
qed

lemma page_bytes_ring: "read_mem m (4096 * (s mod CBUFF div 4096)) 4096 = ring_bytes CBUFF m (s - s mod 4096) 4096"
proof -
  have "s mod CBUFF < 256 * 4096" using CBUFF_eq by simp
  then have "s mod CBUFF div 4096 < 256" by (simp add: div_less_iff_less_mult)
  then have "4096 * (s mod CBUFF div 4096) + 4096 \<le> CBUFF" by (simp add: CBUFF_eq)
  then show ?thesis by (simp add: ring_bytes_linear page_position)
qed

text \<open>
  Whole pages from the start of the page that the tail lies in, then the rest from its true
  position, read past the capacity if need be, and padding.
\<close>

lemma flush_bytes_eq:
  "flush_bytes m tmp s (4096 * k + r) = (if k = 0 \<and> r = 0 then read_mem tmp 0 4096
     else ring_bytes CBUFF m (s - s mod 4096) (4096 * k) @
       (if r = 0 then [] else read_mem m ((s + 4096 * k) mod CBUFF) r @ read_mem tmp r (4096 - r)))"
  if "r < 4096"
  using that
proof (induction k arbitrary: s)
  case 0
  then show ?case by (subst flush_bytes.simps) simp
next
  case (Suc k)
  have "s + 4096 - (s + 4096) mod 4096 = s - s mod 4096 + 4096"
    using mod_less_eq_dividend [of s 4096] by simp
  then have "ring_bytes CBUFF m (s - s mod 4096) (4096 * Suc k) =
      read_mem m (4096 * (s mod CBUFF div 4096)) 4096 @ ring_bytes CBUFF m (s + 4096 - (s + 4096) mod 4096) (4096 * k)"
    by (simp only: page_bytes_ring) (simp add: ring_bytes_add)
  moreover have "flush_bytes m tmp s (4096 * Suc k + r) = read_mem m (4096 * (s mod CBUFF div 4096)) 4096 @
      (if k = 0 \<and> r = 0 then [] else flush_bytes m tmp (s + 4096) (4096 * k + r))"
    by (subst flush_bytes.simps) (auto simp: add.commute)
  ultimately show ?case
    using Suc.IH [OF that, of "s + 4096"] by (auto simp: add.assoc add.commute add.left_commute)
qed

text \<open>The padding after \<open>n\<close> bytes: what the bounce buffer held behind them.\<close>

definition padding :: "mem \<Rightarrow> nat \<Rightarrow> char list" where
  "padding tmp n = (if n mod 4096 = 0 then [] else read_mem tmp (n mod 4096) (4096 - n mod 4096))"

lemma flush_bytes_aligned:
  assumes "s mod 4096 = 0" and "0 < n"
  shows "flush_bytes m tmp s n = ring_bytes CBUFF m s n @ padding tmp n"
proof -
  define k r where "k = n div 4096" and "r = n mod 4096"
  then have n: "n = 4096 * k + r" "r < 4096" "n mod 4096 = r" by simp_all
  have al: "(s + 4096 * k) mod CBUFF mod 4096 = 0"
    using assms(1) mod_mod_cancel [of 4096 CBUFF "s + 4096 * k"] by (simp add: CBUFF_eq mod_add_eq)
  then have "4096 dvd (s + 4096 * k) mod CBUFF" "4096 dvd CBUFF" by (auto simp: CBUFF_eq)
  moreover have "(s + 4096 * k) mod CBUFF < CBUFF" by (simp add: CBUFF_eq)
  ultimately have "(s + 4096 * k) mod CBUFF + 4096 \<le> CBUFF"
    by (metis add_le_cancel_left dvd_diff_nat dvd_imp_le le_add_diff_inverse order_less_imp_le zero_less_diff)
  then have "read_mem m ((s + 4096 * k) mod CBUFF) r = ring_bytes CBUFF m (s + 4096 * k) r"
    using n(2) by (intro ring_bytes_linear [symmetric]) simp
  then show ?thesis
    using flush_bytes_eq [OF n(2), of m tmp s k] n assms by (auto simp: ring_bytes_add padding_def)
qed

lemma flush_bytes_short:
  assumes "s mod CBUFF + n \<le> CBUFF" and "0 < n" "n < 4096"
  shows "flush_bytes m tmp s n = ring_bytes CBUFF m s n @ padding tmp n"
  using flush_bytes_eq [OF assms(3), of m tmp s 0] assms by (simp add: ring_bytes_linear padding_def)

lemma length_padding: "length (padding tmp n) < 4096" "4096 dvd n + length (padding tmp n)"
proof -
  show "length (padding tmp n) < 4096" by (auto simp: padding_def)
  have "n + (4096 - n mod 4096) = 4096 * (n div 4096) + 4096"
    using mult_div_mod_eq [of 4096 n] mod_less_divisor [of 4096 n] by linarith
  then have "n mod 4096 \<noteq> 0 \<Longrightarrow> 4096 dvd n + (4096 - n mod 4096)" by simp
  then show "4096 dvd n + length (padding tmp n)" by (auto simp: padding_def dvd_eq_mod_eq_0)
qed

lemma flush_bytes_unaligned:
  assumes "0 < k"
  shows "flush_bytes m tmp s (4096 * k) =
    ring_bytes CBUFF m (s - s mod 4096) (s mod 4096) @ take (4096 * k - s mod 4096) (ring_bytes CBUFF m s (4096 * k))"
proof -
  have "s mod 4096 < 4096" by simp
  with assms have le: "s mod 4096 \<le> 4096 * k" by linarith
  have "ring_bytes CBUFF m (s - s mod 4096) (s mod 4096 + (4096 * k - s mod 4096)) =
     ring_bytes CBUFF m (s - s mod 4096) (s mod 4096) @ ring_bytes CBUFF m s (4096 * k - s mod 4096)"
    by (simp only: ring_bytes_add) (simp add: mod_less_eq_dividend)
  moreover have "ring_bytes CBUFF m s (4096 * k - s mod 4096) = take (4096 * k - s mod 4096) (ring_bytes CBUFF m s (4096 * k))"
    by (rule nth_equalityI) auto
  ultimately show ?thesis
    using flush_bytes_eq [of 0 m tmp s k] assms le by simp
qed

section \<open>What the daemon relies on\<close>

text \<open>
  The contract of a write path: in a ready state, with an allocated circular buffer and a write
  counter that can still be incremented, a write returns, is ready for the next one, and counts at
  most one write.
\<close>

locale usb_backend =
  fixes backend_write :: "u64 \<Rightarrow> audit_circ_buffer \<Rightarrow> u64 \<Rightarrow> u64 \<Rightarrow> 'dev usb \<times> measure \<Rightarrow> (int \<times> 'dev usb \<times> measure) res"
    and backend_ready :: "'dev usb \<Rightarrow> bool"
  assumes backend_total: "hostbuf_ok cb \<Longrightarrow> backend_ready u \<Longrightarrow> unat (end - start) \<le> CBUFF + PAGE_SIZE \<Longrightarrow>
      write_count m \<noteq> - 1 \<Longrightarrow>
      \<exists>r u' m'. backend_write elapsed cb end start (u, m) = Inr (r, u', m') \<and> backend_ready u'
        \<and> unat (write_count m') \<le> Suc (unat (write_count m))"
begin

lemma backend_reusable:
  assumes "hostbuf_ok cb" and "backend_ready u" and "unat (end - start) \<le> CBUFF + PAGE_SIZE"
    and "unat (write_count m) < n" and "n < 2 ^ 32"
  obtains r u' m' where "backend_write elapsed cb end start (u, m) = Inr (r, u', m')" "backend_ready u'"
    "unat (write_count m') \<le> n"
proof -
  have "write_count m \<noteq> - 1" using assms(4,5) by (simp add: minus_one_u32)
  from backend_total [OF assms(1-3) this, of elapsed] assms(4) that show thesis by fastforce
qed

end

lemma update_write_ok:
  assumes "write_count m \<noteq> - 1"
  shows "\<exists>m'. update_write_measurement cur sz m = Inr m' \<and> unat (write_count m') = Suc (unat (write_count m))"
proof -
  obtain m' where m': "update_write_measurement cur sz m = Inr m'"
    using assms update_write_measurement_stops [of cur sz m] by (cases "update_write_measurement cur sz m") auto
  have "unat (write_count m) < 2 ^ 32 - 1"
    using assms u32_bound [of "write_count m"] by (simp add: minus_one_u32)
  then have "unat (write_count m') = Suc (unat (write_count m))"
    using update_write_measurement_fields [OF m'] by (simp add: unat_word_ariths)
  with m' show ?thesis by blast
qed

lemma bio_write_total:
  assumes "hostbuf_ok cb" and "usb_ready u" and "write_count m \<noteq> - 1"
  shows "\<exists>r u' m'. bio_write submit elapsed cb end start (u, m) = Inr (r, u', m') \<and> usb_ready u'
    \<and> unat (write_count m') \<le> Suc (unat (write_count m))"
proof (cases "end = start")
  case True
  then show ?thesis using assms(2) by (auto simp: bio_write_def usb_ready_def)
next
  case False
  obtain d r where "send submit (requests (bdevice_sector u)
      (flush_bytes (ring_mem cb) (tmp_mem u) (unat start) (unat (end - start)))) (dev u) = (d, r)" by fastforce
  from bio_write_send [OF assms(2,1) False this, of elapsed m] update_write_ok [OF assms(3), of elapsed "end - start"]
  show ?thesis by (auto split: if_splits)
qed

interpretation bio_backend: usb_backend "bio_write submit" usb_ready
  for submit :: "'dev submit"
  by unfold_locales (rule bio_write_total)

definition fs_ready :: "'dev usb \<Rightarrow> bool" where
  "fs_ready u \<longleftrightarrow> (\<exists>f. device_file u = Ptr f)"

lemma fs_write_total:
  assumes "hostbuf_ok cb" and "fs_ready u" and "unat (end - start) \<le> CBUFF + PAGE_SIZE" and "write_count m \<noteq> - 1"
  shows "\<exists>r u' m'. fs_write kwrite elapsed cb end start (u, m) = Inr (r, u', m') \<and> fs_ready u'
    \<and> unat (write_count m') \<le> Suc (unat (write_count m))"
proof -
  from assms(1) obtain b where b: "buffer cb = Some b" "live b" "bsize b = CBUFF + PAGE_SIZE" by (rule hostbuf_okE)
  define n where "n = unat (end - start)"
  have ld: "load_at (buffer cb) 0 n = Inr (read_mem (cells b) 0 n)"
    using b assms(3) by (simp add: load_at_def load_Inr n_def [symmetric])
  from assms(2) obtain f where f: "device_file u = Ptr f" by (auto simp: fs_ready_def)
  obtain len pos d where kw: "kwrite (read_mem (cells b) 0 n) (f_pos f) (dev u) = (len, pos, d)"
    by (cases "kwrite (read_mem (cells b) 0 n) (f_pos f) (dev u)") auto
  show ?thesis
  proof (cases "end - start \<le> 0")
    case True
    then show ?thesis using assms(2) by (auto simp: fs_write_def)
  next
    case False
    with update_write_ok [OF assms(4), of elapsed "end - start"] show ?thesis
      by (cases "len \<le> 0")
        (auto simp: fs_write_def ld [unfolded n_def] kernel_write_file_def f kw [unfolded n_def] fs_ready_def Let_def)
  qed
qed

interpretation fs_backend: usb_backend "fs_write kwrite" fs_ready
  for kwrite :: "'dev kwrite"
  by unfold_locales (rule fs_write_total)

text \<open>A sample device, for closed instances: it keeps every byte it is sent.\<close>

definition tape_submit :: "char list submit" where
  "tape_submit w sector bs d = (d @ bs, 0)"

definition tape_kwrite :: "char list kwrite" where
  "tape_kwrite bs pos d = (int (length bs), pos + of_nat (length bs), d @ bs)"

lemma tape_append_sink: "append_sink id tape_submit"
  by (simp add: append_sink_def tape_submit_def)

definition tape_usb :: "char list usb" where
  "tape_usb = \<lparr>bdevice = Ptr \<lparr>bd_disk = Some ''sdb''\<rparr>, bdevice_sector = 1, usb_bio = Ptr bio_empty,
     tmpbuf = Some \<lparr>cells = (\<lambda>_. NUL), bsize = 4096, live = True\<rparr>, device_file = Ptr \<lparr>f_pos = 0\<rparr>,
     hardlog_welcome = None, dev = []\<rparr>"

lemma tape_ready: "usb_ready tape_usb" "fs_ready tape_usb"
  by (simp_all add: tape_usb_def usb_ready_def bio_empty_def tmp_ok_def fs_ready_def)

definition sample_cbuff :: "mem \<Rightarrow> u64 \<Rightarrow> u64 \<Rightarrow> audit_circ_buffer" where
  "sample_cbuff m h t = \<lparr>buffer = Some \<lparr>cells = m, bsize = CBUFF + PAGE_SIZE, live = True\<rparr>,
     backup_buffer = None, head = h, tail = t\<rparr>"

lemma sample_cbuff_facts [simp]:
  "hostbuf_ok (sample_cbuff m h t)" "ring_mem (sample_cbuff m h t) = m"
  "head (sample_cbuff m h t) = h" "tail (sample_cbuff m h t) = t"
  "used (sample_cbuff m h t) = unat (h - t)"
  by (simp_all add: sample_cbuff_def hostbuf_ok_def ring_mem_def used_def)

lemma submit_bio_wait_frame: "submit_bio_wait submit cb u = Inr (r, u') \<Longrightarrow> \<exists>d. u' = u\<lparr>dev := d\<rparr>"
  by (auto simp: submit_bio_wait_def case_prod_beta split: if_splits)

lemma bio_write_appends:
  assumes "usb_ready u" and "hostbuf_ok cb" and "end \<noteq> start" and "write_count m \<noteq> - 1"
    and "append_sink stored submit"
    and "unat start mod 4096 = 0 \<or> unat (end - start) < 4096 \<and> unat start mod CBUFF + unat (end - start) \<le> CBUFF"
  shows "\<exists>r u' m' pad. bio_write submit elapsed cb end start (u, m) = Inr (r, u', m') \<and> 0 \<le> r \<and> length pad < 4096 \<and> 4096 dvd unat (end - start) + length pad
    \<and> stored (dev u') = stored (dev u) @ ring_bytes CBUFF (ring_mem cb) (unat start) (unat (end - start)) @ pad"
proof -
  let ?n = "unat (end - start)" and ?s = "unat start"
  let ?rs = "requests (bdevice_sector u) (flush_bytes (ring_mem cb) (tmp_mem u) ?s ?n)"
  obtain d r where sent: "send submit ?rs (dev u) = (d, r)" by fastforce
  have "0 < ?n" using assms(3) by (simp add: unat_gt_0)
  with assms(6) have "flush_bytes (ring_mem cb) (tmp_mem u) ?s ?n =
      ring_bytes CBUFF (ring_mem cb) ?s ?n @ padding (tmp_mem u) ?n"
    using flush_bytes_aligned [of ?s ?n "ring_mem cb" "tmp_mem u"]
      flush_bytes_short [of ?s ?n "ring_mem cb" "tmp_mem u"] by argo
  moreover have "stored d = stored (dev u) @ flush_bytes (ring_mem cb) (tmp_mem u) ?s ?n \<and> 0 \<le> r"
    using send_append_sink [OF assms(5), of ?rs "dev u"] by (simp add: sent concat_requests)
  ultimately show ?thesis
    using bio_write_send [OF assms(1-3) sent, of elapsed m] update_write_ok [OF assms(4), of elapsed "end - start"]
      length_padding(1) [of "tmp_mem u" ?n] length_padding(2) [of ?n "tmp_mem u"] by fastforce
qed

section \<open>Properties\<close>

text \<open>
  C12: a block write submits exactly the requests of its flush. On a ready device, a non-empty write
  submits in order, until one fails, requests of at most 256 pages on consecutive sectors that carry
  the bytes of the flush; it returns the last status (-1 after a failure, without counting the
  write), and the device is ready for the next write.
\<close>

theorem bio_write_requests:
  assumes "usb_ready u" and "hostbuf_ok cb" and "end \<noteq> start" and "write_count m \<noteq> - 1"
    and "rs = requests (bdevice_sector u) (flush_bytes (ring_mem cb) (tmp_mem u) (unat start) (unat (end - start)))"
  shows "\<exists>r u' m'. bio_write submit elapsed cb end start (u, m) = Inr (r, u', m') \<and> usb_ready u'
    \<and> dev u' = fst (send submit rs (dev u))
    \<and> (if snd (send submit rs (dev u)) < 0 then r = - 1 \<and> m' = m
       else r = snd (send submit rs (dev u)) \<and> update_write_measurement elapsed (end - start) m = Inr m'
         \<and> bdevice_sector u' = bdevice_sector u + of_nat (8 * ((unat (end - start) + 4095) div 4096)))"
proof -
  obtain d r where sent: "send submit rs (dev u) = (d, r)" by fastforce
  from bio_write_send [OF assms(1-3) sent [unfolded assms(5)], of elapsed m]
    update_write_ok [OF assms(4), of elapsed "end - start"]
  show ?thesis by (auto simp: sent split: if_splits)
qed

theorem bio_write_requests_witness:
  "\<exists>r u' m'. bio_write tape_submit 7 (sample_cbuff (\<lambda>_. CHR ''a'') 5 0) 5 0 (tape_usb, measure0) = Inr (r, u', m')
    \<and> usb_ready u' \<and> r = 0 \<and> bdevice_sector u' = 9"
  using bio_write_requests [OF tape_ready(1), of "sample_cbuff (\<lambda>_. CHR ''a'') 5 0" 5 0 measure0 _ tape_submit 7]
  by (simp add: measure0_def requests_small flush_bytes.simps [of _ _ 0 5] REQUEST_MAX_def tape_submit_def)
    (auto simp: tape_usb_def)

text \<open>
  A flush that starts at a page boundary, and a short flush that does not cross the capacity,
  deliver the queue. If the device takes every request, such a write of \<open>n\<close> bytes appends to what
  the device stores exactly the next \<open>n\<close> bytes of the queue and less than a page of padding, and
  ends at the end of a page.
\<close>

theorem bio_write_delivers:
  assumes "usb_ready u" and "hostbuf_ok cb" and "end \<noteq> start" and "write_count m \<noteq> - 1"
    and "append_sink stored submit"
    and "unat start mod 4096 = 0 \<or> unat (end - start) < 4096 \<and> unat start mod CBUFF + unat (end - start) \<le> CBUFF"
  shows "\<exists>r u' m' pad. bio_write submit elapsed cb end start (u, m) = Inr (r, u', m') \<and> 0 \<le> r \<and> length pad < 4096 \<and> 4096 dvd unat (end - start) + length pad
    \<and> stored (dev u') = stored (dev u) @ ring_bytes CBUFF (ring_mem cb) (unat start) (unat (end - start)) @ pad"
  using assms by (rule bio_write_appends)

theorem bio_write_delivers_witness:
  "\<exists>r u' m' pad. bio_write tape_submit 7 (sample_cbuff (\<lambda>i. if i = 9 then CHR ''a'' else CHR ''b'') 11 8) 11 8 (tape_usb, measure0) = Inr (r, u', m')
    \<and> dev u' = ''bab'' @ pad"
  using bio_write_delivers [OF tape_ready(1), of "sample_cbuff (\<lambda>i. if i = 9 then CHR ''a'' else CHR ''b'') 11 8" 11 8 measure0 id tape_submit 7]
  by (auto simp: measure0_def tape_append_sink CBUFF_eq ring_bytes_def tape_usb_def upt_rec)

text \<open>
  A flush of whole pages from an unaligned tail is shifted. The pages sent are those the
  positions lie in, from their start: the device gets the \<open>start mod 4096\<close> bytes before the tail
  again and never gets as many bytes at the end of the flush.
\<close>

theorem bio_write_unaligned:
  assumes "usb_ready u" and "hostbuf_ok cb" and "write_count m \<noteq> - 1" and "append_sink stored submit"
    and "unat (end - start) = 4096 * k" and "0 < k"
  shows "\<exists>r u' m'. bio_write submit elapsed cb end start (u, m) = Inr (r, u', m') \<and> 0 \<le> r
    \<and> stored (dev u') = stored (dev u)
        @ ring_bytes CBUFF (ring_mem cb) (unat start - unat start mod 4096) (unat start mod 4096)
        @ take (unat (end - start) - unat start mod 4096)
            (ring_bytes CBUFF (ring_mem cb) (unat start) (unat (end - start)))"
proof -
  let ?n = "unat (end - start)" and ?s = "unat start"
  let ?rs = "requests (bdevice_sector u) (flush_bytes (ring_mem cb) (tmp_mem u) ?s ?n)"
  have ne: "end \<noteq> start" using assms(5,6) by auto
  obtain d r where sent: "send submit ?rs (dev u) = (d, r)" by fastforce
  have "stored d = stored (dev u) @ flush_bytes (ring_mem cb) (tmp_mem u) ?s ?n \<and> 0 \<le> r"
    using send_append_sink [OF assms(4), of ?rs "dev u"] by (simp add: sent concat_requests)
  then show ?thesis
    using bio_write_send [OF assms(1,2) ne sent, of elapsed m] update_write_ok [OF assms(3), of elapsed "end - start"]
    by (auto simp: assms(5) flush_bytes_unaligned [OF assms(6)])
qed

theorem bio_write_unaligned_witness:
  "\<exists>r u' m'. bio_write tape_submit 7 (sample_cbuff (\<lambda>i. if i = 0 then CHR ''o'' else CHR ''n'') 4097 1) 4097 1 (tape_usb, measure0)
      = Inr (r, u', m') \<and> take 2 (dev u') = ''on''"
proof -
  let ?m = "\<lambda>i :: nat. if i = 0 then CHR ''o'' else CHR ''n''"
  from ring_bytes_Suc [of CBUFF ?m 1 4095] have new: "ring_bytes CBUFF ?m 1 4096 = CHR ''n'' # ring_bytes CBUFF ?m 2 4095" by (simp add: CBUFF_eq numeral_2_eq_2)
  have old: "ring_bytes CBUFF ?m 0 1 = ''o''" by (simp add: ring_bytes_def)
  have "write_count measure0 \<noteq> - 1" "unat (4097 - 1 :: u64) = 4096 * 1"
    by (simp_all add: measure0_def)
  from bio_write_unaligned [where elapsed = 7 and cb = "sample_cbuff ?m 4097 1",
      OF tape_ready(1) sample_cbuff_facts(1) this(1) tape_append_sink this(2)]
  show ?thesis
    by (auto simp: tape_usb_def old [unfolded One_nat_def] new [unfolded One_nat_def])
qed

text \<open>
  The file-system write ignores the position of the tail: it sends the first bytes of the
  allocation, as many as the flush has, wherever the flush starts.
\<close>

theorem fs_write_ignores_tail:
  "fs_write kwrite elapsed cb (start + n) start um = fs_write kwrite elapsed cb n 0 um"
proof -
  have "start + n - start = n" "n - 0 = n" by simp_all
  then show ?thesis by (simp only: fs_write_def)
qed

text \<open>
  An opened block device is ready and is the disk named \<open>sdb\<close>. If \<open>bio_open\<close> succeeds (and
  \<open>vmalloc\<close> gives live allocations of the size asked for), the device is ready for writes, one sector
  was used for the welcome message, and the disk's name is \<open>sdb\<close> - whatever the parameter
  \<open>device\<close> names.
\<close>

theorem bio_open_ready:
  assumes "bio_open e submit cb u = Inr (True, u')"
    and "\<And>b. env_vmalloc e 4096 = Some b \<Longrightarrow> live b \<and> bsize b = 4096"
  shows "usb_ready u' \<and> bdevice_sector u' = bdevice_sector u + 1
    \<and> (\<exists>bd. env_blkdev e = Ptr bd \<and> bd_disk bd = Some ''sdb'')"
proof -
  obtain bd where bd: "env_blkdev e = Ptr bd" "bd_disk bd = Some ''sdb''"
    using assms(1) by (auto simp: bio_open_def Let_def deref_def split: option.splits if_splits kptr.splits)
  obtain b where b: "env_bio e = Ptr b"
    using assms(1) bd by (cases "env_bio e") (auto simp: bio_open_def Let_def split: if_splits)
  have "usb_ready u' \<and> bdevice_sector u' = bdevice_sector u + 1"
    using assms(1) bd b assms(2)
    by (auto simp: bio_open_def Let_def on_bio_def bio_reset_def usb_ready_def tmp_ok_def bio_empty_def
        split: if_splits dest!: submit_bio_wait_frame)
  with bd show ?thesis by blast
qed

theorem bio_open_ready_witness:
  "\<exists>u'. bio_open \<lparr>env_blkdev = Ptr \<lparr>bd_disk = Some ''sdb''\<rparr>, env_bio = Ptr bio_empty, env_welcome_page = True,
        env_vmalloc = (\<lambda>n. Some \<lparr>cells = (\<lambda>_. NUL), bsize = n, live = True\<rparr>), env_file = NullPtr\<rparr>
      tape_submit (sample_cbuff (\<lambda>_. NUL) 0 0)
      (tape_usb\<lparr>bdevice := NullPtr, bdevice_sector := 0,
         hardlog_welcome := Some \<lparr>cells = (\<lambda>_. NUL), bsize = 4096, live = True\<rparr>\<rparr>) = Inr (True, u')
    \<and> usb_ready u' \<and> bdevice_sector u' = 1"
proof -
  define e where "e = \<lparr>env_blkdev = Ptr \<lparr>bd_disk = Some ''sdb''\<rparr>, env_bio = Ptr bio_empty, env_welcome_page = True,
        env_vmalloc = (\<lambda>n. Some \<lparr>cells = (\<lambda>_. NUL), bsize = n, live = True\<rparr>), env_file = NullPtr\<rparr>"
  define u where "u = tape_usb\<lparr>bdevice := NullPtr, bdevice_sector := 0,
         hardlog_welcome := Some \<lparr>cells = (\<lambda>_. NUL), bsize = 4096, live = True\<rparr>\<rparr>"
  obtain u' where run: "bio_open e tape_submit (sample_cbuff (\<lambda>_. NUL) 0 0) u = Inr (True, u')"
    by (simp add: bio_open_def e_def u_def on_bio_def submit_bio_wait_def bio_aim_def bio_add_page_def bio_empty_def
        load_at_def load_def tape_submit_def)
  have "bdevice_sector u = 0" by (simp add: u_def)
  with bio_open_ready [OF run] run show ?thesis unfolding e_def u_def by auto
qed

end
