(* ===== verification/HL_Main.thy ===== *)
theory HL_Main
  imports HL_Logger HL_Bio
begin

text \<open>
  \<open>hl-main.c\<close>: the daemon \<open>hardlog_auditd\<close> that sends the circular buffer to the audit device, the
  choice between block IO and the file system, the partition of the last-level cache, and the
  module's init and exit.

  The state of the host is the state of the logger extended by the device, the flag that the IOCTL
  thread reads, the cache's registers and the daemon's task. One turn of the daemon's loop is given
  what the other threads do before and after the bytes are read from the buffer; the loop runs over
  a list of turns, after which \<open>kthread_should_stop\<close> is true. Scheduling priorities, core binding,
  wait queues and messages are not modelled.
\<close>

section \<open>State\<close>

text \<open>
  The cache registers: the capacity masks of the package and, per core, \<open>PQR_ASSOC\<close> with the class
  of service in its upper half (Intel SDM, volume 3, 17.19).
\<close>

record l3_cat =
  l3_masks :: "nat \<Rightarrow> u64"
  pqr_assoc :: "nat \<Rightarrow> u64"

record 'dev host = logger +
  usb_state :: "'dev usb"
  hardlog_logging :: bool
  cat :: l3_cat
  hardlog_auditd_task :: "unit kptr"
  auditd_running :: bool

record config =
  biof :: bool
  microlog :: bool

section \<open>The device\<close>

definition usb_write ::
    "bool \<Rightarrow> 'dev submit \<Rightarrow> 'dev kwrite \<Rightarrow> u64 \<Rightarrow> audit_circ_buffer \<Rightarrow> u64 \<Rightarrow> u64 \<Rightarrow> 'dev usb \<times> measure
     \<Rightarrow> (int \<times> 'dev usb \<times> measure) res" where
  "usb_write bio submit kwrite elapsed cb end start um =
     (if bio then bio_write submit elapsed cb end start um
      else fs_write kwrite elapsed cb end start um)"

definition usb_close :: "bool \<Rightarrow> ('dev \<Rightarrow> 'dev) \<Rightarrow> 'dev usb \<Rightarrow> 'dev usb" where
  "usb_close bio close u = (if bio then bio_close close u else fs_close close u)"

text \<open>
  \<open>vmalloc\<close> reports failure by NULL, which \<open>IS_ERR\<close> does not recognise: the message is then printed
  through a NULL pointer.
\<close>

definition usb_open ::
    "bool \<Rightarrow> open_env \<Rightarrow> 'dev submit \<Rightarrow> 'dev kwrite \<Rightarrow> audit_circ_buffer \<Rightarrow> 'dev usb \<Rightarrow> (bool \<times> 'dev usb) res" where
  "usb_open bio e submit kwrite cb u =
     (case env_vmalloc e 4096 of None \<Rightarrow> Inl NullDeref
      | Some b \<Rightarrow>
         rbind (vsnprintf b 0 512 (''Welcome to HARDLOG!'' @ [NEWLINE])) (\<lambda>(b1, _).
         let u1 = u\<lparr>hardlog_welcome := Some b1\<rparr> in
         rbind (if bio then bio_open e submit cb u1 else fs_open e kwrite u1) (\<lambda>(ret, u2).
         rbind (free_block b1) (\<lambda>b2. Inr (ret, u2\<lparr>hardlog_welcome := Some b2\<rparr>)))))"

section \<open>Cache isolation\<close>

definition PQR_ASSOC :: u64 where "PQR_ASSOC = 0xC8F"
definition IA32_L3_MASK_0 :: u64 where "IA32_L3_MASK_0 = 0xC90"
definition IA32_L3_MASK_1 :: u64 where "IA32_L3_MASK_1 = 0xC91"
definition IA32_L3_MASK_2 :: u64 where "IA32_L3_MASK_2 = 0xC92"
definition IA32_L3_MASK_3 :: u64 where "IA32_L3_MASK_3 = 0xC93"

text \<open>
  \<open>wrmsr\<close> on a core: the register is selected by \<open>ecx\<close>, the value is \<open>edx:eax\<close>. The masks belong to
  the package, the association to the core.
\<close>

definition wrmsr :: "nat \<Rightarrow> u32 \<Rightarrow> u32 \<Rightarrow> u32 \<Rightarrow> l3_cat \<Rightarrow> l3_cat" where
  "wrmsr core ecx eax edx c =
     (let v = (word_cat edx eax :: u64); r = unat ecx
      in if r = 0xC8F then c\<lparr>pqr_assoc := (pqr_assoc c)(core := v)\<rparr>
         else if 0xC90 \<le> r \<and> r \<le> 0xC93 then c\<lparr>l3_masks := (l3_masks c)(r - 0xC90 := v)\<rparr>
         else c)"

definition custom_wrmsr :: "nat \<Rightarrow> u64 \<Rightarrow> u64 \<Rightarrow> l3_cat \<Rightarrow> l3_cat" where
  "custom_wrmsr core msr val c =
     (let low = ucast (and val 0xFFFFFFFF); high = ucast (drop_bit 32 val)
      in wrmsr core (ucast msr) low high c)"

definition set_hardlog_l3_cos :: "nat \<Rightarrow> l3_cat \<Rightarrow> l3_cat" where
  "set_hardlog_l3_cos core c = custom_wrmsr core PQR_ASSOC 0x0 c"

definition set_else_l3_cos :: "nat \<Rightarrow> l3_cat \<Rightarrow> l3_cat" where
  "set_else_l3_cos core c = custom_wrmsr core PQR_ASSOC 0x1 c"

definition setup_l3_cat :: "nat \<Rightarrow> l3_cat \<Rightarrow> l3_cat" where
  "setup_l3_cat core c =
     custom_wrmsr core IA32_L3_MASK_3 0x8FFF
       (custom_wrmsr core IA32_L3_MASK_2 0x8FFF
         (custom_wrmsr core IA32_L3_MASK_1 0x8FFF
           (custom_wrmsr core IA32_L3_MASK_0 0x8000 c)))"

definition reset_l3_cat :: "nat \<Rightarrow> l3_cat \<Rightarrow> l3_cat" where
  "reset_l3_cat core c =
     custom_wrmsr core PQR_ASSOC 0x0
       (custom_wrmsr core IA32_L3_MASK_3 0xFFFF
         (custom_wrmsr core IA32_L3_MASK_2 0xFFFF
           (custom_wrmsr core IA32_L3_MASK_1 0xFFFF
             (custom_wrmsr core IA32_L3_MASK_0 0xFFFF c))))"

definition on_each_cpu :: "nat \<Rightarrow> (nat \<Rightarrow> l3_cat \<Rightarrow> l3_cat) \<Rightarrow> l3_cat \<Rightarrow> l3_cat" where
  "on_each_cpu cpus f c = fold f [0..<cpus] c"

section \<open>The daemon\<close>

text \<open>
  \<open>usleep_range(90 - elapsed_us, 110 - elapsed_us)\<close>, on unsigned 64-bit integers.
\<close>

definition sleep_bounds :: "u64 \<Rightarrow> (u64 \<times> u64) option" where
  "sleep_bounds elapsed_us =
     (if elapsed_us < 100 then Some (90 - elapsed_us, 110 - elapsed_us) else None)"

text \<open>The flusher's write and the new tail; the status of the write is ignored.\<close>

type_synonym 'dev writer =
  "u64 \<Rightarrow> audit_circ_buffer \<Rightarrow> u64 \<Rightarrow> u64 \<Rightarrow> 'dev usb \<times> measure \<Rightarrow> (int \<times> 'dev usb \<times> measure) res"

definition host_write :: "'dev writer \<Rightarrow> u64 \<Rightarrow> u64 \<Rightarrow> u64 \<Rightarrow> 'dev host \<Rightarrow> 'dev host res" where
  "host_write write elapsed end start s =
     rbind (write elapsed (audit_cbuff s) end start (usb_state s, meas s))
       (\<lambda>(_, u, m). Inr (s\<lparr>usb_state := u, meas := m\<rparr>))"

record 'dev turn =
  before_read :: "'dev host \<Rightarrow> 'dev host"
  after_read :: "'dev host \<Rightarrow> 'dev host"
  write_time :: u64

definition auditd_turn :: "'dev writer \<Rightarrow> 'dev turn \<Rightarrow> 'dev host \<Rightarrow> 'dev host res" where
  "auditd_turn write t s =
     (let end = head (audit_cbuff s); start = tail (audit_cbuff s);
          s1 = s\<lparr>meas := save_log_appended (meas s), hardlog_logging := True\<rparr>
      in rbind (host_write write (write_time t) end start (before_read t s1)) (\<lambda>s2.
         let s3 = after_read t s2;
             s4 = s3\<lparr>audit_cbuff := (audit_cbuff s3)\<lparr>tail := end\<rparr>, hardlog_logging := False\<rparr>
         in Inr s4))"

text \<open>What is left when the daemon is told to stop.\<close>

definition auditd_final :: "'dev writer \<Rightarrow> u64 \<Rightarrow> 'dev host \<Rightarrow> 'dev host res" where
  "auditd_final write elapsed s =
     (let cb = audit_cbuff s
      in if head cb \<noteq> tail cb
         then let end = head cb mod of_nat HARDLOG_AUDIT_CBUFFSIZE;
                  start0 = tail cb mod of_nat HARDLOG_AUDIT_CBUFFSIZE;
                  start = (if end < start0 then 0 else start0);
                  size = end - start
              in if size > 0
                 then rbind (host_write write elapsed end start s)
                        (\<lambda>s'. Inr (s'\<lparr>audit_cbuff := (audit_cbuff s')\<lparr>tail := end\<rparr>\<rparr>))
                 else Inr s
         else Inr s)"

fun auditd_loop :: "'dev writer \<Rightarrow> 'dev turn list \<Rightarrow> u64 \<Rightarrow> 'dev host \<Rightarrow> 'dev host res" where
  "auditd_loop write [] elapsed s = auditd_final write elapsed s"
| "auditd_loop write (t # ts) elapsed s = rbind (auditd_turn write t s) (auditd_loop write ts elapsed)"

definition hardlog_auditd_thread ::
    "bool \<Rightarrow> nat \<Rightarrow> nat \<Rightarrow> 'dev writer \<Rightarrow> 'dev turn list \<Rightarrow> u64 \<Rightarrow> 'dev host \<Rightarrow> (int \<times> 'dev host) res" where
  "hardlog_auditd_thread wait_queues cpus core write turns elapsed s =
     (if \<not> wait_queues then Inr (- 1, s)
      else let s1 = s\<lparr>cat := set_hardlog_l3_cos core (on_each_cpu cpus set_else_l3_cos (setup_l3_cat core (cat s)))\<rparr>
           in rbind (auditd_loop write turns elapsed s1) (\<lambda>s2. Inr (1, s2)))"

section \<open>Init and exit\<close>

text \<open>
  The init starts the daemon and then sets up the IOCTL device (\<open>ioctl_init\<close>, its outcome) and the
  logger. The exit is given what the other threads do between the end of the daemon and the
  teardown of the logger.
\<close>

definition hardlog_enable_init ::
    "config \<Rightarrow> open_env \<Rightarrow> 'dev submit \<Rightarrow> 'dev kwrite \<Rightarrow> unit kptr \<Rightarrow> bool \<Rightarrow> logger_env \<Rightarrow> 'dev host
     \<Rightarrow> (int \<times> 'dev host) res" where
  "hardlog_enable_init cfg e submit kwrite task ioctl_init le s =
     rbind (usb_open (biof cfg) e submit kwrite (audit_cbuff s) (usb_state s)) (\<lambda>(opened, u).
     let s1 = s\<lparr>usb_state := u\<rparr> in
     if \<not> opened then Inr (- 1, s1)
     else
       let s2 = s1\<lparr>hardlog_auditd_task := task\<rparr> in
       if is_err (hardlog_auditd_task s2) then Inr (- 1, s2)
       else
         let s3 = s2\<lparr>auditd_running := True\<rparr> in
         if \<not> ioctl_init then Inr (- 1, s3)
         else rbind (hardlog_logger_setup le (env_vmalloc e) (microlog cfg) s3) (\<lambda>(ok, s4).
              if \<not> ok then Inr (- 1, s4) else Inr (0, s4)))"

definition hardlog_enable_exit ::
    "config \<Rightarrow> nat \<Rightarrow> 'dev writer \<Rightarrow> u64 \<Rightarrow> ('dev \<Rightarrow> 'dev) \<Rightarrow> ('dev host \<Rightarrow> 'dev host) \<Rightarrow> 'dev host \<Rightarrow> 'dev host res" where
  "hardlog_enable_exit cfg cpus write elapsed close others s =
     rbind (auditd_final write elapsed s) (\<lambda>s1.
     let s2 = others (s1\<lparr>auditd_running := False\<rparr>);
         s3 = s2\<lparr>usb_state := usb_close (biof cfg) close (usb_state s2)\<rparr>
     in rbind (hardlog_logger_teardown s3) (\<lambda>s4.
        Inr (s4\<lparr>cat := on_each_cpu cpus reset_l3_cat (cat s4)\<rparr>)))"

section \<open>Facts\<close>

subsection \<open>Moving the tail\<close>

lemma head_used: "head cb = tail cb + of_nat (used cb)"
  by (simp add: used_def)

lemma advance_used:
  assumes "n \<le> used cb"
  shows "used (cb\<lparr>tail := tail cb + of_nat n\<rparr>) = used cb - n"
proof -
  define d where "d = head cb - tail cb"
  have n: "n \<le> unat d" using assms by (simp add: used_def d_def)
  then have u: "unat (of_nat n :: u64) = n"
    using u64_bound [of d] by (simp add: unat_of_nat take_bit_eq_mod)
  then have "(of_nat n :: u64) \<le> d" using n by (simp only: word_le_nat_alt)
  then have "unat (d - of_nat n) = unat d - n" using u by (simp add: unat_sub)
  moreover have "head cb - (tail cb + of_nat n) = d - of_nat n" by (simp add: d_def)
  moreover have "used (cb\<lparr>tail := tail cb + of_nat n\<rparr>) = unat (head cb - (tail cb + of_nat n))" "used cb = unat d"
    by (simp_all add: used_def d_def)
  ultimately show ?thesis by (simp only:)
qed

lemma ring_bytes_tail_add:
  "ring_bytes CBUFF m (unat (t + of_nat n :: u64)) k = ring_bytes CBUFF m (unat t + n) k"
proof -
  have "unat (t + of_nat n) mod CBUFF = (unat t + unat (of_nat n :: u64)) mod CBUFF"
    using host_ring.index_add [of t "of_nat n"] by (simp add: host_ring.unat_mod_cap)
  also have "unat (of_nat n :: u64) mod CBUFF = n mod CBUFF"
    using mod_mod_cancel [OF host_ring.cap_dvd, of n] by (simp add: unat_of_nat take_bit_eq_mod)
  then have "(unat t + unat (of_nat n :: u64)) mod CBUFF = (unat t + n) mod CBUFF"
    by (metis mod_add_right_eq)
  finally show ?thesis by (metis ring_bytes_mod)
qed

lemma drop_ring_bytes: "n \<le> k \<Longrightarrow> drop n (ring_bytes c m s k) = ring_bytes c m (s + n) (k - n)"
  by (rule nth_equalityI) (auto simp: ac_simps)

lemma take_ring_bytes: "n \<le> k \<Longrightarrow> take n (ring_bytes c m s k) = ring_bytes c m s n"
  by (rule nth_equalityI) auto

lemma length_pending [simp]: "length (pending cb) = used cb"
  by (simp add: pending_def)

lemma advance_pending:
  assumes "n \<le> used cb"
  shows "pending (cb\<lparr>tail := tail cb + of_nat n\<rparr>) = drop n (pending cb)"
  using assms advance_used [OF assms]
  by (simp add: pending_def ring_mem_def ring_bytes_tail_add drop_ring_bytes)

text \<open>The other threads append \<open>xs\<close> and leave everything else that matters alone.\<close>

definition appended :: "'dev host \<Rightarrow> string \<Rightarrow> 'dev host \<Rightarrow> bool" where
  "appended s xs s' \<longleftrightarrow> usb_state s' = usb_state s \<and> write_count (meas s') = write_count (meas s)
     \<and> tail (audit_cbuff s') = tail (audit_cbuff s) \<and> hostbuf_ok (audit_cbuff s')
     \<and> pending (audit_cbuff s') = pending (audit_cbuff s) @ xs"

lemma appended_refl: "hostbuf_ok (audit_cbuff s) \<Longrightarrow> appended s [] s"
  by (simp add: appended_def)

lemma commit_appends:
  assumes "hostbuf_ok (audit_cbuff s)" and "used (audit_cbuff s) + length rec \<le> CBUFF"
    and "unat (head (audit_cbuff s)) mod CBUFF + length rec \<le> CBUFF"
  shows "appended s rec (commit_record flushtimef now rec s)"
  using assms push_bytes_pending [OF assms]
  by (simp add: appended_def commit_record_def update_logs_created_measurement_def mark_log_appended_def Let_def)

lemma pending_prefix:
  assumes "appended s xs s'"
  shows "ring_bytes CBUFF (ring_mem (audit_cbuff s')) (unat (tail (audit_cbuff s))) (used (audit_cbuff s))
    = pending (audit_cbuff s)"
proof -
  have p: "pending (audit_cbuff s') = pending (audit_cbuff s) @ xs" "tail (audit_cbuff s') = tail (audit_cbuff s)"
    using assms by (simp_all add: appended_def)
  then have "used (audit_cbuff s) \<le> used (audit_cbuff s')"
    by (metis length_append length_pending le_add1)
  then have "take (used (audit_cbuff s)) (pending (audit_cbuff s')) =
      ring_bytes CBUFF (ring_mem (audit_cbuff s')) (unat (tail (audit_cbuff s))) (used (audit_cbuff s))"
    unfolding pending_def [of "audit_cbuff s'"] p(2) by (rule take_ring_bytes)
  with p(1) show ?thesis by simp
qed

text \<open>A flush that delivers the queue: from a page boundary, or short and not across the capacity.\<close>

definition plain_flush :: "audit_circ_buffer \<Rightarrow> bool" where
  "plain_flush cb \<longleftrightarrow> unat (tail cb) mod 4096 = 0
     \<or> used cb < 4096 \<and> unat (tail cb) mod CBUFF + used cb \<le> CBUFF"

text \<open>One turn of the daemon, while the others append \<open>xs\<close> before and \<open>ys\<close> after the bytes are read.\<close>

lemma turn_outcome:
  assumes "usb_ready (usb_state s)" and "hostbuf_ok (audit_cbuff s)" and "write_count (meas s) \<noteq> - 1"
    and "append_sink stored submit" and "plain_flush (audit_cbuff s)"
    and "\<And>x. hostbuf_ok (audit_cbuff x) \<Longrightarrow> audit_cbuff x = audit_cbuff s \<Longrightarrow> appended x xs (before_read t x)"
    and "\<And>x y. pending (audit_cbuff x) = pending (audit_cbuff s) @ xs \<Longrightarrow> hostbuf_ok (audit_cbuff x) \<Longrightarrow>
      tail (audit_cbuff x) = tail (audit_cbuff s) \<Longrightarrow> appended x ys (after_read t x)"
  shows "\<exists>s' pad. auditd_turn (bio_write submit) t s = Inr s' \<and> length pad < 4096 \<and> 4096 dvd length (pending (audit_cbuff s)) + length pad
    \<and> stored (dev (usb_state s')) = stored (dev (usb_state s)) @ pending (audit_cbuff s) @ pad
    \<and> (pending (audit_cbuff s) = [] \<longrightarrow> pad = [])
    \<and> pending (audit_cbuff s') = xs @ ys \<and> tail (audit_cbuff s') = head (audit_cbuff s)
    \<and> usb_ready (usb_state s') \<and> hostbuf_ok (audit_cbuff s') \<and> \<not> hardlog_logging s'
    \<and> unat (write_count (meas s')) \<le> Suc (unat (write_count (meas s)))"
proof -
  let ?stop = "head (audit_cbuff s)" and ?start = "tail (audit_cbuff s)"
  let ?s1 = "s\<lparr>meas := save_log_appended (meas s), hardlog_logging := True\<rparr>"
  let ?b = "before_read t ?s1"
  have b: "appended ?s1 xs ?b" using assms(2) by (intro assms(6)) simp_all
  have b': "usb_state ?b = usb_state s" "write_count (meas ?b) = write_count (meas s)" "hostbuf_ok (audit_cbuff ?b)"
      "pending (audit_cbuff ?b) = pending (audit_cbuff s) @ xs" "tail (audit_cbuff ?b) = ?start"
    using b by (simp_all add: appended_def save_log_appended_def)
  have n: "unat (?stop - ?start) = used (audit_cbuff s)" by (simp add: used_def)
  have bytes: "ring_bytes CBUFF (ring_mem (audit_cbuff ?b)) (unat ?start) (unat (?stop - ?start)) = pending (audit_cbuff s)"
    using pending_prefix [OF b] by (simp add: n)
  have ok: "write_count (meas ?b) \<noteq> - 1" using assms(3) b'(2) by simp
  obtain r u' m' pad where w: "bio_write submit (write_time t) (audit_cbuff ?b) ?stop ?start (usb_state s, meas ?b) = Inr (r, u', m')"
      "usb_ready u'" "unat (write_count m') \<le> Suc (unat (write_count (meas s)))" "length pad < 4096" "4096 dvd used (audit_cbuff s) + length pad"
      "stored (dev u') = stored (dev (usb_state s)) @ pending (audit_cbuff s) @ pad" "pending (audit_cbuff s) = [] \<Longrightarrow> pad = []"
  proof (cases "?stop = ?start")
    case True
    then have "pending (audit_cbuff s) = []" "used (audit_cbuff s) = 0" by (simp_all add: pending_def used_def)
    moreover have "bio_write submit (write_time t) (audit_cbuff ?b) ?stop ?start (usb_state s, meas ?b) = Inr (- 1, usb_state s, meas ?b)"
      using True by (simp add: bio_write_def)
    ultimately show thesis using assms(1) b'(2) by (intro that [of "- 1" "usb_state s" "meas ?b" "[]"]) simp_all
  next
    case False
    then have ne: "pending (audit_cbuff s) \<noteq> []"
      using n by (metis length_pending list.size(3) unat_gt_0 right_minus_eq less_irrefl)
    have pf: "unat ?start mod 4096 = 0 \<or> unat (?stop - ?start) < 4096 \<and> unat ?start mod CBUFF + unat (?stop - ?start) \<le> CBUFF"
      using assms(5) by (simp add: plain_flush_def n)
    from bio_write_appends [OF assms(1) b'(3) False ok assms(4) pf, of "write_time t"] bytes
      bio_write_total [OF b'(3) assms(1) ok, of submit "write_time t" ?stop ?start] b'(2)
    show thesis by (auto intro!: that simp: ne n)
  qed
  let ?s2 = "?b\<lparr>usb_state := u', meas := m'\<rparr>"
  have a: "appended ?s2 ys (after_read t ?s2)" using b' by (intro assms(7)) simp_all
  let ?a = "after_read t ?s2"
  have a': "usb_state ?a = u'" "write_count (meas ?a) = write_count m'" "hostbuf_ok (audit_cbuff ?a)"
      "pending (audit_cbuff ?a) = pending (audit_cbuff s) @ xs @ ys" "tail (audit_cbuff ?a) = ?start"
    using a b' by (simp_all add: appended_def)
  let ?cb = "(audit_cbuff ?a)\<lparr>tail := ?stop\<rparr>"
  have le: "used (audit_cbuff s) \<le> used (audit_cbuff ?a)"
    using a'(4) by (metis length_append length_pending le_add1)
  have "pending ?cb = drop (used (audit_cbuff s)) (pending (audit_cbuff ?a))"
    using advance_pending [OF le] a'(5) by (simp add: head_used [of "audit_cbuff s"])
  then have "pending ?cb = xs @ ys" using a'(4) by simp
  moreover have "auditd_turn (bio_write submit) t s = Inr (?a\<lparr>audit_cbuff := ?cb, hardlog_logging := False\<rparr>)"
    using w(1) b'(1) by (simp add: auditd_turn_def host_write_def Let_def)
  moreover have "hostbuf_ok ?cb" using a'(3) by (simp add: hostbuf_ok_def)
  ultimately show ?thesis
    using w a' by (intro exI [of _ "?a\<lparr>audit_cbuff := ?cb, hardlog_logging := False\<rparr>"] exI [of _ pad]) simp
qed

subsection \<open>The daemon on any write path\<close>

text \<open>What the daemon needs of a state, and what the other threads may do to it during a turn.\<close>

definition daemon_ok :: "('dev usb \<Rightarrow> bool) \<Rightarrow> 'dev host \<Rightarrow> bool" where
  "daemon_ok ready s \<longleftrightarrow> ready (usb_state s) \<and> hostbuf_ok (audit_cbuff s) \<and> used (audit_cbuff s) \<le> CBUFF + PAGE_SIZE"

definition producers :: "('dev usb \<Rightarrow> bool) \<Rightarrow> ('dev host \<Rightarrow> 'dev host) \<Rightarrow> bool" where
  "producers ready f \<longleftrightarrow> (\<forall>s. daemon_ok ready s \<longrightarrow> daemon_ok ready (f s) \<and> tail (audit_cbuff (f s)) = tail (audit_cbuff s)
     \<and> used (audit_cbuff s) \<le> used (audit_cbuff (f s)) \<and> write_count (meas (f s)) = write_count (meas s))"

lemma producersD:
  assumes "producers ready f" and "daemon_ok ready s"
  shows "daemon_ok ready (f s)" "tail (audit_cbuff (f s)) = tail (audit_cbuff s)"
    "used (audit_cbuff s) \<le> used (audit_cbuff (f s))" "write_count (meas (f s)) = write_count (meas s)"
  using assms by (simp_all add: producers_def)

context usb_backend
begin

lemma host_write_ok:
  assumes "daemon_ok backend_ready s" and "unat (end - start) \<le> CBUFF + PAGE_SIZE"
    and "unat (write_count (meas s)) < n" "n < 2 ^ 32"
  shows "\<exists>u m. host_write backend_write elapsed end start s = Inr (s\<lparr>usb_state := u, meas := m\<rparr>)
    \<and> backend_ready u \<and> unat (write_count m) \<le> n"
proof -
  have "hostbuf_ok (audit_cbuff s)" "backend_ready (usb_state s)" using assms(1) by (simp_all add: daemon_ok_def)
  from backend_reusable [OF this assms(2-4), of elapsed]
  obtain r u m where "backend_write elapsed (audit_cbuff s) end start (usb_state s, meas s) = Inr (r, u, m)"
      "backend_ready u" "unat (write_count m) \<le> n" by blast
  then show ?thesis by (auto simp: host_write_def)
qed

lemma turn_ok:
  assumes "daemon_ok backend_ready s" and "producers backend_ready (before_read t)" "producers backend_ready (after_read t)"
    and "unat (write_count (meas s)) < n" "n < 2 ^ 32"
  shows "\<exists>s'. auditd_turn backend_write t s = Inr s' \<and> daemon_ok backend_ready s'
    \<and> unat (write_count (meas s')) \<le> n \<and> \<not> hardlog_logging s' \<and> tail (audit_cbuff s') = head (audit_cbuff s)"
proof -
  let ?s1 = "s\<lparr>meas := save_log_appended (meas s), hardlog_logging := True\<rparr>"
  have s1: "daemon_ok backend_ready ?s1" using assms(1) by (simp add: daemon_ok_def)
  note b = producersD [OF assms(2) s1]
  let ?b = "before_read t ?s1"
  have len: "unat (head (audit_cbuff s) - tail (audit_cbuff s)) = used (audit_cbuff s)"
    by (simp add: used_def)
  then have "unat (head (audit_cbuff s) - tail (audit_cbuff s)) \<le> CBUFF + PAGE_SIZE"
    using assms(1) by (simp add: daemon_ok_def)
  moreover have "unat (write_count (meas ?b)) < n" using b assms(4) by (simp add: save_log_appended_def)
  ultimately obtain u m where w: "host_write backend_write (write_time t) (head (audit_cbuff s)) (tail (audit_cbuff s)) ?b
      = Inr (?b\<lparr>usb_state := u, meas := m\<rparr>)" "backend_ready u" "unat (write_count m) \<le> n"
    using host_write_ok [OF b(1) _ _ assms(5)] by blast
  let ?s2 = "?b\<lparr>usb_state := u, meas := m\<rparr>"
  have s2: "daemon_ok backend_ready ?s2" using b w by (simp add: daemon_ok_def)
  note a = producersD [OF assms(3) s2]
  let ?a = "after_read t ?s2"
  let ?cb = "(audit_cbuff ?a)\<lparr>tail := head (audit_cbuff s)\<rparr>"
  have le: "used (audit_cbuff s) \<le> used (audit_cbuff ?a)" using a(3) b(3) by simp
  have "tail (audit_cbuff ?a) = tail (audit_cbuff s)" using a(2) b(2) by simp
  then have "used ?cb = used (audit_cbuff ?a) - used (audit_cbuff s)"
    using advance_used [OF le] by (simp add: head_used [of "audit_cbuff s"])
  then have "daemon_ok backend_ready (?a\<lparr>audit_cbuff := ?cb, hardlog_logging := False\<rparr>)"
    using a(1) by (auto simp: daemon_ok_def hostbuf_ok_def)
  then show ?thesis
    using w a by (simp add: auditd_turn_def Let_def)
qed

lemma final_ok:
  assumes "daemon_ok backend_ready s" and "unat (write_count (meas s)) + 1 < 2 ^ 32"
  shows "\<exists>s'. auditd_final backend_write elapsed s = Inr s'"
proof -
  let ?h = "head (audit_cbuff s) mod of_nat CBUFF" and ?t = "tail (audit_cbuff s) mod of_nat CBUFF"
  have "unat (?h - start) \<le> CBUFF + PAGE_SIZE" if "start \<le> ?h" for start
    using that host_ring.index_lt [of "head (audit_cbuff s)"] by (simp add: unat_sub)
  then have "unat (?h - (if ?h < ?t then 0 else ?t)) \<le> CBUFF + PAGE_SIZE" by (simp add: not_less)
  from host_write_ok [OF assms(1) this _ assms(2), of elapsed]
  obtain u m where "host_write backend_write elapsed ?h (if ?h < ?t then 0 else ?t) s = Inr (s\<lparr>usb_state := u, meas := m\<rparr>)"
    by auto
  then show ?thesis by (auto simp: auditd_final_def Let_def)
qed

lemma loop_ok:
  assumes "daemon_ok backend_ready s"
    and "\<forall>t \<in> set ts. producers backend_ready (before_read t) \<and> producers backend_ready (after_read t)"
    and "unat (write_count (meas s)) + length ts + 1 < 2 ^ 32"
  shows "\<exists>s'. auditd_loop backend_write ts elapsed s = Inr s'"
  using assms
proof (induction ts arbitrary: s)
  case Nil
  then show ?case using final_ok by simp
next
  case (Cons t ts)
  have "unat (write_count (meas s)) < unat (write_count (meas s)) + 1"
    "unat (write_count (meas s)) + 1 < 2 ^ 32" using Cons.prems(3) by simp_all
  from turn_ok [OF Cons.prems(1) _ _ this] Cons.prems(2)
  obtain s1 where "auditd_turn backend_write t s = Inr s1" "daemon_ok backend_ready s1"
    "unat (write_count (meas s1)) \<le> unat (write_count (meas s)) + 1" by auto
  moreover from this have "\<exists>s'. auditd_loop backend_write ts elapsed s1 = Inr s'"
    using Cons.prems(2,3) by (intro Cons.IH) auto
  ultimately show ?case by simp
qed

end

definition host_ready :: "bool \<Rightarrow> 'dev usb \<Rightarrow> bool" where
  "host_ready bio u \<longleftrightarrow> (if bio then usb_ready u else fs_ready u)"

interpretation host_backend: usb_backend "usb_write bio submit kwrite" "host_ready bio"
  for bio and submit :: "'dev submit" and kwrite
  by unfold_locales
    (simp add: usb_write_def host_ready_def bio_write_total fs_write_total split: if_splits)

subsection \<open>Events and turns\<close>

definition quiet_turn :: "u64 \<Rightarrow> 'dev turn" where
  "quiet_turn elapsed = \<lparr>before_read = id, after_read = id, write_time = elapsed\<rparr>"

text \<open>Ordinary events, whose text the code accepts whole, and turns during which no other thread appends.\<close>

definition plain_event :: "audit_buffer \<Rightarrow> bool" where
  "plain_event ab \<longleftrightarrow> event_ok ab \<and> NUL \<notin> set (event_text ab) \<and> 35 \<le> length (event_text ab)
     \<and> length (event_text ab) \<le> 509 \<and> (\<forall>c. ctx ab = Some c \<longrightarrow> \<not> is_prio_syscall (major c))"

lemma event_step:
  assumes "plain_event ab" and "hostbuf_ok (audit_cbuff s)" and "\<not> hardlog_audit_producer s"
    and "used (audit_cbuff s) + length (event_text ab) + 1 \<le> CBUFF"
    and "unat (head (audit_cbuff s)) mod CBUFF + length (event_text ab) + 1 \<le> CBUFF"
  shows "\<exists>ab' s'. audit_log_end_hardlog flushtimef now (Some ab) [] s = Inr (Some ab', s', [])
    \<and> appended s (event_text ab @ [NEWLINE]) s' \<and> \<not> hardlog_audit_producer s'
    \<and> head (audit_cbuff s') = head (audit_cbuff s) + of_nat (length (event_text ab) + 1)"
proof -
  have rec: "event_record ab = event_text ab @ [NEWLINE]"
    using assms(1) by (simp add: plain_event_def event_record_short event_ok_room)
  obtain ab' where "audit_log_end_hardlog flushtimef now (Some ab) [] s =
      Inr (Some ab', commit_record flushtimef now (event_record ab) s, [])"
    using assms end_event_now [where ab = ab and s = s and flushtimef = flushtimef and now = now]
    by (auto simp: plain_event_def)
  moreover have "appended s (event_record ab) (commit_record flushtimef now (event_record ab) s)"
    using assms by (intro commit_appends) (simp_all add: rec)
  ultimately show ?thesis
    using assms(2) by (auto simp: rec push_bytes_head)
qed

lemma quiet_turn_mutex:
  "auditd_turn write (quiet_turn e) s = Inr s' \<Longrightarrow> hardlog_audit_producer s' = hardlog_audit_producer s"
  by (auto simp: auditd_turn_def host_write_def quiet_turn_def Let_def)

lemma head_of_empty:
  assumes "pending cb = []"
  shows "head cb = tail cb"
proof -
  have "used cb = 0" using length_pending [of cb] assms by simp
  then show ?thesis using head_used [of cb] by simp
qed

lemma unat_add_small: "unat (w :: u64) + n < 2 ^ 64 \<Longrightarrow> unat (w + of_nat n) = unat w + n"
  by (simp add: unat_word_ariths unat_of_nat take_bit_eq_mod mod_add_right_eq)

text \<open>A sample host: \<open>logger_at\<close> with the device that keeps every byte.\<close>

definition host_at :: "u64 \<Rightarrow> u64 \<Rightarrow> char list host" where
  "host_at h t = \<lparr>audit_cbuff = sample_cbuff (\<lambda>i. if i < 100 then CHR ''a'' else CHR ''b'') h t,
     meas = measure0, hardlog_audit_producer = False, hardlog_active_ptr = True, hardlog_microlog_active_ptr = True,
     hardlog_active = True, hardlog_microlog_active = False,
     usb_state = tape_usb, hardlog_logging = False, cat = \<lparr>l3_masks = (\<lambda>_. 0xFFFF), pqr_assoc = (\<lambda>_. 0)\<rparr>,
     hardlog_auditd_task = Ptr (), auditd_running = True\<rparr>"

lemma host_at_facts:
  "hostbuf_ok (audit_cbuff (host_at h t))" "\<not> hardlog_audit_producer (host_at h t)"
  "used (audit_cbuff (host_at h t)) = unat (h - t)" "head (audit_cbuff (host_at h t)) = h"
  "tail (audit_cbuff (host_at h t)) = t" "write_count (meas (host_at h t)) = 0"
  "usb_ready (usb_state (host_at h t))" "dev (usb_state (host_at h t)) = []"
  by (simp_all add: host_at_def tape_ready measure0_def) (simp add: tape_usb_def)

subsection \<open>Cache registers\<close>

lemmas msr_defs = custom_wrmsr_def wrmsr_def PQR_ASSOC_def IA32_L3_MASK_0_def IA32_L3_MASK_1_def
  IA32_L3_MASK_2_def IA32_L3_MASK_3_def word_cat_eq

lemma fold_set_else:
  "l3_masks (fold set_else_l3_cos cs c) = l3_masks c"
  "pqr_assoc (fold set_else_l3_cos cs c) = (\<lambda>i. if i \<in> set cs then 1 else pqr_assoc c i)"
  by (induction cs arbitrary: c) (auto simp: set_else_l3_cos_def msr_defs)

lemma setup_masks:
  "l3_masks (setup_l3_cat core c) = (l3_masks c)(0 := 0x8000, 1 := 0x8FFF, 2 := 0x8FFF, 3 := 0x8FFF)"
  "pqr_assoc (setup_l3_cat core c) = pqr_assoc c"
  by (simp_all add: setup_l3_cat_def msr_defs)

lemma reset_masks:
  "l3_masks (reset_l3_cat core c) = (l3_masks c)(0 := 0xFFFF, 1 := 0xFFFF, 2 := 0xFFFF, 3 := 0xFFFF)"
  "pqr_assoc (reset_l3_cat core c) = (pqr_assoc c)(core := 0)"
  by (simp_all add: reset_l3_cat_def msr_defs)

lemma fold_reset_masks:
  "cs \<noteq> [] \<Longrightarrow> n < 4 \<Longrightarrow> l3_masks (fold reset_l3_cat cs c) n = 0xFFFF"
  by (induction cs rule: rev_induct) (auto simp: reset_masks less_Suc_eq eval_nat_numeral)

text \<open>The class of service of a core is the upper half of the register; its mask limits its ways.\<close>

definition cos_of :: "l3_cat \<Rightarrow> nat \<Rightarrow> nat" where
  "cos_of c core = unat (drop_bit 32 (pqr_assoc c core))"

definition ways_of :: "l3_cat \<Rightarrow> nat \<Rightarrow> u64" where
  "ways_of c core = l3_masks c (cos_of c core)"

subsection \<open>The final flush\<close>

text \<open>The end of the queue, when it wraps around the capacity.\<close>

lemma wrapped_split:
  assumes "used cb \<le> CBUFF" and "unat (head cb) mod CBUFF < unat (tail cb) mod CBUFF"
  shows "used cb = CBUFF - unat (tail cb) mod CBUFF + unat (head cb) mod CBUFF"
    and "drop (CBUFF - unat (tail cb) mod CBUFF) (pending cb) = ring_bytes CBUFF (ring_mem cb) 0 (unat (head cb) mod CBUFF)"
proof -
  define t where "t = unat (tail cb) mod CBUFF"
  have t: "t < CBUFF" by (simp add: t_def CBUFF_eq)
  have "unat (head cb) mod CBUFF = (t + used cb) mod CBUFF"
    using host_ring.head_position [of "head cb" "tail cb"] by (simp add: used_def t_def mod_add_left_eq)
  then have h: "(t + used cb) mod CBUFF < t" "unat (head cb) mod CBUFF = (t + used cb) mod CBUFF"
    using assms(2) by (simp_all add: t_def)
  have "CBUFF \<le> t + used cb"
  proof (rule ccontr)
    assume "\<not> CBUFF \<le> t + used cb"
    then show False using h(1) by simp
  qed
  moreover have "t + used cb < 2 * CBUFF" using t assms(1) by simp
  ultimately have "(t + used cb) mod CBUFF = t + used cb - CBUFF" by (simp add: mod_if)
  with h t \<open>CBUFF \<le> t + used cb\<close> show u: "used cb = CBUFF - unat (tail cb) mod CBUFF + unat (head cb) mod CBUFF"
    by (simp add: t_def)
  have s: "(unat (tail cb) + (CBUFF - t)) mod CBUFF = 0"
    using t by (metis t_def add_diff_inverse_nat mod_add_left_eq mod_self not_less_iff_gr_or_eq)
  have "drop (CBUFF - t) (pending cb) = ring_bytes CBUFF (ring_mem cb) (unat (tail cb) + (CBUFF - t)) (unat (head cb) mod CBUFF)"
    using u by (simp add: pending_def drop_ring_bytes t_def)
  then show "drop (CBUFF - unat (tail cb) mod CBUFF) (pending cb) = ring_bytes CBUFF (ring_mem cb) 0 (unat (head cb) mod CBUFF)"
    using s ring_bytes_mod [of CBUFF "ring_mem cb" "unat (tail cb) + (CBUFF - t)"] by (simp add: t_def)
qed

section \<open>Properties\<close>



text \<open>
  A failed write is treated as delivered. If the device refuses the first request of a turn, the
  daemon still moves the tail to the end: nothing is pending any more, and the device is as the
  refused request left it.
\<close>

theorem failed_turn_drops:
  assumes "usb_ready (usb_state s)" and "hostbuf_ok (audit_cbuff s)" and "pending (audit_cbuff s) \<noteq> []"
    and "\<And>sector bs. submit True sector bs (dev (usb_state s)) = (d, - 5)"
  shows "\<exists>s'. auditd_turn (bio_write submit) (quiet_turn elapsed) s = Inr s'
    \<and> dev (usb_state s') = d \<and> pending (audit_cbuff s') = [] \<and> head (audit_cbuff s') = head (audit_cbuff s)"
proof -
  let ?cb = "audit_cbuff s" and ?m = "save_log_appended (meas s)"
  have ne: "head ?cb \<noteq> tail ?cb" using assms(3) by (auto simp: pending_def used_def)
  have "send submit (requests sector bs) (dev (usb_state s)) = (d, - 5)" for sector bs
    by (subst requests.simps) (simp add: assms(4))
  from bio_write_send [OF assms(1,2) ne this, of elapsed ?m]
  obtain u' where "bio_write submit elapsed ?cb (head ?cb) (tail ?cb) (usb_state s, ?m) = Inr (- 1, u', ?m)" "dev u' = d"
    by auto
  then show ?thesis
    by (simp add: auditd_turn_def host_write_def quiet_turn_def Let_def pending_def used_def)
qed

theorem failed_turn_drops_witness:
  "\<exists>s'. auditd_turn (bio_write (\<lambda>w sector bs d. (d, - 5))) (quiet_turn 3) (host_at 102 98) = Inr s'
    \<and> dev (usb_state s') = [] \<and> pending (audit_cbuff s') = []"
proof -
  have "length (pending (audit_cbuff (host_at 102 98))) = 4" by (simp add: host_at_facts(3))
  then have "pending (audit_cbuff (host_at 102 98)) \<noteq> []" by (metis list.size(3) zero_neq_numeral)
  from failed_turn_drops [where submit = "\<lambda>w sector bs d. (d, - 5)", OF host_at_facts(7,1) this, of "[]" 3]
  show ?thesis by (auto simp: host_at_facts)
qed

text \<open>
  C33: the daemon never faults. On either write path, from a ready device and an allocated buffer,
  the daemon's thread runs any number of turns (fewer than \<open>2^32\<close> writes) and the final flush to the
  end, whatever the device answers and whatever the producers append meanwhile, as long as they keep
  the buffer within its allocation.
\<close>

theorem daemon_never_faults:
  assumes "daemon_ok (host_ready bio) s"
    and "\<forall>t \<in> set turns. producers (host_ready bio) (before_read t) \<and> producers (host_ready bio) (after_read t)"
    and "unat (write_count (meas s)) + length turns + 1 < 2 ^ 32"
  shows "\<exists>s'. hardlog_auditd_thread True cpus core (usb_write bio submit kwrite) turns elapsed s = Inr (1, s')"
proof -
  let ?c = "set_hardlog_l3_cos core (on_each_cpu cpus set_else_l3_cos (setup_l3_cat core (cat s)))"
  have "daemon_ok (host_ready bio) (s\<lparr>cat := ?c\<rparr>)" "unat (write_count (meas (s\<lparr>cat := ?c\<rparr>))) + length turns + 1 < 2 ^ 32"
    using assms(1,3) by (simp_all add: daemon_ok_def)
  then obtain s' where "auditd_loop (usb_write bio submit kwrite) turns elapsed (s\<lparr>cat := ?c\<rparr>) = Inr s'"
    using host_backend.loop_ok assms(2) by blast
  then show ?thesis by (simp add: hardlog_auditd_thread_def)
qed

theorem daemon_never_faults_witness:
  "\<exists>s'. hardlog_auditd_thread True 4 2 (usb_write False tape_submit tape_kwrite) [quiet_turn 5, quiet_turn 95] 7 (host_at 102 98) = Inr (1, s')"
proof -
  have "daemon_ok (host_ready False) (host_at 102 98)"
    by (simp add: daemon_ok_def host_ready_def host_at_facts) (simp add: host_at_def tape_ready)
  moreover have "producers (host_ready False) id" by (simp add: producers_def)
  ultimately show ?thesis
    using daemon_never_faults [of False "host_at 102 98" "[quiet_turn 5, quiet_turn 95]"]
    by (simp add: quiet_turn_def host_at_facts)
qed

text \<open>
  The final flush forgets the end of the buffer. If the queue wraps around the capacity when the
  daemon is told to stop, the final flush starts at index 0: the device gets the part of the queue
  behind the wrap, and never the part before it.
\<close>

theorem final_flush_skips:
  assumes "usb_ready (usb_state s)" and "hostbuf_ok (audit_cbuff s)" and "write_count (meas s) \<noteq> - 1"
    and "append_sink stored submit" and "used (audit_cbuff s) \<le> CBUFF"
    and "0 < unat (head (audit_cbuff s)) mod CBUFF"
    and "unat (head (audit_cbuff s)) mod CBUFF < unat (tail (audit_cbuff s)) mod CBUFF"
  shows "\<exists>s' pad. auditd_final (bio_write submit) elapsed s = Inr s'
    \<and> stored (dev (usb_state s')) = stored (dev (usb_state s))
        @ drop (CBUFF - unat (tail (audit_cbuff s)) mod CBUFF) (pending (audit_cbuff s)) @ pad"
proof -
  let ?cb = "audit_cbuff s"
  let ?h = "head ?cb mod of_nat CBUFF" and ?t = "tail ?cb mod of_nat CBUFF"
  have h: "unat ?h = unat (head ?cb) mod CBUFF" "unat ?t = unat (tail ?cb) mod CBUFF"
    by (rule host_ring.unat_mod_cap)+
  have lt: "?h < ?t" using assms(7) by (simp add: word_less_nat_alt h)
  have ne: "?h \<noteq> 0" using assms(6) h(1) by (metis less_irrefl unat_0)
  have "head ?cb \<noteq> tail ?cb" using lt by auto
  with lt ne have "auditd_final (bio_write submit) elapsed s = rbind (host_write (bio_write submit) elapsed ?h 0 s)
      (\<lambda>s'. Inr (s'\<lparr>audit_cbuff := (audit_cbuff s')\<lparr>tail := ?h\<rparr>\<rparr>))"
    by (simp add: auditd_final_def Let_def word_gt_0)
  moreover obtain r u' m' pad where "bio_write submit elapsed ?cb ?h 0 (usb_state s, meas s) = Inr (r, u', m')"
      "stored (dev u') = stored (dev (usb_state s)) @ ring_bytes CBUFF (ring_mem ?cb) 0 (unat (head ?cb) mod CBUFF) @ pad"
    using bio_write_appends [OF assms(1,2) ne assms(3,4), of elapsed] by (auto simp: h)
  ultimately show ?thesis
    by (auto simp: host_write_def wrapped_split(2) [OF assms(5,7)])
qed

theorem final_flush_skips_witness:
  "\<exists>s' pad. auditd_final (bio_write tape_submit) 3 (host_at 1048578 1048574) = Inr s' \<and> dev (usb_state s') = ''aa'' @ pad"
proof -
  have p: "pending (audit_cbuff (host_at 1048578 1048574)) = ''bbaa''"
    by (simp add: pending_def host_at_facts(3,5)) (simp add: host_at_def ring_bytes_def CBUFF_eq upt_rec)
  have "write_count (meas (host_at 1048578 1048574)) \<noteq> - 1" by (simp add: host_at_facts)
  from final_flush_skips [OF host_at_facts(7,1) this tape_append_sink, of 3] show ?thesis
    by (simp add: host_at_facts p CBUFF_eq)
qed

text \<open>
  The cache is not partitioned. After the daemon has programmed the cache registers of a machine
  with at least one core, its own core and every other core have class of service 0 - the constant
  for the others is written to the lower half of the register - so that all of them share one way;
  and the two masks meant for the partition overlap anyway.
\<close>

theorem cache_not_isolated:
  assumes "c' = set_hardlog_l3_cos core (on_each_cpu cpus set_else_l3_cos (setup_l3_cat core c))"
    and "core < cpus" and "other < cpus"
  shows "cos_of c' other = 0 \<and> ways_of c' other = ways_of c' core \<and> ways_of c' core = 0x8000
    \<and> and (l3_masks c' 0) (l3_masks c' 1) \<noteq> 0"
proof -
  have pqr: "pqr_assoc c' = (\<lambda>i. if i \<in> set [0..<cpus] then 1 else pqr_assoc c i)(core := 0)"
    using assms(1) by (simp add: set_hardlog_l3_cos_def msr_defs on_each_cpu_def fold_set_else setup_masks cong: if_cong)
  have m: "l3_masks c' = (l3_masks c)(0 := 0x8000, 1 := 0x8FFF, 2 := 0x8FFF, 3 := 0x8FFF)"
    using assms(1) by (simp add: set_hardlog_l3_cos_def msr_defs on_each_cpu_def fold_set_else setup_masks)
  show ?thesis using assms(2,3) by (simp add: cos_of_def ways_of_def pqr m)
qed

theorem cache_not_isolated_witness:
  "ways_of (set_hardlog_l3_cos 2 (on_each_cpu 12 set_else_l3_cos
     (setup_l3_cat 2 \<lparr>l3_masks = (\<lambda>_. 0xFFFF), pqr_assoc = (\<lambda>_. 0)\<rparr>))) 7 = 0x8000"
  using cache_not_isolated [OF refl, of 2 12 7 "\<lparr>l3_masks = (\<lambda>_. 0xFFFF), pqr_assoc = (\<lambda>_. 0)\<rparr>"] by simp

text \<open>
  The exit gives the cache back. Resetting the registers on each of the cores leaves every core
  with class of service 0 and all four masks with all sixteen ways.
\<close>

theorem cache_reset:
  assumes "core < cpus" and "n < 4"
  shows "cos_of (on_each_cpu cpus reset_l3_cat c) core = 0 \<and> l3_masks (on_each_cpu cpus reset_l3_cat c) n = 0xFFFF"
proof -
  have "pqr_assoc (fold reset_l3_cat cs c) = (\<lambda>i. if i \<in> set cs then 0 else pqr_assoc c i)" for cs
    by (induction cs arbitrary: c) (auto simp: reset_masks)
  then show ?thesis
    using assms fold_reset_masks [of "[0..<cpus]" n c] by (simp add: on_each_cpu_def cos_of_def)
qed

theorem cache_reset_witness:
  "ways_of (on_each_cpu 12 reset_l3_cat \<lparr>l3_masks = (\<lambda>_. 0x8FFF), pqr_assoc = (\<lambda>_. 1)\<rparr>) 5 = 0xFFFF"
  using cache_reset [of 5 12 0 "\<lparr>l3_masks = (\<lambda>_. 0x8FFF), pqr_assoc = (\<lambda>_. 1)\<rparr>"] by (simp add: ways_of_def)

text \<open>
  The daemon's sleep. It sleeps at most 110 microseconds after a write of up to 90; after one of
  91 to 99 the lower bound is a difference below zero, that is at least \<open>2^64 - 9\<close> microseconds, and
  above the upper bound; from 100 on it does not sleep.
\<close>

theorem sleep_range:
  "case sleep_bounds e of
     None \<Rightarrow> 100 \<le> unat e
   | Some (lo, hi) \<Rightarrow> if unat e \<le> 90 then unat lo = 90 - unat e \<and> unat hi = 110 - unat e \<and> lo \<le> hi
       else unat e < 100 \<and> 2 ^ 64 - 9 \<le> unat lo \<and> hi < lo"
proof (cases "e < 100")
  case True
  then have lt: "unat e < 100" by (simp add: word_less_nat_alt)
  then have "e \<le> 110" by (simp add: word_le_nat_alt)
  then have hi: "unat (110 - e) = 110 - unat e" by (simp add: unat_sub)
  show ?thesis
  proof (cases "e \<le> 90")
    case le: True
    then have "unat (90 - e) = 90 - unat e" by (simp add: unat_sub)
    with le hi True show ?thesis by (simp add: sleep_bounds_def word_le_nat_alt)
  next
    case False
    then have big: "\<not> unat e \<le> 90" by (simp add: word_le_nat_alt)
    then have "unat (90 - e) = 2 ^ 64 + 90 - unat e"
      using unat_sub_if_size [of 90 e] by (simp add: word_size)
    moreover have "2 ^ 64 - 9 \<le> 2 ^ 64 + 90 - k \<and> 110 - k < 2 ^ 64 + 90 - k" if "k < 100" for k :: nat
      using that by (intro conjI; simp; linarith)
    ultimately show ?thesis
      using big lt hi True by (simp add: sleep_bounds_def word_less_nat_alt [of "110 - e"] del: unat_sub_if_size)
  qed
next
  case False
  then show ?thesis by (simp add: sleep_bounds_def not_less word_le_nat_alt)
qed

text \<open>
  A failed init leaves the daemon running. If the device opens and the daemon starts but the IOCTL
  device or the logger cannot be set up, the init reports failure with the daemon's thread running
  and the device ready to be written.
\<close>

theorem failed_init_leaves_daemon:
  assumes "usb_open (biof cfg) e submit kwrite (audit_cbuff s) (usb_state s) = Inr (True, u)" and "\<not> is_err task"
    and "\<not> ioctl_init \<or> \<not> has_setup_pointers le"
  shows "\<exists>s'. hardlog_enable_init cfg e submit kwrite task ioctl_init le s = Inr (- 1, s')
    \<and> auditd_running s' \<and> usb_state s' = u"
  using assms by (auto simp: hardlog_enable_init_def hardlog_logger_setup_def Let_def)

theorem failed_init_leaves_daemon_witness:
  "\<exists>s'. hardlog_enable_init \<lparr>biof = False, microlog = False\<rparr>
      \<lparr>env_blkdev = NullPtr, env_bio = NullPtr, env_welcome_page = True,
        env_vmalloc = (\<lambda>n. Some \<lparr>cells = (\<lambda>_. NUL), bsize = n, live = True\<rparr>), env_file = Ptr \<lparr>f_pos = 0\<rparr>\<rparr>
      tape_submit tape_kwrite (Ptr ()) False
      \<lparr>has_setup_pointers = True, setup_pointers_result = True, has_hardlog_active = True, has_microlog_active = True\<rparr>
      (host_at 0 0) = Inr (- 1, s') \<and> auditd_running s'"
proof -
  define e where "e = \<lparr>env_blkdev = NullPtr, env_bio = NullPtr, env_welcome_page = True,
        env_vmalloc = (\<lambda>n. Some \<lparr>cells = (\<lambda>_. NUL), bsize = n, live = True\<rparr>), env_file = Ptr \<lparr>f_pos = 0\<rparr>\<rparr>"
  have "\<exists>b. vsnprintf \<lparr>cells = (\<lambda>_. NUL), bsize = 4096, live = True\<rparr> 0 512 (''Welcome to HARDLOG!'' @ [NEWLINE]) = Inr (b, 20)
      \<and> live b \<and> bsize b = 4096"
    by (simp add: vsnprintf_def store_def)
  then obtain b where b: "vsnprintf \<lparr>cells = (\<lambda>_. NUL), bsize = 4096, live = True\<rparr> 0 512 (''Welcome to HARDLOG!'' @ [NEWLINE]) = Inr (b, 20)"
      "live b" "bsize b = 4096" by blast
  have "\<exists>u. usb_open (biof \<lparr>biof = False, microlog = False\<rparr>) e tape_submit tape_kwrite (audit_cbuff (host_at 0 0)) (usb_state (host_at 0 0)) = Inr (True, u)"
    using b by (simp add: usb_open_def e_def Let_def fs_open_def load_at_def load_def kernel_write_file_def tape_kwrite_def free_block_def
        flip: length_greater_0_conv)
  then obtain u where o: "usb_open (biof \<lparr>biof = False, microlog = False\<rparr>) e tape_submit tape_kwrite (audit_cbuff (host_at 0 0)) (usb_state (host_at 0 0)) = Inr (True, u)" ..
  show ?thesis
    using failed_init_leaves_daemon [OF o, of "Ptr ()" False
      "\<lparr>has_setup_pointers = True, setup_pointers_result = True, has_hardlog_active = True, has_microlog_active = True\<rparr>"]
    unfolding e_def by auto
qed

text \<open>
  Records that end after the daemon has stopped are lost. What the other threads append between
  the final flush and the teardown of the logger never reaches the device; its content is that of
  the final flush.
\<close>

theorem late_records_lost:
  assumes "auditd_final write elapsed s = Inr s1" and "hostbuf_ok (audit_cbuff s1)"
    and "appended (s1\<lparr>auditd_running := False\<rparr>) xs (others (s1\<lparr>auditd_running := False\<rparr>))"
    and "\<And>d. stored (close d) = stored d"
  shows "\<exists>s'. hardlog_enable_exit cfg cpus write elapsed close others s = Inr s'
    \<and> stored (dev (usb_state s')) = stored (dev (usb_state s1))"
proof -
  let ?s3 = "(others (s1\<lparr>auditd_running := False\<rparr>))\<lparr>usb_state :=
     usb_close (biof cfg) close (usb_state (others (s1\<lparr>auditd_running := False\<rparr>)))\<rparr>"
  have u: "usb_state (others (s1\<lparr>auditd_running := False\<rparr>)) = usb_state s1"
    and ok: "hostbuf_ok (audit_cbuff ?s3)" using assms(3) by (simp_all add: appended_def)
  from ok obtain b where "buffer (audit_cbuff ?s3) = Some b" "live b" by (rule hostbuf_okE)
  then obtain s4 where "hardlog_logger_teardown ?s3 = Inr s4" "usb_state s4 = usb_state ?s3"
    by (cases "hardlog_active_ptr ?s3"; cases "hardlog_microlog_active_ptr ?s3")
      (simp_all add: hardlog_logger_teardown_def Let_def free_block_def)
  moreover have "stored (dev (usb_state ?s3)) = stored (dev (usb_state s1))"
    using u assms(4) by (simp add: usb_close_def bio_close_def fs_close_def)
  ultimately show ?thesis
    using assms(1) by (simp add: hardlog_enable_exit_def Let_def)
qed

theorem late_records_lost_witness:
  "\<exists>s'. hardlog_enable_exit \<lparr>biof = True, microlog = False\<rparr> 4 (bio_write tape_submit) 3 id
      (commit_record False 0 ''late'') (host_at 9 9) = Inr s' \<and> dev (usb_state s') = []"
proof -
  have f: "auditd_final (bio_write tape_submit) 3 (host_at 9 9) = Inr (host_at 9 9)"
    by (simp add: auditd_final_def host_at_facts)
  have "appended ((host_at 9 9)\<lparr>auditd_running := False\<rparr>) ''late'' (commit_record False 0 ''late'' ((host_at 9 9)\<lparr>auditd_running := False\<rparr>))"
    by (rule commit_appends) (simp_all add: host_at_facts CBUFF_eq)
  from late_records_lost [where stored = id and close = id and xs = "''late''" and cfg = "\<lparr>biof = True, microlog = False\<rparr>"
      and cpus = 4 and others = "commit_record False 0 ''late''", OF f host_at_facts(1) this]
  show ?thesis by (auto simp: host_at_facts)
qed

end
