(* ===== verification/HL_Concurrency.thy ===== *)
theory HL_Concurrency
  imports HL_Main
begin

text \<open>
  The producers (\<open>audit_log_end_hardlog\<close> on any number of threads) and the flusher
  (\<open>hardlog_auditd_thread\<close>) as one transition system. Every access to the shared state is a step of
  its own: taking the mutex, leaving the wait for room, the copy, the new head, the unlock, the end of
  a priority wait; and for the flusher the read of the head (the tail is read with it, as only the
  flusher writes it), the write, in as many pieces of any size as the block layer takes, between which
  the producers go on, and the new tail.

  The write is the delivery of the queue, which \<open>HL_Bio\<close> shows of the block write for flushes that
  start at a page or are short and do not wrap. Two ghost fields record all bytes ever appended and
  how many of them the tail has passed.
\<close>

section \<open>States and steps\<close>

datatype producer_pc =
    Idle
  | WantLock string bool
  | HaveLock string bool
  | HasSpace u64 string bool
  | Copied u64 string bool
  | Advanced u64 bool
  | WaitFlush u64

datatype flusher_pc = FIdle | FRead u64 u64 | FSent u64

record system =
  ring :: audit_circ_buffer
  lock :: bool
  producer :: "nat \<Rightarrow> producer_pc"
  flusher :: flusher_pc
  delivered :: string
  appended_log :: string
  acked :: nat

definition copy_record :: "u64 \<Rightarrow> string \<Rightarrow> audit_circ_buffer \<Rightarrow> audit_circ_buffer" where
  "copy_record h rec cb = (case buffer cb of None \<Rightarrow> cb
     | Some b \<Rightarrow> cb\<lparr>buffer := Some (b\<lparr>cells := write_mem (cells b) (unat (h mod of_nat CBUFF)) rec\<rparr>)\<rparr>)"

definition advance_head :: "string \<Rightarrow> audit_circ_buffer \<Rightarrow> audit_circ_buffer" where
  "advance_head rec cb = cb\<lparr>head := head cb + of_nat (length rec)\<rparr>"

text \<open>\<open>ok\<close> says which records the threads may end.\<close>

inductive step :: "(string \<Rightarrow> bool) \<Rightarrow> system \<Rightarrow> system \<Rightarrow> bool" for ok :: "string \<Rightarrow> bool" where
  begin_event: "producer s p = Idle \<Longrightarrow> ok rec \<Longrightarrow>
     step ok s (s\<lparr>producer := (producer s)(p := WantLock rec prio)\<rparr>)"
| acquire: "producer s p = WantLock rec prio \<Longrightarrow> \<not> lock s \<Longrightarrow>
     step ok s (s\<lparr>lock := True, producer := (producer s)(p := HaveLock rec prio)\<rparr>)"
| space: "producer s p = HaveLock rec prio \<Longrightarrow> \<not> head (ring s) - tail (ring s) \<ge> of_nat CBUFF \<Longrightarrow>
     step ok s (s\<lparr>producer := (producer s)(p := HasSpace (head (ring s)) rec prio)\<rparr>)"
| copy: "producer s p = HasSpace h rec prio \<Longrightarrow>
     step ok s (s\<lparr>ring := copy_record h rec (ring s), producer := (producer s)(p := Copied h rec prio)\<rparr>)"
| advance: "producer s p = Copied h rec prio \<Longrightarrow>
     step ok s (s\<lparr>ring := advance_head rec (ring s), appended_log := appended_log s @ rec,
       producer := (producer s)(p := Advanced (head (advance_head rec (ring s))) prio)\<rparr>)"
| release: "producer s p = Advanced target prio \<Longrightarrow>
     step ok s (s\<lparr>lock := False, producer := (producer s)(p := (if prio then WaitFlush target else Idle))\<rparr>)"
| flushed: "producer s p = WaitFlush target \<Longrightarrow> \<not> tail (ring s) < target \<Longrightarrow>
     step ok s (s\<lparr>producer := (producer s)(p := Idle)\<rparr>)"
| flush_read: "flusher s = FIdle \<Longrightarrow>
     step ok s (s\<lparr>flusher := FRead (head (ring s)) (tail (ring s))\<rparr>)"
| flush_send: "flusher s = FRead end pos \<Longrightarrow> 0 < n \<Longrightarrow> n \<le> unat (end - pos) \<Longrightarrow>
     step ok s (s\<lparr>flusher := FRead end (pos + of_nat n),
       delivered := delivered s @ ring_bytes CBUFF (ring_mem (ring s)) (unat pos) n\<rparr>)"
| flush_done: "flusher s = FRead end end \<Longrightarrow>
     step ok s (s\<lparr>flusher := FSent end\<rparr>)"
| flush_tail: "flusher s = FSent end \<Longrightarrow>
     step ok s (s\<lparr>ring := (ring s)\<lparr>tail := end\<rparr>, acked := acked s + unat (end - tail (ring s)), flusher := FIdle\<rparr>)"

definition start_system :: "audit_circ_buffer \<Rightarrow> system" where
  "start_system cb = \<lparr>ring = cb\<lparr>head := 0, tail := 0\<rparr>, lock = False, producer = (\<lambda>_. Idle), flusher = FIdle,
     delivered = [], appended_log = [], acked = 0\<rparr>"

inductive reachable :: "(string \<Rightarrow> bool) \<Rightarrow> audit_circ_buffer \<Rightarrow> system \<Rightarrow> bool" for ok cb where
  reachable_start: "reachable ok cb (start_system cb)"
| reachable_step: "reachable ok cb s \<Longrightarrow> step ok s s' \<Longrightarrow> reachable ok cb s'"

inductive_cases stepE: "step ok s s'"

section \<open>Safety for records of any length\<close>

fun critical :: "producer_pc \<Rightarrow> bool" where
  "critical Idle = False"
| "critical (WantLock _ _) = False"
| "critical (WaitFlush _) = False"
| "critical _ = True"

fun pc_inv :: "system \<Rightarrow> producer_pc \<Rightarrow> bool" where
  "pc_inv s Idle = True"
| "pc_inv s (WantLock rec _) = (length rec \<le> 512)"
| "pc_inv s (HaveLock rec _) = (length rec \<le> 512)"
| "pc_inv s (HasSpace h rec _) = (length rec \<le> 512 \<and> h = head (ring s) \<and> length (appended_log s) - acked s < CBUFF)"
| "pc_inv s (Copied h rec _) = (length rec \<le> 512 \<and> h = head (ring s) \<and> length (appended_log s) - acked s < CBUFF)"
| "pc_inv s (Advanced t _) = (\<exists>n \<le> length (appended_log s). t = of_nat n)"
| "pc_inv s (WaitFlush t) = (\<exists>n \<le> length (appended_log s). t = of_nat n)"

fun flusher_inv :: "system \<Rightarrow> flusher_pc \<Rightarrow> bool" where
  "flusher_inv s FIdle = True"
| "flusher_inv s (FRead e pos) = (\<exists>k j. acked s \<le> j \<and> j \<le> k \<and> k \<le> length (appended_log s) \<and> e = of_nat k \<and> pos = of_nat j)"
| "flusher_inv s (FSent e) = (\<exists>k. acked s \<le> k \<and> k \<le> length (appended_log s) \<and> e = of_nat k)"

definition mutex_inv :: "system \<Rightarrow> bool" where
  "mutex_inv s \<longleftrightarrow> (\<forall>p q. critical (producer s p) \<longrightarrow> critical (producer s q) \<longrightarrow> p = q)
     \<and> (lock s \<longleftrightarrow> (\<exists>p. critical (producer s p)))"

definition counter_inv :: "system \<Rightarrow> bool" where
  "counter_inv s \<longleftrightarrow> hostbuf_ok (ring s)
     \<and> head (ring s) = of_nat (length (appended_log s)) \<and> tail (ring s) = of_nat (acked s)
     \<and> acked s \<le> length (appended_log s) \<and> length (appended_log s) - acked s \<le> CBUFF + 511"

definition inv :: "system \<Rightarrow> bool" where
  "inv s \<longleftrightarrow> mutex_inv s \<and> counter_inv s \<and> (\<forall>p. pc_inv s (producer s p)) \<and> flusher_inv s (flusher s)"

lemma unat_diff_small:
  assumes "b \<le> a" and "a - b < 2 ^ 64"
  shows "unat (of_nat a - of_nat b :: u64) = a - b"
proof -
  have "(of_nat a - of_nat b :: u64) = of_nat (a - b)" using assms(1) by (simp add: of_nat_diff)
  then show ?thesis using assms(2) by (simp add: unat_of_nat take_bit_eq_mod)
qed

lemma inv_used: "inv s \<Longrightarrow> used (ring s) = length (appended_log s) - acked s"
  by (simp add: inv_def counter_inv_def used_def unat_diff_small CBUFF_eq)

lemma copy_record_frame [simp]:
  "head (copy_record h rec cb) = head cb" "tail (copy_record h rec cb) = tail cb"
  "hostbuf_ok (copy_record h rec cb) = hostbuf_ok cb"
  by (auto simp: copy_record_def hostbuf_ok_def split: option.splits)

lemma advance_head_frame [simp]:
  "tail (advance_head rec cb) = tail cb" "hostbuf_ok (advance_head rec cb) = hostbuf_ok cb"
  "ring_mem (advance_head rec cb) = ring_mem cb"
  by (simp_all add: advance_head_def hostbuf_ok_def ring_mem_def)

text \<open>The two steps of the critical section are the append of the sequential model.\<close>

lemma copy_advance: "hostbuf_ok cb \<Longrightarrow> advance_head rec (copy_record (head cb) rec cb) = push_bytes cb rec"
  by (auto simp: advance_head_def copy_record_def push_bytes_def host_ring.unat_mod_cap elim!: hostbuf_okE)

lemma mutex_same:
  "(\<And>q. critical (producer s' q) = critical (producer s q)) \<Longrightarrow> lock s' = lock s \<Longrightarrow> mutex_inv s \<Longrightarrow> mutex_inv s'"
  by (simp add: mutex_inv_def)

lemma mutex_step: "step ok s s' \<Longrightarrow> mutex_inv s \<Longrightarrow> mutex_inv s'"
proof (induction rule: step.induct)
  case (acquire s p rec prio)
  then show ?case by (auto simp: mutex_inv_def split: if_splits)
next
  case (release s p target prio)
  then have "critical (producer s q) \<longleftrightarrow> q = p" for q
    by (metis critical.simps(7) mutex_inv_def)
  then show ?case using release by (auto simp: mutex_inv_def)
qed (erule mutex_same [rotated 2]; simp)+

text \<open>In the critical section the others' assertions do not depend on what the step changes.\<close>

lemma others_outside:
  assumes "mutex_inv s" and "critical (producer s p)" and "q \<noteq> p"
  shows "\<not> critical (producer s q)"
  using assms by (auto simp: mutex_inv_def)

lemma pc_inv_mono:
  assumes "pc_inv s c" and "length (appended_log s) \<le> length (appended_log s')"
    and "critical c \<Longrightarrow> head (ring s') = head (ring s) \<and> appended_log s' = appended_log s \<and> acked s \<le> acked s'"
  shows "pc_inv s' c"
  using assms by (cases c) (auto dest: order_trans)

lemma flusher_inv_mono:
  assumes "flusher_inv s f" and "length (appended_log s) \<le> length (appended_log s')"
    and "acked s' = acked s" and "tail (ring s') = tail (ring s)"
  shows "flusher_inv s' f"
  using assms by (cases f) (auto dest: order_trans)

lemma sending_left:
  assumes "counter_inv s" and "acked s \<le> j" and "j \<le> k" and "k \<le> length (appended_log s)"
  shows "unat (of_nat k - of_nat j :: u64) = k - j"
proof (rule unat_diff_small [OF assms(3)])
  have "k - j \<le> length (appended_log s) - acked s" using assms(2,4) by (rule diff_le_mono2 [THEN order_trans, OF _ diff_le_mono])
  also have "\<dots> < 2 ^ 64" using assms(1) by (simp add: counter_inv_def CBUFF_eq)
  finally show "k - j < 2 ^ 64" .
qed

lemma inv_step:
  assumes "step ok s s'" and "inv s" and ok: "\<And>rec. ok rec \<Longrightarrow> length rec \<le> 512"
  shows "inv s'"
proof -
  have m: "mutex_inv s" "mutex_inv s'" using assms(1,2) mutex_step by (auto simp: inv_def)
  have c: "counter_inv s" and pcs: "\<And>p. pc_inv s (producer s p)" and f: "flusher_inv s (flusher s)"
    using assms(2) by (simp_all add: inv_def)
  have mono: "pc_inv s' (producer s q)" if "\<And>q. critical (producer s q) \<Longrightarrow> head (ring s') = head (ring s)
      \<and> appended_log s' = appended_log s \<and> acked s \<le> acked s'"
      "length (appended_log s) \<le> length (appended_log s')" for q
    using pc_inv_mono [OF pcs that(2)] that(1) by blast
  from assms(1) have "counter_inv s' \<and> (\<forall>p. pc_inv s' (producer s' p)) \<and> flusher_inv s' (flusher s')"
  proof (cases rule: step.cases)
    case (begin_event p rec prio)
    have "pc_inv s' (producer s q)" for q by (rule mono) (simp_all add: begin_event)
    moreover have "flusher_inv s' (flusher s)" by (rule flusher_inv_mono [OF f]) (simp_all add: begin_event)
    ultimately show ?thesis using begin_event c ok by (simp add: counter_inv_def)
  next
    case (acquire p rec prio)
    have "pc_inv s' (producer s q)" for q by (rule mono) (simp_all add: acquire)
    moreover have "flusher_inv s' (flusher s)" by (rule flusher_inv_mono [OF f]) (simp_all add: acquire)
    moreover have "length rec \<le> 512" using pcs [of p] acquire by simp
    ultimately show ?thesis using acquire c by (simp add: counter_inv_def)
  next
    case (space p rec prio)
    have "pc_inv s' (producer s q)" for q by (rule mono) (simp_all add: space)
    moreover have "flusher_inv s' (flusher s)" by (rule flusher_inv_mono [OF f]) (simp_all add: space)
    moreover have "length rec \<le> 512" using pcs [of p] space by simp
    moreover have "length (appended_log s) - acked s < CBUFF"
      using space(3) inv_used [OF assms(2)] by (simp add: used_def word_le_nat_alt host_ring.unat_cap)
    ultimately show ?thesis using space c by (simp add: counter_inv_def)
  next
    case (copy p h rec prio)
    have "pc_inv s' (producer s q)" for q by (rule mono) (simp_all add: copy)
    moreover have "flusher_inv s' (flusher s)" by (rule flusher_inv_mono [OF f]) (simp_all add: copy)
    moreover have "length rec \<le> 512 \<and> h = head (ring s) \<and> length (appended_log s) - acked s < CBUFF"
      using pcs [of p] copy by simp
    ultimately show ?thesis using copy c by (simp add: counter_inv_def)
  next
    case (advance p h rec prio)
    have out: "\<not> critical (producer s q)" if "q \<noteq> p" for q
      using others_outside [OF m(1) _ that] advance by simp
    have "pc_inv s' (producer s q)" if "q \<noteq> p" for q
      using out [OF that] by (intro pc_inv_mono [OF pcs]) (simp_all add: advance)
    moreover have "flusher_inv s' (flusher s)" by (rule flusher_inv_mono [OF f]) (simp_all add: advance)
    moreover have "length rec \<le> 512" "length (appended_log s) - acked s < CBUFF"
      using pcs [of p] advance by simp_all
    moreover have "head (advance_head rec (ring s)) = of_nat (length (appended_log s) + length rec)"
      using c by (simp add: advance_head_def counter_inv_def)
    ultimately show ?thesis using advance c by (auto simp: counter_inv_def)
  next
    case (release p target prio)
    have "pc_inv s' (producer s q)" for q by (rule mono) (simp_all add: release)
    moreover have "flusher_inv s' (flusher s)" by (rule flusher_inv_mono [OF f]) (simp_all add: release)
    moreover have "\<exists>n \<le> length (appended_log s). target = of_nat n" using pcs [of p] release by simp
    ultimately show ?thesis using release c by (auto simp: counter_inv_def)
  next
    case (flushed p target)
    have "pc_inv s' (producer s q)" for q by (rule mono) (simp_all add: flushed)
    moreover have "flusher_inv s' (flusher s)" by (rule flusher_inv_mono [OF f]) (simp_all add: flushed)
    ultimately show ?thesis using flushed c by (simp add: counter_inv_def)
  next
    case flush_read
    have "pc_inv s' (producer s q)" for q by (rule mono) (simp_all add: flush_read)
    then show ?thesis using flush_read c by (fastforce simp: counter_inv_def)
  next
    case (flush_send "end" pos n)
    have pc: "pc_inv s' (producer s q)" for q by (rule mono) (simp_all add: flush_send)
    obtain k j where k: "acked s \<le> j" "j \<le> k" "k \<le> length (appended_log s)" "end = of_nat k" "pos = of_nat j"
      using f flush_send by auto
    have "n \<le> k - j" using flush_send(4) sending_left [OF c k(1-3)] k(4,5) by simp
    then have "acked s \<le> j + n" "j + n \<le> k" using k(1,2) by simp_all
    moreover have "pos + of_nat n = of_nat (j + n)" using k(5) by simp
    moreover have "flusher s' = FRead end (pos + of_nat n)" "acked s' = acked s" "appended_log s' = appended_log s" using flush_send by simp_all
    ultimately have "flusher_inv s' (flusher s')" using k(3,4) by (simp only: flusher_inv.simps) blast
    then show ?thesis using flush_send c pc by (simp add: counter_inv_def)
  next
    case (flush_done "end")
    have "pc_inv s' (producer s q)" for q by (rule mono) (simp_all add: flush_done)
    moreover have "\<exists>k. acked s \<le> k \<and> k \<le> length (appended_log s) \<and> end = of_nat k" using f flush_done by auto
    ultimately show ?thesis using flush_done c by (auto simp: counter_inv_def)
  next
    case (flush_tail "end")
    have k: "\<exists>k. acked s \<le> k \<and> k \<le> length (appended_log s) \<and> end = of_nat k" using f flush_tail by simp
    then obtain k where k: "acked s \<le> k" "k \<le> length (appended_log s)" "end = of_nat k" by blast
    have "k - acked s \<le> length (appended_log s) - acked s" using k(2) by (rule diff_le_mono)
    also have "\<dots> < 2 ^ 64" using c by (simp add: counter_inv_def CBUFF_eq)
    finally have "k - acked s < 2 ^ 64" .
    then have a: "acked s' = k" using flush_tail k c by (simp add: counter_inv_def unat_diff_small)
    have "pc_inv s' (producer s q)" for q by (rule mono) (use flush_tail a k in simp_all)
    then show ?thesis using flush_tail c k a by (auto simp: counter_inv_def hostbuf_ok_def)
  qed
  with m(2) show ?thesis by (simp add: inv_def)
qed

lemma inv_start: "hostbuf_ok cb \<Longrightarrow> inv (start_system cb)"
  by (simp add: inv_def mutex_inv_def counter_inv_def start_system_def hostbuf_ok_def)

lemma inv_reachable:
  assumes "reachable ok cb s" and "hostbuf_ok cb" and "\<And>rec. ok rec \<Longrightarrow> length rec \<le> 512"
  shows "inv s"
  using assms(1)
proof induction
  case reachable_start
  show ?case using assms(2) by (rule inv_start)
next
  case (reachable_step s s')
  then show ?case using inv_step assms(3) by blast
qed

section \<open>Integrity of the byte stream\<close>

text \<open>
  A record fits when the queue has room for it and it does not cross the capacity. If every record fits
  when it is copied, every step keeps the bytes of the queue.
\<close>

definition fits :: "system \<Rightarrow> string \<Rightarrow> bool" where
  "fits s rec \<longleftrightarrow> length (appended_log s) - acked s + length rec \<le> CBUFF
     \<and> length (appended_log s) mod CBUFF + length rec \<le> CBUFF"

definition copies_fit :: "system \<Rightarrow> bool" where
  "copies_fit s \<longleftrightarrow> (\<forall>p h rec prio. producer s p = HasSpace h rec prio \<longrightarrow> fits s rec)"

inductive fit_reachable :: "(string \<Rightarrow> bool) \<Rightarrow> audit_circ_buffer \<Rightarrow> system \<Rightarrow> bool" for ok cb where
  fit_start: "fit_reachable ok cb (start_system cb)"
| fit_step: "fit_reachable ok cb s \<Longrightarrow> copies_fit s \<Longrightarrow> step ok s s' \<Longrightarrow> fit_reachable ok cb s'"

fun copied_inv :: "system \<Rightarrow> producer_pc \<Rightarrow> bool" where
  "copied_inv s (Copied h rec _) =
     (ring_bytes CBUFF (ring_mem (ring s)) (acked s) (length (appended_log s) - acked s + length rec)
        = drop (acked s) (appended_log s) @ rec)"
| "copied_inv s _ = True"

fun sent_inv :: "system \<Rightarrow> flusher_pc \<Rightarrow> bool" where
  "sent_inv s FIdle = (delivered s = take (acked s) (appended_log s))"
| "sent_inv s (FRead e pos) = (\<exists>k j. acked s \<le> j \<and> j \<le> k \<and> k \<le> length (appended_log s) \<and> e = of_nat k \<and> pos = of_nat j
     \<and> delivered s = take j (appended_log s))"
| "sent_inv s (FSent e) = (\<exists>k. acked s \<le> k \<and> k \<le> length (appended_log s) \<and> e = of_nat k
     \<and> delivered s = take k (appended_log s))"

definition integrity :: "system \<Rightarrow> bool" where
  "integrity s \<longleftrightarrow> ring_bytes CBUFF (ring_mem (ring s)) (acked s) (length (appended_log s) - acked s) = drop (acked s) (appended_log s)
     \<and> (\<forall>p. copied_inv s (producer s p)) \<and> sent_inv s (flusher s)"

lemma ring_mem_copy:
  "hostbuf_ok cb \<Longrightarrow> ring_mem (copy_record h rec cb) = write_mem (ring_mem cb) (unat h mod CBUFF) rec"
  by (auto simp: copy_record_def ring_mem_def host_ring.unat_mod_cap elim!: hostbuf_okE)

lemma of_nat_index: "unat (of_nat n :: u64) mod CBUFF = n mod CBUFF"
  using mod_mod_cancel [OF host_ring.cap_dvd, of n] by (simp add: unat_of_nat take_bit_eq_mod)

lemma ring_bytes_of_nat: "ring_bytes CBUFF m (unat (of_nat n :: u64)) k = ring_bytes CBUFF m n k"
  by (metis of_nat_index ring_bytes_mod)

lemma copy_integrity:
  assumes "inv s" and "integrity s" and "producer s p = HasSpace h rec prio" and "copies_fit s"
  shows "ring_bytes CBUFF (ring_mem (copy_record h rec (ring s))) (acked s) (length (appended_log s) - acked s + length rec)
    = drop (acked s) (appended_log s) @ rec"
proof -
  let ?n = "length (appended_log s)" and ?a = "acked s"
  have c: "counter_inv s" and pc: "pc_inv s (producer s p)" using assms(1) by (simp_all add: inv_def)
  have h: "h = of_nat ?n" "tail (ring s) = of_nat ?a" "?a \<le> ?n" "hostbuf_ok (ring s)" and lt: "?n - ?a < CBUFF"
    using c pc assms(3) by (auto simp: counter_inv_def)
  have f: "fits s rec" using assms(3,4) unfolding copies_fit_def by blast
  have u: "unat (h - tail (ring s)) = ?n - ?a"
    using h lt CBUFF_eq by (simp add: unat_diff_small)
  have room: "unat (h - tail (ring s)) + length rec \<le> CBUFF" using f u by (simp add: fits_def)
  have straight: "unat h mod CBUFF + length rec \<le> CBUFF" using f by (simp add: fits_def h(1) of_nat_index)
  have old: "ring_bytes CBUFF (ring_mem (ring s)) ?a (?n - ?a) = drop ?a (appended_log s)"
    using assms(2) by (simp add: integrity_def)
  from host_ring.push_appends [OF room straight, of "ring_mem (ring s)"]
  have "ring_bytes CBUFF (write_mem (ring_mem (ring s)) (unat h mod CBUFF) rec) ?a (?n - ?a + length rec)
      = ring_bytes CBUFF (ring_mem (ring s)) ?a (?n - ?a) @ rec"
    unfolding u unfolding h(2) ring_bytes_of_nat .
  then show ?thesis by (simp only: ring_mem_copy [OF h(4)] old)
qed

lemma sent_inv_mono:
  assumes "sent_inv s f" and "appended_log s' = appended_log s @ xs" and "acked s' = acked s"
    and "delivered s' = delivered s" and "acked s \<le> length (appended_log s)"
  shows "sent_inv s' f"
proof (cases f)
  case FIdle
  with assms show ?thesis by simp
next
  case (FRead e pos)
  with assms(1) obtain k j where k: "acked s \<le> j" "j \<le> k" "k \<le> length (appended_log s)" "e = of_nat k" "pos = of_nat j"
      "delivered s = take j (appended_log s)" by auto
  then have "k \<le> length (appended_log s')" "delivered s' = take j (appended_log s')" using assms(2,4) by simp_all
  then show ?thesis using FRead k assms(3) by auto
next
  case (FSent e)
  with assms(1) obtain k where k: "acked s \<le> k" "k \<le> length (appended_log s)" "e = of_nat k"
      "delivered s = take k (appended_log s)" by auto
  then show ?thesis using FSent assms(2-4) by (auto intro!: exI [of _ k])
qed

lemma integrity_step:
  assumes "step ok s s'" and "inv s" and "integrity s" and "copies_fit s"
  shows "integrity s'"
proof -
  have i: "ring_bytes CBUFF (ring_mem (ring s)) (acked s) (length (appended_log s) - acked s) = drop (acked s) (appended_log s)"
      "\<And>p. copied_inv s (producer s p)" "sent_inv s (flusher s)"
    using assms(3) by (simp_all add: integrity_def)
  have m: "mutex_inv s" and c: "counter_inv s" using assms(2) by (simp_all add: inv_def)
  have le: "acked s \<le> length (appended_log s)" using c by (simp add: counter_inv_def)
  have same: "copied_inv s' (producer s q)" if "ring_mem (ring s') = ring_mem (ring s)" "appended_log s' = appended_log s" "acked s' = acked s" for q
    using i(2) [of q] that by (cases "producer s q") simp_all
  have other: "copied_inv s' (producer s q)" if "\<not> critical (producer s q)" for q
    using that by (cases "producer s q") simp_all
  have sent: "sent_inv s' (flusher s)" if "appended_log s' = appended_log s @ xs" "acked s' = acked s" "delivered s' = delivered s" for xs
    using i(3) that le by (rule sent_inv_mono)
  from assms(1) show ?thesis
  proof (cases rule: step.cases)
    case (begin_event p rec prio)
    have "copied_inv s' (producer s q)" for q by (rule same) (simp_all add: begin_event)
    moreover have "sent_inv s' (flusher s)" by (rule sent [of "[]"]) (simp_all add: begin_event)
    ultimately show ?thesis using begin_event i by (simp add: integrity_def)
  next
    case (acquire p rec prio)
    have "copied_inv s' (producer s q)" for q by (rule same) (simp_all add: acquire)
    moreover have "sent_inv s' (flusher s)" by (rule sent [of "[]"]) (simp_all add: acquire)
    ultimately show ?thesis using acquire i by (simp add: integrity_def)
  next
    case (space p rec prio)
    have "copied_inv s' (producer s q)" for q by (rule same) (simp_all add: space)
    moreover have "sent_inv s' (flusher s)" by (rule sent [of "[]"]) (simp_all add: space)
    ultimately show ?thesis using space i by (simp add: integrity_def)
  next
    case (copy p h rec prio)
    note cp = copy_integrity [OF assms(2,3) copy(2) assms(4)]
    have out: "copied_inv s' (producer s q)" if "q \<noteq> p" for q
      using others_outside [OF m _ that] copy by (intro other) simp
    have "take (length (appended_log s) - acked s)
        (ring_bytes CBUFF (ring_mem (copy_record h rec (ring s))) (acked s) (length (appended_log s) - acked s + length rec))
       = drop (acked s) (appended_log s)"
      by (simp only: cp) simp
    then have "ring_bytes CBUFF (ring_mem (copy_record h rec (ring s))) (acked s) (length (appended_log s) - acked s)
       = drop (acked s) (appended_log s)"
      by (simp add: take_ring_bytes)
    moreover have "sent_inv s' (flusher s)" by (rule sent [of "[]"]) (simp_all add: copy)
    ultimately show ?thesis using copy i cp out by (simp add: integrity_def)
  next
    case (advance p h rec prio)
    have out: "copied_inv s' (producer s q)" if "q \<noteq> p" for q
      using others_outside [OF m _ that] advance by (intro other) simp
    have "sent_inv s' (flusher s)" by (rule sent [of rec]) (simp_all add: advance)
    moreover have "ring_bytes CBUFF (ring_mem (ring s)) (acked s) (length (appended_log s) - acked s + length rec)
        = drop (acked s) (appended_log s) @ rec"
      using i(2) [of p] advance by simp
    moreover have "length (appended_log s @ rec) - acked s = length (appended_log s) - acked s + length rec" using le by simp
    ultimately show ?thesis using advance i out le by (simp add: integrity_def)
  next
    case (release p target prio)
    have "copied_inv s' (producer s q)" for q by (rule same) (simp_all add: release)
    moreover have "sent_inv s' (flusher s)" by (rule sent [of "[]"]) (simp_all add: release)
    ultimately show ?thesis using release i by (cases prio) (simp_all add: integrity_def)
  next
    case (flushed p target)
    have "copied_inv s' (producer s q)" for q by (rule same) (simp_all add: flushed)
    moreover have "sent_inv s' (flusher s)" by (rule sent [of "[]"]) (simp_all add: flushed)
    ultimately show ?thesis using flushed i by (simp add: integrity_def)
  next
    case flush_read
    have "copied_inv s' (producer s q)" for q by (rule same) (simp_all add: flush_read)
    then show ?thesis using flush_read i le c by (auto simp: integrity_def counter_inv_def)
  next
    case (flush_send "end" pos n)
    have cp: "copied_inv s' (producer s q)" for q by (rule same) (simp_all add: flush_send)
    obtain k j where k: "acked s \<le> j" "j \<le> k" "k \<le> length (appended_log s)" "end = of_nat k" "pos = of_nat j"
        "delivered s = take j (appended_log s)"
      using i(3) flush_send by auto
    have n: "n \<le> k - j" using flush_send(4) sending_left [OF c k(1-3)] k(4,5) by simp
    have "ring_bytes CBUFF (ring_mem (ring s)) j (length (appended_log s) - j) = drop j (appended_log s)"
      using drop_ring_bytes [of "j - acked s" "length (appended_log s) - acked s" CBUFF "ring_mem (ring s)" "acked s"] i(1) k(1-3) by simp
    then have "ring_bytes CBUFF (ring_mem (ring s)) j n = take n (drop j (appended_log s))"
      using take_ring_bytes [of n "length (appended_log s) - j" CBUFF "ring_mem (ring s)" j] n k(3) by simp
    then have "delivered s' = take (j + n) (appended_log s)"
      using flush_send k(5,6) by (simp add: ring_bytes_of_nat take_add)
    moreover have "acked s \<le> j + n" "j + n \<le> k" using n k(1,2) by simp_all
    moreover have "pos + of_nat n = of_nat (j + n)" using k(5) by simp
    moreover have "flusher s' = FRead end (pos + of_nat n)" "acked s' = acked s" "appended_log s' = appended_log s" using flush_send by simp_all
    ultimately have "sent_inv s' (flusher s')" using k(3,4) by (simp only: sent_inv.simps) blast
    then show ?thesis using flush_send i cp by (simp add: integrity_def)
  next
    case (flush_done "end")
    have cp: "copied_inv s' (producer s q)" for q by (rule same) (simp_all add: flush_done)
    obtain k j where k: "acked s \<le> j" "j \<le> k" "k \<le> length (appended_log s)" "end = of_nat k" "end = of_nat j"
        "delivered s = take j (appended_log s)"
      using i(3) flush_done by auto
    have "k - j = 0" using sending_left [OF c k(1-3)] k(4,5) by simp
    then have "j = k" using k(2) by simp
    then have "sent_inv s' (flusher s')" using flush_done k by auto
    then show ?thesis using flush_done i cp by (simp add: integrity_def)
  next
    case (flush_tail "end")
    obtain k where k: "acked s \<le> k" "k \<le> length (appended_log s)" "end = of_nat k" "delivered s = take k (appended_log s)"
      using i(3) flush_tail by auto
    have d: "k - acked s \<le> length (appended_log s) - acked s" using k(2) by (rule diff_le_mono)
    also have "\<dots> < 2 ^ 64" using c by (simp add: counter_inv_def CBUFF_eq)
    finally have a: "acked s' = k" using flush_tail k c by (simp add: counter_inv_def unat_diff_small)
    have rm: "ring_mem (ring s') = ring_mem (ring s)" using flush_tail by (simp add: ring_mem_def)
    have tail_bytes: "ring_bytes CBUFF m k (n - k) = drop k xs @ ys"
      if "ring_bytes CBUFF m (acked s) (n - acked s) = drop (acked s) xs @ ys" "k \<le> length xs" "length xs \<le> n" for m n xs ys
    proof -
      have "drop (k - acked s) (ring_bytes CBUFF m (acked s) (n - acked s)) = ring_bytes CBUFF m k (n - k)"
        using that(2,3) k(1) by (simp add: drop_ring_bytes)
      then show ?thesis using that k(1) by simp
    qed
    have "copied_inv s' (producer s q)" for q
    proof (cases "producer s q")
      case (Copied h rec prio)
      then have "ring_bytes CBUFF (ring_mem (ring s)) (acked s) ((length (appended_log s) + length rec) - acked s)
          = drop (acked s) (appended_log s) @ rec"
        using i(2) [of q] le by simp
      from tail_bytes [OF this k(2)] show ?thesis using Copied k(2) a rm flush_tail by simp
    qed simp_all
    then show ?thesis
      using flush_tail i k a rm tail_bytes [of "ring_mem (ring s)" "length (appended_log s)" "appended_log s" "[]"]
      by (simp add: integrity_def)
  qed
qed

lemma integrity_start: "integrity (start_system cb)"
  by (simp add: integrity_def start_system_def)

lemma fit_integrity:
  assumes "fit_reachable ok cb s" and "hostbuf_ok cb" and "\<And>rec. ok rec \<Longrightarrow> length rec \<le> 512"
  shows "integrity s \<and> inv s"
  using assms(1)
proof induction
  case fit_start
  show ?case using assms(2) by (simp add: integrity_start inv_start)
next
  case (fit_step s s')
  then show ?case using inv_step [OF fit_step(3)] integrity_step [OF fit_step(3)] assms(3) by blast
qed

subsection \<open>Records of one length\<close>

text \<open>
  With records of one length \<open>L\<close> that divides the capacity, a buffer that is not full has room for one
  more, and no record crosses the capacity.
\<close>

fun length_inv :: "nat \<Rightarrow> producer_pc \<Rightarrow> bool" where
  "length_inv L (WantLock rec _) = (length rec = L)"
| "length_inv L (HaveLock rec _) = (length rec = L)"
| "length_inv L (HasSpace _ rec _) = (length rec = L)"
| "length_inv L (Copied _ rec _) = (length rec = L)"
| "length_inv L _ = True"

fun end_inv :: "nat \<Rightarrow> flusher_pc \<Rightarrow> bool" where
  "end_inv L FIdle = True"
| "end_inv L (FRead e st) = (L dvd unat e)"
| "end_inv L (FSent e) = (L dvd unat e)"

definition units :: "nat \<Rightarrow> system \<Rightarrow> bool" where
  "units L s \<longleftrightarrow> L dvd length (appended_log s) \<and> L dvd acked s \<and> (\<forall>p. length_inv L (producer s p)) \<and> end_inv L (flusher s)"

lemma dvd_room:
  assumes "L dvd a" and "L dvd b" and "a < (b :: nat)"
  shows "a + L \<le> b"
  using assms by (metis add_le_cancel_left dvd_diff_nat dvd_imp_le le_add_diff_inverse less_imp_le zero_less_diff)

lemma dvd_of_nat: "L dvd 2 ^ 64 \<Longrightarrow> L dvd n \<Longrightarrow> L dvd unat (of_nat n :: u64)"
  by (simp add: unat_of_nat take_bit_eq_mod dvd_mod)

lemma dvd_difference: "L dvd 2 ^ 64 \<Longrightarrow> L dvd unat a \<Longrightarrow> L dvd unat b \<Longrightarrow> L dvd unat (a - b :: u64)"
  by (simp add: unat_sub_if')

lemma lengths_step:
  assumes "step ok s s'" and "inv s" and "units L s" and "L dvd CBUFF" and ok: "\<And>rec. ok rec \<Longrightarrow> length rec = L"
  shows "units L s'"
proof -
  have u: "L dvd length (appended_log s)" "L dvd acked s" "\<And>p. length_inv L (producer s p)" "end_inv L (flusher s)"
    using assms(3) by (simp_all add: units_def)
  have L: "L dvd 2 ^ 64" using assms(4) host_ring.cap_dvd by (rule dvd_trans)
  have c: "head (ring s) = of_nat (length (appended_log s))" "tail (ring s) = of_nat (acked s)"
    using assms(2) by (simp_all add: inv_def counter_inv_def)
  from assms(1) show ?thesis
  proof (cases rule: step.cases)
    case (begin_event p rec prio)
    then show ?thesis using u ok by (simp add: units_def)
  next
    case (acquire p rec prio)
    then show ?thesis using u u(3) [of p] by (simp add: units_def)
  next
    case (space p rec prio)
    then show ?thesis using u u(3) [of p] by (simp add: units_def)
  next
    case (copy p h rec prio)
    then show ?thesis using u u(3) [of p] by (simp add: units_def)
  next
    case (advance p h rec prio)
    then show ?thesis using u u(3) [of p] by (simp add: units_def)
  next
    case (release p target prio)
    then show ?thesis using u by (cases prio) (simp_all add: units_def)
  next
    case (flushed p target)
    then show ?thesis using u by (simp add: units_def)
  next
    case flush_read
    then show ?thesis using u c dvd_of_nat [OF L] by (simp add: units_def)
  next
    case (flush_send "end" pos n)
    then show ?thesis using u by (simp add: units_def)
  next
    case (flush_done "end")
    then show ?thesis using u by (simp add: units_def)
  next
    case (flush_tail "end")
    then have "L dvd unat (end - tail (ring s))" using u(2,4) c(2) by (simp add: dvd_difference [OF L] dvd_of_nat [OF L])
    then show ?thesis using flush_tail u by (simp add: units_def)
  qed
qed

lemma lengths_fit:
  assumes "inv s" and "units L s" and "L dvd CBUFF"
  shows "copies_fit s"
  unfolding copies_fit_def
proof (intro allI impI)
  fix p h rec prio
  let ?n = "length (appended_log s)"
  assume p: "producer s p = HasSpace h rec prio"
  have "pc_inv s (producer s p)" using assms(1) by (simp add: inv_def)
  then have lt: "?n - acked s < CBUFF" using p by simp
  have "length_inv L (producer s p)" using assms(2) by (simp add: units_def)
  then have L: "length rec = L" using p by simp
  have d: "L dvd ?n - acked s" "L dvd ?n mod CBUFF" using assms(2,3) by (simp_all add: units_def dvd_mod)
  show "fits s rec"
    using dvd_room [OF d(1) assms(3) lt] dvd_room [OF d(2) assms(3)] mod_less_divisor [OF host_ring.cap_pos, of ?n] by (simp add: fits_def L)
qed

lemma lengths_reachable:
  assumes "reachable ok cb s" and "hostbuf_ok cb" and "\<And>rec. ok rec \<Longrightarrow> length rec = L" and "L \<le> 512" and "L dvd CBUFF"
  shows "fit_reachable ok cb s \<and> units L s"
  using assms(1)
proof induction
  case reachable_start
  have "units L (start_system cb)" by (simp add: units_def start_system_def)
  then show ?case by (simp add: fit_start)
next
  case (reachable_step s s')
  have "inv s" using fit_integrity [OF _ assms(2)] reachable_step.IH assms(3,4) by blast
  then show ?case
    using lengths_step [OF reachable_step(2) _ _ assms(5)] lengths_fit [OF _ _ assms(5)] reachable_step assms(3) fit_step by blast
qed

lemma integrity_reachable:
  assumes "reachable ok cb s" and "hostbuf_ok cb" and "\<And>rec. ok rec \<Longrightarrow> length rec = L" and "L \<le> 512" and "L dvd CBUFF"
  shows "integrity s \<and> inv s"
  using lengths_reachable [OF assms] fit_integrity [OF _ assms(2)] assms(3,4) by blast

subsection \<open>Records of any length in the first lap\<close>

lemma step_appends: "step ok s s' \<Longrightarrow> length (appended_log s) \<le> length (appended_log s')"
  by (induction rule: step.induct) simp_all

lemma first_lap_reachable:
  assumes "reachable ok cb s" and "hostbuf_ok cb" and "\<And>rec. ok rec \<Longrightarrow> length rec \<le> 512" and "length (appended_log s) + 512 \<le> CBUFF"
  shows "fit_reachable ok cb s"
  using assms(1,4)
proof induction
  case (reachable_step s s')
  have len: "length (appended_log s) + 512 \<le> CBUFF" using step_appends [OF reachable_step(2)] reachable_step.prems by simp
  then have r: "fit_reachable ok cb s" by (rule reachable_step.IH)
  have pcs: "\<forall>p. pc_inv s (producer s p)" using fit_integrity [OF r assms(2,3)] by (simp add: inv_def)
  have "fits s rec" if "producer s p = HasSpace h rec prio" for p h rec prio
  proof -
    have "length rec \<le> 512" using pcs that by (metis pc_inv.simps(4))
    then show ?thesis using len by (simp add: fits_def)
  qed
  then have "copies_fit s" by (simp add: copies_fit_def)
  then show ?case using reachable_step(2) by (rule fit_step [OF r])
qed (rule fit_start)

lemma integrity_delivered:
  assumes "integrity s" and "inv s"
  shows "\<exists>k \<ge> acked s. k \<le> length (appended_log s) \<and> delivered s = take k (appended_log s)"
proof (cases "flusher s")
  case FIdle
  then show ?thesis using assms by (auto simp: integrity_def inv_def counter_inv_def)
next
  case (FRead e pos)
  then show ?thesis using assms(1) by (auto simp: integrity_def)
next
  case (FSent e)
  then show ?thesis using assms by (auto simp: integrity_def)
qed

lemma integrity_pending:
  assumes "integrity s" and "inv s"
  shows "pending (ring s) = drop (acked s) (appended_log s)"
proof -
  have t: "tail (ring s) = of_nat (acked s)" using assms(2) by (simp add: inv_def counter_inv_def)
  show ?thesis
    unfolding pending_def inv_used [OF assms(2)] t ring_bytes_of_nat using assms(1) by (simp add: integrity_def)
qed

lemma flushed_length:
  assumes "inv s" and "producer s p = WaitFlush t" and "\<not> tail (ring s) < t" and "length (appended_log s) < 2 ^ 64"
  shows "unat t \<le> acked s"
proof -
  have c: "counter_inv s" and "pc_inv s (producer s p)" using assms(1) by (simp_all add: inv_def)
  then obtain n where n: "n \<le> length (appended_log s)" "t = of_nat n" using assms(2) by auto
  have small: "unat (of_nat m :: u64) = m" if "m \<le> length (appended_log s)" for m
    using that assms(4) by (simp add: unat_of_nat take_bit_eq_mod)
  have "tail (ring s) = of_nat (acked s)" "acked s \<le> length (appended_log s)" using c by (simp_all add: counter_inv_def)
  then show ?thesis using n assms(3) small by (simp add: word_less_nat_alt)
qed

section \<open>Progress\<close>

text \<open>Runs of the system, and the run in which the flusher finishes its turn and makes another.\<close>

abbreviation run :: "(string \<Rightarrow> bool) \<Rightarrow> system \<Rightarrow> system \<Rightarrow> bool" where
  "run ok \<equiv> (step ok)\<^sup>*\<^sup>*"

lemma run_step: "run ok s s' \<Longrightarrow> step ok s' s'' \<Longrightarrow> run ok s s''"
  by (rule rtranclp.rtrancl_into_rtrancl)

lemma run_one: "step ok s s' \<Longrightarrow> run ok s s'"
  by (rule r_into_rtranclp)

lemma run_trans: "run ok s s' \<Longrightarrow> run ok s' s'' \<Longrightarrow> run ok s s''"
  by (rule rtranclp_trans)

lemma flusher_sends:
  assumes "flusher s = FRead e pos"
  shows "run ok s (s\<lparr>flusher := FSent e, delivered := delivered s @ ring_bytes CBUFF (ring_mem (ring s)) (unat pos) (unat (e - pos))\<rparr>)"
proof (cases "unat (e - pos) = 0")
  case True
  then have "e = pos" by (simp add: unat_eq_zero)
  then have "step ok s (s\<lparr>flusher := FSent e\<rparr>)" using flush_done [of s e] assms by simp
  then show ?thesis using True by (simp add: run_one)
next
  case False
  have "pos + of_nat (unat (e - pos)) = e" by simp
  then have a: "step ok s (s\<lparr>flusher := FRead e e, delivered := delivered s @ ring_bytes CBUFF (ring_mem (ring s)) (unat pos) (unat (e - pos))\<rparr>)" (is "step ok s ?s1")
    using flush_send [OF assms, of "unat (e - pos)" ok] False by simp
  have b: "step ok ?s1 (?s1\<lparr>flusher := FSent e\<rparr>)" by (rule flush_done) simp
  have "run ok s (?s1\<lparr>flusher := FSent e\<rparr>)" by (rule run_step [OF run_one [OF a] b])
  then show ?thesis by (cases s) simp
qed

lemma flusher_turn:
  assumes "flusher s = FIdle"
  shows "\<exists>s'. run ok s s' \<and> producer s' = producer s \<and> lock s' = lock s \<and> appended_log s' = appended_log s
    \<and> ring s' = (ring s)\<lparr>tail := head (ring s)\<rparr> \<and> flusher s' = FIdle
    \<and> delivered s' = delivered s @ pending (ring s)"
proof -
  let ?e = "head (ring s)" and ?t = "tail (ring s)"
  let ?s1 = "s\<lparr>flusher := FRead ?e ?t\<rparr>"
  let ?s2 = "?s1\<lparr>flusher := FSent ?e, delivered := delivered s @ pending (ring s)\<rparr>"
  let ?s3 = "?s2\<lparr>ring := (ring s)\<lparr>tail := ?e\<rparr>, acked := acked s + unat (?e - ?t), flusher := FIdle\<rparr>"
  have "step ok s ?s1" using assms by (rule flush_read)
  moreover have "run ok ?s1 ?s2" using flusher_sends [of ?s1 ?e ?t ok] by (simp add: pending_def used_def)
  moreover have "step ok ?s2 ?s3" using flush_tail [of ?s2 ?e ok] by simp
  ultimately have "run ok s ?s3" by (meson run_one run_trans)
  then show ?thesis by (intro exI [of _ ?s3]) simp
qed

lemma flusher_idles:
  "\<exists>s'. run ok s s' \<and> producer s' = producer s \<and> lock s' = lock s \<and> appended_log s' = appended_log s \<and> flusher s' = FIdle"
proof (cases "flusher s")
  case FIdle
  then show ?thesis by blast
next
  case (FSent e)
  from flush_tail [OF this] show ?thesis by (intro exI conjI) (rule run_one, assumption, simp_all)
next
  case (FRead e pos)
  obtain s1 where 1: "run ok s s1" "flusher s1 = FSent e" "producer s1 = producer s" "lock s1 = lock s"
      "appended_log s1 = appended_log s" using flusher_sends [OF FRead] by fastforce
  then show ?thesis using run_step [OF 1(1) flush_tail] by fastforce
qed

lemma flusher_catches_up:
  "\<exists>s'. run ok s s' \<and> producer s' = producer s \<and> lock s' = lock s \<and> appended_log s' = appended_log s
    \<and> tail (ring s') = head (ring s')"
proof -
  obtain s1 where 1: "run ok s s1" "producer s1 = producer s" "lock s1 = lock s" "appended_log s1 = appended_log s"
      "flusher s1 = FIdle" using flusher_idles by blast
  obtain s2 where "run ok s1 s2" "producer s2 = producer s1" "lock s2 = lock s1" "appended_log s2 = appended_log s1"
      "ring s2 = (ring s1)\<lparr>tail := head (ring s1)\<rparr>" using flusher_turn [OF 1(5)] by blast
  then show ?thesis using 1 run_trans by (intro exI [of _ s2]) auto
qed

text \<open>A thread in the critical section can leave it, whatever the others did before.\<close>

fun past :: "producer_pc \<Rightarrow> bool" where
  "past Idle = True"
| "past (WaitFlush _) = True"
| "past _ = False"

definition left_cs :: "nat \<Rightarrow> system \<Rightarrow> system \<Rightarrow> bool" where
  "left_cs p s s' \<longleftrightarrow> past (producer s' p) \<and> \<not> lock s'
     \<and> (\<forall>q. q \<noteq> p \<longrightarrow> producer s' q = producer s q) \<and> length (appended_log s') \<le> length (appended_log s) + 512"

lemma left_after:
  assumes "step ok s s1" and "\<forall>q. q \<noteq> p \<longrightarrow> producer s1 q = producer s q"
    and "\<exists>s'. run ok s1 s' \<and> left_cs p s1 s'" and "length (appended_log s1) \<le> length (appended_log s)"
  shows "\<exists>s'. run ok s s' \<and> left_cs p s s'"
proof -
  from assms(3) obtain s' where s': "run ok s1 s'" "left_cs p s1 s'" by blast
  have "run ok s s'" by (rule run_trans [OF run_one [OF assms(1)] s'(1)])
  moreover have "left_cs p s s'" using s'(2) assms(2,4) by (simp add: left_cs_def)
  ultimately show ?thesis by blast
qed

lemma advanced_leaves:
  assumes "producer s p = Advanced t prio"
  shows "\<exists>s'. step ok s s' \<and> left_cs p s s' \<and> appended_log s' = appended_log s"
  using release [OF assms, of ok] by (intro exI conjI, assumption) (simp_all add: left_cs_def)

lemma copied_leaves:
  assumes "producer s p = Copied h rec prio" and "length rec \<le> 512"
  shows "\<exists>s'. run ok s s' \<and> left_cs p s s'"
proof -
  obtain s1 t where 1: "step ok s s1" "producer s1 p = Advanced t prio" "\<forall>q. q \<noteq> p \<longrightarrow> producer s1 q = producer s q"
      "appended_log s1 = appended_log s @ rec"
    using advance [OF assms(1), of ok] by fastforce
  obtain s2 where 2: "step ok s1 s2" "left_cs p s1 s2" "appended_log s2 = appended_log s1"
    using advanced_leaves [OF 1(2)] by blast
  have "run ok s s2" by (rule run_step [OF run_one [OF 1(1)] 2(1)])
  moreover have "left_cs p s s2" using 1 2 assms(2) by (simp add: left_cs_def)
  ultimately show ?thesis by blast
qed

lemma space_leaves:
  assumes "producer s p = HasSpace h rec prio" and "length rec \<le> 512"
  shows "\<exists>s'. run ok s s' \<and> left_cs p s s'"
  by (rule left_after [OF copy [OF assms(1)]]) (use assms(2) in \<open>auto intro: copied_leaves\<close>)

lemma lock_leaves:
  assumes "producer s p = HaveLock rec prio" and "length rec \<le> 512"
  shows "\<exists>s'. run ok s s' \<and> left_cs p s s'"
proof -
  obtain s1 where 1: "run ok s s1" "producer s1 = producer s" "appended_log s1 = appended_log s"
      "tail (ring s1) = head (ring s1)" using flusher_catches_up by blast
  have room: "\<not> head (ring s1) - tail (ring s1) \<ge> of_nat CBUFF" using 1(4) by (simp add: CBUFF_eq)
  have "\<exists>s'. run ok s1 s' \<and> left_cs p s1 s'"
    by (rule left_after [OF space [OF _ room]]) (use 1(2) assms in \<open>auto intro: space_leaves\<close>)
  then obtain s' where s': "run ok s1 s'" "left_cs p s1 s'" by blast
  have "run ok s s'" by (rule run_trans [OF 1(1) s'(1)])
  moreover have "left_cs p s s'" using s'(2) 1 by (simp add: left_cs_def)
  ultimately show ?thesis by blast
qed

lemma critical_leaves:
  assumes "critical (producer s p)" and "pc_inv s (producer s p)"
  shows "\<exists>s'. run ok s s' \<and> left_cs p s s'"
proof (cases "producer s p")
  case (HaveLock rec prio)
  then show ?thesis using assms(2) by (auto intro: lock_leaves)
next
  case (HasSpace h rec prio)
  then show ?thesis using assms(2) by (auto intro: space_leaves)
next
  case (Copied h rec prio)
  then show ?thesis using assms(2) by (auto intro: copied_leaves)
next
  case (Advanced t prio)
  then show ?thesis using advanced_leaves by blast
qed (use assms in simp_all)

lemma reachable_run: "run ok s s' \<Longrightarrow> reachable ok cb s \<Longrightarrow> reachable ok cb s'"
  by (induction rule: rtranclp_induct) (auto intro: reachable_step)

lemma waiter_returns:
  assumes "\<And>s. reachable ok cb s \<Longrightarrow> inv s" and "reachable ok cb s" and "producer s p = WaitFlush t"
    and "length (appended_log s) < 2 ^ 64"
  shows "\<exists>s'. run ok s s' \<and> producer s' p = Idle"
proof -
  obtain s1 where 1: "run ok s s1" "producer s1 = producer s" "appended_log s1 = appended_log s"
      "tail (ring s1) = head (ring s1)" using flusher_catches_up by blast
  have i: "inv s1" by (rule assms(1), rule reachable_run [OF 1(1) assms(2)])
  have "producer s1 p = WaitFlush t" using 1(2) assms(3) by simp
  moreover have "pc_inv s1 (producer s1 p)" using i by (simp add: inv_def)
  ultimately obtain n where n: "n \<le> length (appended_log s)" "t = of_nat n" using 1(3) by auto
  have "tail (ring s1) = of_nat (length (appended_log s))" using i 1(3,4) by (simp add: inv_def counter_inv_def)
  then have "\<not> tail (ring s1) < t"
    using n assms(4) by (simp add: word_less_nat_alt unat_of_nat take_bit_eq_mod)
  from run_step [OF 1(1) flushed [OF _ this]] show ?thesis using 1(2) assms(3) by fastforce
qed

lemma critical_returns:
  assumes "\<And>s. reachable ok cb s \<Longrightarrow> inv s" and "reachable ok cb s" and "critical (producer s p)"
    and "length (appended_log s) + 512 < 2 ^ 64"
  shows "\<exists>s'. run ok s s' \<and> producer s' p = Idle"
proof -
  have "pc_inv s (producer s p)" using assms(1) [OF assms(2)] by (simp add: inv_def)
  from critical_leaves [OF assms(3) this] obtain s1 where 1: "run ok s s1" "left_cs p s s1" by blast
  have r: "reachable ok cb s1" by (rule reachable_run [OF 1(1) assms(2)])
  show ?thesis
  proof (cases "producer s1 p")
    case Idle
    with 1 show ?thesis by blast
  next
    case (WaitFlush t)
    have "length (appended_log s1) < 2 ^ 64" using 1(2) assms(4) by (simp add: left_cs_def)
    from waiter_returns [OF assms(1) r WaitFlush this] show ?thesis using 1(1) by (metis run_trans)
  qed (use 1(2) in \<open>simp_all add: left_cs_def\<close>)
qed

lemma event_returns:
  assumes i: "\<And>s. reachable ok cb s \<Longrightarrow> inv s" and "reachable ok cb s" and "length (appended_log s) + 1024 < 2 ^ 64"
  shows "\<exists>s'. run ok s s' \<and> producer s' p = Idle"
proof -
  consider "producer s p = Idle" | t where "producer s p = WaitFlush t" | "critical (producer s p)"
    | rec prio where "producer s p = WantLock rec prio" by (cases "producer s p") auto
  then show ?thesis
  proof cases
    case 1
    then show ?thesis by blast
  next
    case (2 t)
    then show ?thesis using waiter_returns [OF i assms(2)] assms(3) by simp
  next
    case 3
    then show ?thesis using critical_returns [OF i assms(2)] assms(3) by simp
  next
    case (4 rec prio)
    have "\<exists>s1. run ok s s1 \<and> \<not> lock s1 \<and> producer s1 p = WantLock rec prio
        \<and> length (appended_log s1) \<le> length (appended_log s) + 512"
    proof (cases "lock s")
      case True
      have m: "mutex_inv s" and pc: "\<And>q. pc_inv s (producer s q)" using i [OF assms(2)] by (simp_all add: inv_def)
      then obtain q where "critical (producer s q)" using True by (auto simp: mutex_inv_def)
      moreover from critical_leaves [OF this pc] obtain s1 where "run ok s s1" "left_cs q s s1" by blast
      moreover have "q \<noteq> p" using 4 \<open>critical (producer s q)\<close> by auto
      ultimately show ?thesis using 4 by (intro exI [of _ s1]) (simp add: left_cs_def)
    qed (use 4 in auto)
    then obtain s1 where 1: "run ok s s1" "\<not> lock s1" "producer s1 p = WantLock rec prio"
        "length (appended_log s1) \<le> length (appended_log s) + 512" by blast
    obtain s2 where 2: "step ok s1 s2" "critical (producer s2 p)" "appended_log s2 = appended_log s1"
      using acquire [OF 1(3,2), of ok] by fastforce
    have "run ok s s2" by (rule run_step [OF 1(1) 2(1)])
    moreover have "\<exists>s'. run ok s2 s' \<and> producer s' p = Idle"
      by (rule critical_returns [OF i reachable_run [OF \<open>run ok s s2\<close> assms(2)]]) (use 1(4) 2 assms(3) in simp_all)
    ultimately show ?thesis by (metis run_trans)
  qed
qed

section \<open>The sequential handlers are runs\<close>

text \<open>A thread that finds the mutex free and room in the buffer appends its record in five steps.\<close>

lemma append_run:
  assumes "hostbuf_ok (ring s)" and "producer s p = Idle" and "\<not> lock s" and "used (ring s) < CBUFF" and "ok rec"
  shows "\<exists>s'. run ok s s' \<and> ring s' = push_bytes (ring s) rec \<and> producer s' = (producer s)(p := if prio then WaitFlush (head (ring s')) else Idle) \<and> \<not> lock s'
    \<and> appended_log s' = appended_log s @ rec \<and> delivered s' = delivered s \<and> flusher s' = flusher s
    \<and> acked s' = acked s"
proof -
  let ?h = "head (ring s)" and ?r = "copy_record (head (ring s)) rec (ring s)"
  let ?s1 = "s\<lparr>producer := (producer s)(p := WantLock rec prio)\<rparr>"
  let ?s2 = "?s1\<lparr>lock := True, producer := (producer ?s1)(p := HaveLock rec prio)\<rparr>"
  let ?s3 = "?s2\<lparr>producer := (producer ?s2)(p := HasSpace ?h rec prio)\<rparr>"
  let ?s4 = "?s3\<lparr>ring := ?r, producer := (producer ?s3)(p := Copied ?h rec prio)\<rparr>"
  let ?s5 = "?s4\<lparr>ring := advance_head rec ?r, appended_log := appended_log s @ rec,
      producer := (producer ?s4)(p := Advanced (head (advance_head rec ?r)) prio)\<rparr>"
  let ?s6 = "?s5\<lparr>lock := False, producer := (producer ?s5)(p := if prio then WaitFlush (head (advance_head rec ?r)) else Idle)\<rparr>"
  have room: "\<not> head (ring s) - tail (ring s) \<ge> of_nat CBUFF"
    using assms(4) by (simp add: used_def word_le_nat_alt host_ring.unat_cap)
  have "step ok s ?s1" using begin_event [of s p ok rec prio] assms(2,5) by simp
  moreover have "step ok ?s1 ?s2" using acquire [of ?s1 p rec prio ok] assms(3) by simp
  moreover have "step ok ?s2 ?s3" using space [of ?s2 p rec prio ok] room by simp
  moreover have "step ok ?s3 ?s4" using copy [of ?s3 p ?h rec prio ok] by simp
  moreover have "step ok ?s4 ?s5" using advance [of ?s4 p ?h rec prio ok] by simp
  moreover have "step ok ?s5 ?s6" using release [of ?s5 p _ prio ok] by simp
  ultimately have "run ok s ?s6" by (meson run_one run_trans)
  then show ?thesis
    using assms(1-3) by (intro exI [of _ ?s6]) (auto simp: copy_advance fun_upd_idem)
qed

text \<open>Samples: one thread that has just started an event, and a run to a priority wait.\<close>

definition sample_ring :: audit_circ_buffer where
  "sample_ring = sample_cbuff (\<lambda>_. NUL) 0 0"

lemma sample_ring_ok [simp]: "hostbuf_ok sample_ring"
  by (simp add: sample_ring_def)

text \<open>The records of the samples: 64 bytes.\<close>

definition len64 :: "string \<Rightarrow> bool" where
  "len64 rec \<longleftrightarrow> length rec = 64"

lemma len64_facts:
  "len64 rec \<Longrightarrow> length rec = 64" "len64 rec \<Longrightarrow> length rec \<le> 512" "len64 (replicate 64 c)"
  by (simp_all add: len64_def)

lemma sample_append:
  "\<exists>s. reachable len64 sample_ring s \<and> producer s = (\<lambda>_. Idle)(0 := if prio then WaitFlush 64 else Idle) \<and> acked s = 0
    \<and> appended_log s = replicate 64 CHR ''x'' \<and> \<not> lock s \<and> flusher s = FIdle \<and> delivered s = []"
proof -
  let ?rec = "replicate 64 CHR ''x''" and ?s = "start_system sample_ring"
  obtain s where s: "run len64 ?s s" "appended_log s = ?rec" "ring s = push_bytes (ring ?s) ?rec" "acked s = 0"
    "producer s = (\<lambda>_. Idle)(0 := if prio then WaitFlush (head (ring s)) else Idle)" "\<not> lock s" "flusher s = FIdle" "delivered s = []"
    using append_run [of ?s 0 len64 ?rec prio]
    by (auto simp: start_system_def len64_def used_def CBUFF_eq hostbuf_ok_def sample_ring_def sample_cbuff_def)
  have "hostbuf_ok (ring ?s)" "head (ring ?s) = 0" by (simp_all add: start_system_def sample_ring_def sample_cbuff_def hostbuf_ok_def)
  then have "head (ring s) = 64" using s(3) by (simp add: push_bytes_head)
  then show ?thesis using s reachable_run [OF s(1) reachable_start] by (intro exI [of _ s]) simp
qed

lemma sample_delivered:
  assumes "reachable len64 sample_ring s" and "flusher s = FIdle"
  shows "\<exists>s'. reachable len64 sample_ring s' \<and> producer s' = producer s \<and> appended_log s' = appended_log s
    \<and> tail (ring s') = head (ring s) \<and> flusher s' = FIdle"
  using flusher_turn [OF assms(2), of len64] reachable_run [OF _ assms(1)] by fastforce

text \<open>Two records of different length by two threads, the second with a priority wait.\<close>

definition len512 :: "string \<Rightarrow> bool" where
  "len512 rec \<longleftrightarrow> length rec \<le> 512"

lemma len512_bound: "len512 rec \<Longrightarrow> length rec \<le> 512"
  by (simp add: len512_def)

lemma sample_two:
  "\<exists>s. reachable len512 sample_ring s \<and> producer s 1 = WaitFlush 8 \<and> acked s = 0 \<and> appended_log s = ''abcdefgh'' \<and> flusher s = FIdle"
proof -
  let ?s = "start_system sample_ring"
  have z: "hostbuf_ok (ring ?s)" "head (ring ?s) = 0" "tail (ring ?s) = 0"
    by (simp_all add: start_system_def sample_ring_def sample_cbuff_def hostbuf_ok_def)
  obtain s where s: "run len512 ?s s" "ring s = push_bytes (ring ?s) ''abc''" "producer s = (producer ?s)(0 := Idle)" "\<not> lock s"
      "appended_log s = appended_log ?s @ ''abc''" "flusher s = flusher ?s" "acked s = acked ?s"
    using append_run [of ?s 0 len512 "''abc''" False] z
    by (auto simp: len512_def used_def CBUFF_eq start_system_def [where cb = sample_ring])
  note start = start_system_def
  have r: "reachable len512 sample_ring s" by (rule reachable_run [OF s(1) reachable_start])
  have h: "hostbuf_ok (ring s)" "head (ring s) = 3" "tail (ring s) = 0"
    using inv_reachable [OF r sample_ring_ok len512_bound] s(5,7) by (simp_all add: inv_def counter_inv_def start)
  obtain s' where s': "run len512 s s'" "producer s' 1 = WaitFlush (head (ring s'))" "appended_log s' = ''abcdefgh''"
      "flusher s' = FIdle" "acked s' = 0"
    using append_run [of s 1 len512 "''defgh''" True] h s(3-7) by (auto simp: start len512_def used_def CBUFF_eq)
  have r': "reachable len512 sample_ring s'" by (rule reachable_run [OF s'(1) r])
  have "head (ring s') = 8"
    using inv_reachable [OF r' sample_ring_ok len512_bound] s'(3) by (simp add: inv_def counter_inv_def)
  then show ?thesis using s' r' by (intro exI [of _ s']) simp
qed

lemma two_delivered:
  "\<exists>s. reachable len512 sample_ring s \<and> producer s 1 = WaitFlush 8 \<and> tail (ring s) = 8 \<and> appended_log s = ''abcdefgh''"
proof -
  obtain s where s: "reachable len512 sample_ring s" "producer s 1 = WaitFlush 8" "acked s = 0" "appended_log s = ''abcdefgh''" "flusher s = FIdle"
    using sample_two by blast
  have "head (ring s) = 8"
    using inv_reachable [OF s(1) sample_ring_ok len512_bound] s(4) by (simp add: inv_def counter_inv_def)
  then show ?thesis
    using flusher_turn [OF s(5), of len512] reachable_run [OF _ s(1)] s(2,4) by fastforce
qed

section \<open>Properties\<close>

text \<open>
  C31: the mutex excludes. In every reachable interleaving of any number of producers and the daemon,
  at most one producer is between the lock and the unlock of its append, and the mutex is taken
  exactly when one is.
\<close>

theorem append_exclusive:
  assumes "reachable ok cb s" and "hostbuf_ok cb" and "\<And>rec. ok rec \<Longrightarrow> length rec \<le> 512"
  shows "(critical (producer s p) \<longrightarrow> critical (producer s q) \<longrightarrow> p = q)
    \<and> lock s = (\<exists>p. critical (producer s p))"
  using inv_reachable [OF assms] by (auto simp: inv_def mutex_inv_def)

theorem append_exclusive_witness:
  "\<exists>s. reachable len64 sample_ring s \<and> lock s = (\<exists>p. critical (producer s p))"
  using append_exclusive [OF reachable_start [of len64 sample_ring], of 0 0] reachable_start [of len64 sample_ring]
  by (auto simp: len64_def)

text \<open>
  C30: the counters are monotone and bounded. In every reachable interleaving with records of at most
  512 bytes, head and tail are the numbers of bytes appended and passed (modulo 2 ^ 64), the tail
  never overtakes the head, and the bytes in flight exceed the capacity by at most 511.
\<close>

theorem counters_bounded:
  assumes "reachable ok cb s" and "hostbuf_ok cb" and "\<And>rec. ok rec \<Longrightarrow> length rec \<le> 512"
  shows "head (ring s) = of_nat (length (appended_log s)) \<and> tail (ring s) = of_nat (acked s)
    \<and> acked s \<le> length (appended_log s) \<and> used (ring s) = length (appended_log s) - acked s
    \<and> used (ring s) \<le> CBUFF + 511"
  using inv_reachable [OF assms] inv_used [OF inv_reachable [OF assms]] by (simp add: inv_def counter_inv_def)

theorem counters_bounded_witness:
  "\<exists>s. reachable len64 sample_ring s \<and> length (appended_log s) = 64 \<and> used (ring s) = 64"
proof -
  obtain s where s: "reachable len64 sample_ring s" "appended_log s = replicate 64 CHR ''x''" "acked s = 0"
    using sample_append [of False] by blast
  then show ?thesis using counters_bounded [OF s(1) sample_ring_ok len64_facts(2)] by (intro exI [of _ s]) simp
qed







text \<open>
  C32: no interleaving blocks an event for good. From every reachable state, with fewer than
  2 ^ 64 - 1024 bytes appended, every producer's event can be completed by steps of the threads,
  whoever holds the mutex, however full the buffer and wherever the daemon is in its turn.
\<close>

theorem event_can_finish:
  assumes "reachable ok cb s" and "hostbuf_ok cb" and "\<And>rec. ok rec \<Longrightarrow> length rec \<le> 512"
    and "length (appended_log s) + 1024 < 2 ^ 64"
  shows "\<exists>s'. run ok s s' \<and> producer s' p = Idle"
  using event_returns [OF _ assms(1,4)] inv_reachable assms(2,3) by blast

theorem event_can_finish_witness:
  "\<exists>s s'. producer s 0 = WaitFlush 64 \<and> run len64 s s' \<and> producer s' 0 = Idle"
proof -
  obtain s where s: "reachable len64 sample_ring s" "appended_log s = replicate 64 CHR ''x''" "producer s 0 = WaitFlush 64"
    using sample_append [of True] by auto
  then show ?thesis using event_can_finish [OF s(1) sample_ring_ok len64_facts(2), of 0] by auto
qed

text \<open>
  C13: the handler refines the transition system. Ending an ordinary event, as one call with nobody
  interfering, is a run of the atomic steps of one producer: the shared buffer and the mutex are the
  same afterwards, and the event's record is what the run appends.
\<close>

theorem end_is_run:
  assumes "event_ok ab" and "NUL \<notin> set (event_text ab)" and "35 \<le> length (event_text ab)"
    and "hostbuf_ok (audit_cbuff l)" and "\<not> hardlog_audit_producer l" and "used (audit_cbuff l) < CBUFF"
    and "\<forall>c. ctx ab = Some c \<longrightarrow> \<not> is_prio_syscall (major c)"
    and "ring s = audit_cbuff l" and "lock s = hardlog_audit_producer l" and "producer s p = Idle" and "ok (event_record ab)"
  shows "\<exists>ab' l' s'. audit_log_end_hardlog flushtimef now (Some ab) [] l = Inr (Some ab', l', []) \<and> run ok s s'
    \<and> ring s' = audit_cbuff l' \<and> lock s' = hardlog_audit_producer l' \<and> producer s' = producer s
    \<and> appended_log s' = appended_log s @ event_record ab"
proof -
  obtain ab' where "audit_log_end_hardlog flushtimef now (Some ab) [] l =
      Inr (Some ab', commit_record flushtimef now (event_record ab) l, [])"
    using end_event_now [OF assms(1-7)] by blast
  moreover obtain s' where "run ok s s'" "ring s' = push_bytes (ring s) (event_record ab)" "producer s' = producer s"
      "\<not> lock s'" "appended_log s' = appended_log s @ event_record ab"
    using append_run [where s = s and p = p and ok = ok and prio = False, of "event_record ab"] assms(4-6,8-11)
    by (auto simp: fun_upd_idem)
  ultimately show ?thesis using assms(8) by (fastforce simp: commit_record_def)
qed

theorem end_is_run_witness:
  "\<exists>s'. run (\<lambda>_. True) (start_system (audit_cbuff (logger_at 0 0))) s'
    \<and> appended_log s' = replicate 40 CHR ''x'' @ [NEWLINE]"
proof -
  have r: "event_record (text_buffer 40 512 None) = replicate 40 CHR ''x'' @ [NEWLINE]"
    by (simp add: event_record_short text_buffer_facts)
  have s: "ring (start_system (audit_cbuff (logger_at 0 0))) = audit_cbuff (logger_at 0 0)"
    by (simp add: start_system_def logger_at_def)
  from end_is_run [of "text_buffer 40 512 None" "logger_at 0 0" "start_system (audit_cbuff (logger_at 0 0))" 0 "\<lambda>_. True" False 0]
  show ?thesis using s
    by (auto simp: text_buffer_facts text_buffer_no_nul logger_at_facts CBUFF_eq r start_system_def)
qed

end
