(* ===== verification/HL_Requests.thy ===== *)
theory HL_Requests
  imports HL_Main
begin

text \<open>
  \<open>hl-request.c\<close> and \<open>hl-response.c\<close>: the administrator's side channel. A request is written to, and
  its answer polled from, sector 0 of the request file of the audit device; a response is read from
  the response file, one sector at a time, and each read waits until the flusher is not writing.

  Parameters: the openers and allocators of the kernel, the block layer's writes (\<open>submit\<close>) and
  reads (\<open>bread\<close>: a sector, the device; its bytes, a status, the device), and what the other threads
  do during each sleep. The two devices are values of one type. Timing and messages are left out.
\<close>

section \<open>State\<close>

record ('dev, 'io) hl_module = "'dev host" +
  breqdevice :: "block_device kptr"
  brspdevice :: "block_device kptr"
  request_buffer :: "block option"
  response_buffer :: "block option"
  request_dev :: 'io
  response_dev :: 'io

type_synonym 'io bread = "u64 \<Rightarrow> 'io \<Rightarrow> char list \<times> int \<times> 'io"

text \<open>\<open>snprintf(fulldevice, 20, "/dev/%s", device)\<close>.\<close>

definition full_device :: "string \<Rightarrow> string" where
  "full_device device = take 19 (''/dev/'' @ device)"

text \<open>The sanity checks of both opens.\<close>

definition device_checked :: "string \<Rightarrow> block_device kptr \<Rightarrow> bool" where
  "device_checked device p =
     (if is_err p \<or> is_null p then False
      else case p of Ptr bd \<Rightarrow> (case bd_disk bd of None \<Rightarrow> False | Some name \<Rightarrow> name = device) | _ \<Rightarrow> False)"

text \<open>
  \<open>bio_set_dev\<close> follows the device pointer; \<open>vmalloc_to_page\<close> of NULL is NULL, and the block layer
  follows the page.
\<close>

definition need :: "'b kptr \<Rightarrow> unit res" where
  "need p = rbind (deref p) (\<lambda>_. Inr ())"

definition read_sector ::
    "'io bread \<Rightarrow> u64 \<Rightarrow> block option \<Rightarrow> nat \<Rightarrow> 'io \<Rightarrow> (int \<times> block option \<times> 'io) res" where
  "read_sector bread sector data off io =
     (case data of None \<Rightarrow> Inl NullDeref
      | Some b \<Rightarrow> (case bread sector io of (bytes, r, io') \<Rightarrow>
          if r < 0 then Inr (r, Some b, io')
          else rbind (store b (int off) bytes) (\<lambda>b'. Inr (r, Some b', io'))))"

section \<open>Requests\<close>

definition bio_open_request_file ::
    "(string \<Rightarrow> block_device kptr) \<Rightarrow> string \<Rightarrow> ('dev, 'io) hl_module \<Rightarrow> bool \<times> ('dev, 'io) hl_module" where
  "bio_open_request_file blkdev_get device s =
     (let s1 = s\<lparr>breqdevice := blkdev_get (full_device device)\<rparr>
      in (device_checked device (breqdevice s1), s1))"

definition bio_close_request_file :: "('io \<Rightarrow> 'io) \<Rightarrow> ('dev, 'io) hl_module \<Rightarrow> ('dev, 'io) hl_module" where
  "bio_close_request_file put s = (if \<not> is_null (breqdevice s) then s\<lparr>request_dev := put (request_dev s)\<rparr> else s)"

definition bio_write_request_file ::
    "bio kptr \<Rightarrow> 'io submit \<Rightarrow> block option \<Rightarrow> ('dev, 'io) hl_module \<Rightarrow> (int \<times> ('dev, 'io) hl_module) res" where
  "bio_write_request_file bio_alloc submit request s =
     (if is_err bio_alloc \<or> is_null bio_alloc then Inr (0, s)
      else if is_err (breqdevice s) \<or> is_null (breqdevice s) then Inr (- 1, s)
      else if request = None then Inr (- 1, s)
      else rbind (load_at request 0 512) (\<lambda>bs.
           case submit True 0 bs (request_dev s) of (d, len) \<Rightarrow>
             Inr (if len < 0 then - 1 else len, s\<lparr>request_dev := d\<rparr>)))"

definition bio_read_request_file ::
    "bio kptr \<Rightarrow> 'io bread \<Rightarrow> ('dev, 'io) hl_module \<Rightarrow> (int \<times> ('dev, 'io) hl_module) res" where
  "bio_read_request_file bio_alloc bread s =
     (if is_err bio_alloc \<or> is_null bio_alloc then Inr (0, s)
      else rbind (need (breqdevice s)) (\<lambda>_.
           rbind (read_sector bread 0 (request_buffer s) 0 (request_dev s)) (\<lambda>(len, b, d).
           Inr (if len < 0 then - 1 else len, s\<lparr>request_buffer := b, request_dev := d\<rparr>))))"

section \<open>Responses\<close>

definition bio_open_response_file ::
    "(string \<Rightarrow> block_device kptr) \<Rightarrow> string \<Rightarrow> ('dev, 'io) hl_module \<Rightarrow> bool \<times> ('dev, 'io) hl_module" where
  "bio_open_response_file blkdev_get device s =
     (let s1 = s\<lparr>brspdevice := blkdev_get (full_device device)\<rparr>
      in (device_checked device (brspdevice s1), s1))"

definition bio_close_response_file :: "('io \<Rightarrow> 'io) \<Rightarrow> ('dev, 'io) hl_module \<Rightarrow> ('dev, 'io) hl_module" where
  "bio_close_response_file put s = (if \<not> is_null (brspdevice s) then s\<lparr>response_dev := put (response_dev s)\<rparr> else s)"

type_synonym ('dev, 'io) schedule = "(('dev, 'io) hl_module \<Rightarrow> ('dev, 'io) hl_module) list"

lemma unat_minus_sector: "\<not> sz \<le> (512 :: u64) \<Longrightarrow> unat (sz - 512) = unat sz - 512"
  by (subst unat_sub) (simp_all add: not_le order_less_imp_le)

function response_loop ::
    "'io bread \<Rightarrow> u64 \<Rightarrow> u64 \<Rightarrow> nat \<Rightarrow> ('dev, 'io) schedule \<Rightarrow> ('dev, 'io) hl_module
     \<Rightarrow> (int \<times> ('dev, 'io) hl_module \<times> ('dev, 'io) schedule) res" where
  "response_loop bread sz sector read env s =
     rbind (need (brspdevice s)) (\<lambda>_.
     rbind (wait_while hardlog_logging env s) (\<lambda>(s1, env1).
     rbind (read_sector bread sector (response_buffer s1) read (response_dev s1)) (\<lambda>(len, b, d).
     let s2 = s1\<lparr>response_buffer := b, response_dev := d\<rparr>
     in if len < 0 then Inr (- 1, s2, env1)
        else if sz \<le> 512 then Inr (len, s2, env1)
        else response_loop bread (sz - 512) (sector + 1) (read + 512) env1 s2)))"
  by pat_completeness auto

termination
  by (relation "measure (\<lambda>(_, sz, _). unat sz)") (auto simp: unat_minus_sector word_le_nat_alt)

declare response_loop.simps [simp del]

definition bio_read_response_file ::
    "bio kptr \<Rightarrow> 'io bread \<Rightarrow> u64 \<Rightarrow> ('dev, 'io) schedule \<Rightarrow> ('dev, 'io) hl_module
     \<Rightarrow> (int \<times> ('dev, 'io) hl_module \<times> ('dev, 'io) schedule) res" where
  "bio_read_response_file bio_alloc bread sz env s =
     (if is_err bio_alloc \<or> is_null bio_alloc then Inr (0, s, env)
      else response_loop bread sz 0 0 env s)"

section \<open>Facts\<close>

text \<open>The sectors that the loop reads for a size.\<close>

definition sectors :: "nat \<Rightarrow> nat" where
  "sectors n = max 1 ((n + 511) div 512)"

lemma sectors_step: "512 < n \<Longrightarrow> sectors n = Suc (sectors (n - 512))"
proof -
  assume n: "512 < n"
  then have "(n + 511) div 512 = Suc ((n - 512 + 511) div 512)" by (simp add: div_if)
  moreover have "1 \<le> (n - 512 + 511) div 512" using n by (simp add: Suc_le_eq div_greater_zero_iff)
  ultimately show ?thesis by (simp add: sectors_def)
qed

lemma sectors_small: "n \<le> 512 \<Longrightarrow> sectors n = 1"
proof -
  assume "n \<le> 512"
  then have "(n + 511) div 512 < 2" by (simp add: div_less_iff_less_mult)
  then show ?thesis by (simp add: sectors_def)
qed

lemma sectors_bound: "n \<le> 512 * sectors n" "512 * sectors n \<le> n + 512"
  by (auto simp: sectors_def max_def)

text \<open>A device whose sectors are those of an image.\<close>

definition reads_image :: "mem \<Rightarrow> 'io bread \<Rightarrow> 'io \<Rightarrow> bool" where
  "reads_image img bread io \<longleftrightarrow> (\<forall>sector. bread sector io = (read_mem img (512 * unat sector) 512, 0, io))"

lemma response_loop_reads:
  assumes "reads_image img bread io" and "brspdevice s = Ptr bd" and "\<not> hardlog_logging s" and "response_dev s = io"
    and "response_buffer s = Some b" and "live b" and "read + 512 * sectors (unat sz) \<le> bsize b"
    and "unat sector * 512 = read" and "read + unat sz < 2 ^ 65"
  shows "response_loop bread sz sector read env s =
    Inr (0, s\<lparr>response_buffer := Some (b\<lparr>cells := write_mem (cells b) read (read_mem img read (512 * sectors (unat sz)))\<rparr>)\<rparr>, env)"
  using assms(2-)
proof (induction "unat sz" arbitrary: sz sector read s b rule: less_induct)
  case less
  have fit: "read + 512 \<le> bsize b"
    using less.prems(6) by (simp add: sectors_def max_def split: if_splits)
  define s2 where "s2 = s\<lparr>response_buffer := Some (b\<lparr>cells := write_mem (cells b) read (read_mem img read 512)\<rparr>)\<rparr>"
  have st: "store b (int read) (read_mem img read 512) = Inr (b\<lparr>cells := write_mem (cells b) read (read_mem img read 512)\<rparr>)"
    using less.prems(5) fit by (simp add: store_Inr)
  have rd: "read_sector bread sector (response_buffer s) read (response_dev s) =
      Inr (0, Some (b\<lparr>cells := write_mem (cells b) read (read_mem img read 512)\<rparr>), response_dev s)"
    using assms(1) less.prems(3,4,7) st by (simp add: read_sector_def reads_image_def mult.commute)
  have same: "s2\<lparr>response_dev := response_dev s\<rparr> = s2"
    by (simp add: s2_def)
  have step: "response_loop bread sz sector read env s =
      (if sz \<le> 512 then Inr (0, s2, env) else response_loop bread (sz - 512) (sector + 1) (read + 512) env s2)"
    using less.prems(1,2) rd same by (subst response_loop.simps) (simp add: need_def Let_def s2_def [symmetric])
  show ?case
  proof (cases "sz \<le> 512")
    case True
    then have "sectors (unat sz) = 1" by (simp add: sectors_small word_le_nat_alt)
    with True step show ?thesis by (simp add: s2_def)
  next
    case False
    then have big: "512 < unat sz" by (simp add: word_le_nat_alt)
    have u: "unat (sz - 512) = unat sz - 512" using False by (rule unat_minus_sector)
    have "unat sector < 2 ^ 64 - 1" using less.prems(7,8) by simp
    then have sec: "unat (sector + 1) * 512 = read + 512" using less.prems(7) by (simp add: unat_inc)
    have "response_loop bread (sz - 512) (sector + 1) (read + 512) env s2 =
      Inr (0, s2\<lparr>response_buffer := Some ((the (response_buffer s2))\<lparr>cells :=
        write_mem (cells (the (response_buffer s2))) (read + 512) (read_mem img (read + 512) (512 * sectors (unat (sz - 512))))\<rparr>)\<rparr>, env)"
      using less.prems big u sec sectors_step [OF big] by (intro less.hyps) (auto simp: s2_def)
    moreover have "read_mem img read (512 * sectors (unat sz)) = read_mem img read 512 @ read_mem img (read + 512) (512 * sectors (unat (sz - 512)))"
      using read_mem_add [of img read 512 "512 * sectors (unat (sz - 512))"] by (simp add: sectors_step [OF big] u)
    moreover have "write_mem (write_mem (cells b) read (read_mem img read 512)) (read + 512) ys =
        write_mem (cells b) read (read_mem img read 512 @ ys)" for ys
      using write_mem_append [of "cells b" read "read_mem img read 512" ys] by simp
    ultimately show ?thesis using False step by (simp add: s2_def)
  qed
qed

text \<open>A buffer that is smaller than the response is overrun.\<close>

lemma response_loop_overruns:
  assumes "reads_image img bread io" and "brspdevice s = Ptr bd" and "\<not> hardlog_logging s" and "response_dev s = io"
    and "response_buffer s = Some b" and "live b" and "bsize b < read + unat sz"
  shows "response_loop bread sz sector read env s = Inl OutOfBounds"
  using assms(2-)
proof (induction "unat sz" arbitrary: sz sector read s b rule: less_induct)
  case less
  have bread: "bread sector (response_dev s) = (read_mem img (512 * unat sector) 512, 0, response_dev s)"
    using assms(1) less.prems(3) by (simp add: reads_image_def)
  show ?case
  proof (cases "read + 512 \<le> bsize b")
    case False
    then have "store b (int read) xs = Inl OutOfBounds" if "length xs = 512" for xs
      using less.prems(5) that by (simp add: store_def)
    then show ?thesis
      using less.prems(1,2,4) by (subst response_loop.simps) (simp add: need_def read_sector_def bread)
  next
    case True
    then have big: "\<not> sz \<le> 512" "512 < unat sz" using less.prems(6) by (simp_all add: word_le_nat_alt)
    have u: "unat (sz - 512) = unat sz - 512" using big(1) by (rule unat_minus_sector)
    have st: "store b (int read) xs = Inr (b\<lparr>cells := write_mem (cells b) read xs\<rparr>)" if "length xs = 512" for xs
      using less.prems(5) True that by (simp add: store_Inr)
    let ?b = "b\<lparr>cells := write_mem (cells b) read (read_mem img (512 * unat sector) 512)\<rparr>"
    let ?s = "s\<lparr>response_buffer := Some ?b\<rparr>"
    have "response_loop bread (sz - 512) (sector + 1) (read + 512) env ?s = Inl OutOfBounds"
      using less.prems big u by (intro less.hyps [where b = ?b]) simp_all
    then show ?thesis
      using less.prems(1,2,4) big by (subst response_loop.simps) (simp add: need_def read_sector_def bread st Let_def)
  qed
qed

end
