(* ===== verification/HL_Ioctl.thy ===== *)
theory HL_Ioctl
  imports HL_Requests
begin

text \<open>
  \<open>hl-ioctl.c\<close>: the module's character device. A command comes with what the user's memory holds
  (or that it cannot be read) and whether the user's memory can be written; the answer is a return
  code and what was copied to the user.

  The text that \<open>snprintf(request_buffer, 4096, hreq.data)\<close> renders the user's data to, as a format
  without arguments, is the parameter \<open>render\<close>.
\<close>

section \<open>State\<close>

text \<open>The character device: the region, the device, the pointer to the class, whether the class exists,
  and the node.\<close>

record chrdev =
  region :: bool
  hardlog_cdev :: bool
  hardlog_class :: "unit kptr"
  class_live :: bool
  node :: bool

datatype hardlog_cmd =
    SENDREQUEST "char list option"
  | CHECKRESPONSEREADY bool
  | READRESPONSE "u64 option" bool
  | SENDRESETFLUSHTIME bool
  | OtherCommand

datatype to_user = NoData | UserBytes "char list" | PrevTime u64

section \<open>Commands\<close>

definition snprintf_request :: "(string \<Rightarrow> string) \<Rightarrow> char list \<Rightarrow> block option \<Rightarrow> block option res" where
  "snprintf_request render data buf =
     (case buf of None \<Rightarrow> Inl NullDeref
      | Some b \<Rightarrow> if NUL \<notin> set data then Inl OutOfBounds
          else rbind (vsnprintf b 0 4096 (render (takeWhile (\<lambda>c. c \<noteq> NUL) data))) (\<lambda>(b', _). Inr (Some b')))"

definition hardlog_ioctl ::
    "(string \<Rightarrow> string) \<Rightarrow> bio kptr \<Rightarrow> 'io submit \<Rightarrow> 'io bread \<Rightarrow> (nat \<Rightarrow> block option) \<Rightarrow> hardlog_cmd
     \<Rightarrow> ('dev, 'io) schedule \<Rightarrow> ('dev, 'io) hl_module
     \<Rightarrow> (int \<times> to_user \<times> ('dev, 'io) hl_module \<times> ('dev, 'io) schedule) res" where
  "hardlog_ioctl render bio_alloc submit bread vmalloc cmd env s =
     (case cmd of
        SENDREQUEST user \<Rightarrow>
          (case user of None \<Rightarrow> Inr (- 1, NoData, s, env)
           | Some data \<Rightarrow>
              rbind (snprintf_request render data (request_buffer s)) (\<lambda>buf.
              let s1 = s\<lparr>request_buffer := buf\<rparr> in
              rbind (bio_write_request_file bio_alloc submit (request_buffer s1) s1) (\<lambda>(_, s2).
              Inr (0, NoData, s2, env))))
      | CHECKRESPONSEREADY writable \<Rightarrow>
          rbind (bio_read_request_file bio_alloc bread s) (\<lambda>(_, s1).
          rbind (load_at (request_buffer s1) 0 4096) (\<lambda>bs.
          if \<not> writable then Inr (- 1, NoData, s1, env)
          else Inr (0, UserBytes bs, s1, env)))
      | READRESPONSE user writable \<Rightarrow>
          (case user of None \<Rightarrow> Inr (- 1, NoData, s, env)
           | Some sz \<Rightarrow>
              let s1 = s\<lparr>response_buffer := vmalloc (unat (sz + 4096))\<rparr> in
              if response_buffer s1 = None then Inr (- 1, NoData, s1, env)
              else rbind (bio_read_response_file bio_alloc bread sz env s1) (\<lambda>(_, s2, env2).
                   rbind (load_at (response_buffer s2) 0 (unat sz)) (\<lambda>bs.
                   if \<not> writable then Inr (- 1, NoData, s2, env2)
                   else Inr (0, UserBytes bs, s2, env2))))
      | SENDRESETFLUSHTIME writable \<Rightarrow>
          (let (t, m) = get_reset_flush_time_measurement (meas s); s1 = s\<lparr>meas := m\<rparr>
           in if \<not> writable then Inr (- 1, NoData, s1, env) else Inr (0, PrevTime t, s1, env))
      | OtherCommand \<Rightarrow> Inr (0, NoData, s, env))"

section \<open>Init and teardown\<close>

text \<open>
  What the kernel answers: the two that return a status, and the pointers of the class and of the
  node, which are compared with NULL only.
\<close>

record chrdev_env =
  alloc_chrdev_region :: int
  cdev_add :: int
  class_create :: "unit kptr"
  device_create :: "unit kptr"

definition hardlog_ioctl_init :: "chrdev_env \<Rightarrow> chrdev \<Rightarrow> (bool \<times> chrdev) res" where
  "hardlog_ioctl_init e c =
     (if alloc_chrdev_region e < 0 then Inr (False, c)
      else
        let c1 = c\<lparr>region := True\<rparr> in
        if cdev_add e < 0 then Inr (False, c1\<lparr>region := False\<rparr>)
        else
          let c2 = c1\<lparr>hardlog_cdev := True, hardlog_class := class_create e\<rparr> in
          if is_null (hardlog_class c2) then Inr (False, c2\<lparr>region := False\<rparr>)
          else rbind (deref (hardlog_class c2)) (\<lambda>_.
               if is_null (device_create e) then Inr (False, c2\<lparr>class_live := False, region := False\<rparr>)
               else Inr (True, c2\<lparr>class_live := True, node := True\<rparr>)))"

definition hardlog_ioctl_teardown ::
    "('io \<Rightarrow> 'io) \<Rightarrow> chrdev \<Rightarrow> ('dev, 'io) hl_module \<Rightarrow> (chrdev \<times> ('dev, 'io) hl_module) res" where
  "hardlog_ioctl_teardown put c s =
     (let s1 = bio_close_response_file put (bio_close_request_file put s) in
      rbind (if \<not> is_null (hardlog_class c)
             then rbind (deref (hardlog_class c)) (\<lambda>_.
                  if class_live c then Inr (c\<lparr>node := False, class_live := False\<rparr>) else Inl UseAfterFree)
             else Inr c) (\<lambda>c1.
      Inr (c1\<lparr>hardlog_cdev := False, region := False\<rparr>, s1)))"

section \<open>Facts\<close>

lemma unat_plus_page: "unat (sz :: u64) + 4096 < 2 ^ 64 \<Longrightarrow> unat (sz + 4096) = unat sz + 4096"
  by (simp add: unat_word_ariths)

lemma takeWhile_NUL: "NUL \<notin> set t \<Longrightarrow> takeWhile (\<lambda>c. c \<noteq> NUL) (t @ NUL # ys) = t"
  by (induction t) auto

text \<open>A sample module: the host with a request buffer, open files and a device that is one image.\<close>

definition image_bread :: "mem \<Rightarrow> char list bread" where
  "image_bread img sector io = (read_mem img (512 * unat sector) 512, 0, io)"

lemma image_reads: "reads_image img (image_bread img) io"
  by (simp add: reads_image_def image_bread_def)

definition module_at :: "block option \<Rightarrow> (char list, char list) hl_module" where
  "module_at buf = \<lparr>audit_cbuff = sample_cbuff (\<lambda>_. NUL) 0 0, meas = measure0, hardlog_audit_producer = False,
     hardlog_active_ptr = True, hardlog_microlog_active_ptr = True, hardlog_active = True, hardlog_microlog_active = False,
     usb_state = tape_usb, hardlog_logging = False, cat = \<lparr>l3_masks = (\<lambda>_. 0), pqr_assoc = (\<lambda>_. 0)\<rparr>,
     hardlog_auditd_task = Ptr (), auditd_running = True,
     breqdevice = Ptr \<lparr>bd_disk = Some ''sdc''\<rparr>, brspdevice = Ptr \<lparr>bd_disk = Some ''sdd''\<rparr>,
     request_buffer = buf, response_buffer = None, request_dev = [], response_dev = []\<rparr>"

lemma module_at_facts [simp]:
  "hardlog_logging (module_at buf) = False" "request_buffer (module_at buf) = buf"
  "breqdevice (module_at buf) = Ptr \<lparr>bd_disk = Some ''sdc''\<rparr>" "brspdevice (module_at buf) = Ptr \<lparr>bd_disk = Some ''sdd''\<rparr>"
  "request_dev (module_at buf) = []" "response_dev (module_at buf) = []" "response_buffer (module_at buf) = None"
  by (simp_all add: module_at_def)

subsection \<open>The commands on a module in order\<close>

lemma read_response:
  assumes "reads_image img bread (response_dev s)" and "brspdevice s = Ptr bd" and "\<not> hardlog_logging s" and "bio_alloc = Ptr b0"
    and "vmalloc (unat sz + 4096) = Some b" and "live b" and "unat sz + 4096 \<le> bsize b"
    and "unat sz + 4096 < 2 ^ 64"
  shows "\<exists>rb. hardlog_ioctl render bio_alloc submit bread vmalloc (READRESPONSE (Some sz) True) env s =
    Inr (0, UserBytes (read_mem img 0 (unat sz)), s\<lparr>response_buffer := rb\<rparr>, env)"
proof -
  let ?s1 = "s\<lparr>response_buffer := Some b\<rparr>" and ?n = "512 * sectors (unat sz)"
  define n where "n = unat sz"
  have n: "n \<le> 512 * sectors n" "512 * sectors n \<le> n + 512" by (rule sectors_bound)+
  have "0 + 512 * sectors n \<le> bsize b" using n assms(7) n_def by simp
  moreover have "0 + unat sz < 2 ^ 65" using assms(8) by simp
  ultimately have "response_loop bread sz 0 0 env ?s1 =
      Inr (0, ?s1\<lparr>response_buffer := Some (b\<lparr>cells := write_mem (cells b) 0 (read_mem img 0 (512 * sectors n))\<rparr>)\<rparr>, env)"
    using assms response_loop_reads [OF assms(1), of ?s1 bd b 0 sz 0 env] by (simp add: n_def)
  moreover have "load_at (Some (b\<lparr>cells := write_mem (cells b) 0 (read_mem img 0 (512 * sectors n))\<rparr>)) 0 n = Inr (read_mem img 0 n)"
  proof -
    have "read_mem (write_mem (cells b) 0 (read_mem img 0 (512 * sectors n))) 0 n = read_mem img 0 n"
      using n(1) read_write_prefix [of n "read_mem img 0 (512 * sectors n)" "cells b" 0]
      by (simp add: read_mem_def take_map)
    moreover have "n \<le> bsize b" using assms(7) n_def by simp
    ultimately show ?thesis using assms(6) by (simp add: load_at_def load_Inr)
  qed
  ultimately show ?thesis
    using assms(4,5) unat_plus_page [OF assms(8)]
    by (intro exI [of _ "Some (b\<lparr>cells := write_mem (cells b) 0 (read_mem img 0 (512 * sectors n))\<rparr>)"])
      (simp add: hardlog_ioctl_def bio_read_response_file_def n_def [symmetric] Let_def)
qed

lemma send_request:
  assumes "request_buffer s = Some b" and "live b" and "bsize b = 4096" and "breqdevice s = Ptr bd" and "bio_alloc = Ptr b0"
    and "NUL \<in> set data" and "t = render (takeWhile (\<lambda>c. c \<noteq> NUL) data)" and "length t < 4096"
  shows "hardlog_ioctl render bio_alloc submit bread vmalloc (SENDREQUEST (Some data)) env s =
    Inr (0, NoData, s\<lparr>request_buffer := Some (b\<lparr>cells := write_mem (cells b) 0 (t @ [NUL])\<rparr>),
      request_dev := fst (submit True 0 (read_mem (write_mem (cells b) 0 (t @ [NUL])) 0 512) (request_dev s))\<rparr>, env)"
proof -
  let ?b = "b\<lparr>cells := write_mem (cells b) 0 (t @ [NUL])\<rparr>"
  let ?bs = "read_mem (write_mem (cells b) 0 (t @ [NUL])) 0 512"
  have "store b 0 (take 4095 t @ [NUL]) = Inr ?b"
    using assms(2,3,8) by (simp add: store_Inr)
  then have "snprintf_request render data (Some b) = Inr (Some ?b)"
    using assms(6) by (simp add: snprintf_request_def vsnprintf_def assms(7) [symmetric])
  moreover have "load_at (Some ?b) 0 512 = Inr ?bs"
    using assms(2,3) by (simp add: load_at_def load_Inr)
  moreover obtain d r where "submit True 0 ?bs (request_dev s) = (d, r)" by fastforce
  ultimately show ?thesis
    using assms(1,4,5) by (simp add: hardlog_ioctl_def bio_write_request_file_def Let_def)
qed

lemma check_response:
  assumes "request_buffer s = Some b" and "live b" and "bsize b = 4096" and "breqdevice s = Ptr bd" and "bio_alloc = Ptr b0"
    and "reads_image img bread (request_dev s)"
  shows "hardlog_ioctl render bio_alloc submit bread vmalloc (CHECKRESPONSEREADY True) env s =
    Inr (0, UserBytes (read_mem (write_mem (cells b) 0 (read_mem img 0 512)) 0 4096),
      s\<lparr>request_buffer := Some (b\<lparr>cells := write_mem (cells b) 0 (read_mem img 0 512)\<rparr>)\<rparr>, env)"
proof -
  have "bread 0 (request_dev s) = (read_mem img 0 512, 0, request_dev s)" using assms(6) by (simp add: reads_image_def)
  moreover have "store b 0 (read_mem img 0 512) = Inr (b\<lparr>cells := write_mem (cells b) 0 (read_mem img 0 512)\<rparr>)"
    using assms(2,3) by (simp add: store_Inr)
  ultimately show ?thesis
    using assms(1-5) by (simp add: hardlog_ioctl_def bio_read_request_file_def read_sector_def need_def load_at_def load_Inr)
qed

section \<open>Properties\<close>

text \<open>
  C35: a response reaches the user as the device holds it. With the response file open, the flusher
  idle and a device that answers every read, reading a response of \<open>sz\<close> bytes gives the user exactly
  the first \<open>sz\<close> bytes of the response file, for every size whose buffer can be allocated.
\<close>

theorem response_exact:
  assumes "reads_image img bread (response_dev s)" and "brspdevice s = Ptr bd" and "\<not> hardlog_logging s" and "bio_alloc = Ptr b0"
    and "vmalloc (unat sz + 4096) = Some b" and "live b" and "unat sz + 4096 \<le> bsize b"
    and "unat sz + 4096 < 2 ^ 64"
  shows "\<exists>s'. hardlog_ioctl render bio_alloc submit bread vmalloc (READRESPONSE (Some sz) True) env s =
    Inr (0, UserBytes (read_mem img 0 (unat sz)), s', env)"
  using read_response [where render = render and submit = submit and env = env and vmalloc = vmalloc and sz = sz and img = img, OF assms] by blast

theorem response_exact_witness:
  "\<exists>s'. hardlog_ioctl id (Ptr bio_empty) tape_submit (image_bread (\<lambda>i. if i < 2 then CHR ''y'' else NUL)) fresh_block
      (READRESPONSE (Some 3) True) [] (module_at None) = Inr (0, UserBytes [CHR ''y'', CHR ''y'', NUL], s', [])"
proof -
  let ?img = "\<lambda>i :: nat. if i < 2 then CHR ''y'' else NUL"
  have v: "fresh_block (unat (3 :: u64) + 4096) = Some \<lparr>cells = (\<lambda>_. NUL), bsize = 4099, live = True\<rparr>"
    by (simp add: fresh_block_def)
  have "read_mem ?img 0 (unat (3 :: u64)) = [CHR ''y'', CHR ''y'', NUL]"
    by (simp add: read_mem_def upt_rec)
  with response_exact [where render = id and submit = tape_submit and env = "[]" and s = "module_at None" and sz = 3
      and bio_alloc = "Ptr bio_empty" and vmalloc = fresh_block and img = ?img, OF image_reads _ _ _ v]
  show ?thesis by simp
qed

text \<open>
  A huge response size overruns the buffer. The size comes from the user, and 4096 is added to it
  in 64 bits: for the last 4095 sizes the sum wraps, the buffer has at most two pages, and the sectors
  are read beyond it.
\<close>

theorem response_size_wraps:
  assumes "reads_image img bread (response_dev s)" and "brspdevice s = Ptr bd" and "\<not> hardlog_logging s" and "bio_alloc = Ptr b0"
    and "\<And>n. \<exists>b. vmalloc n = Some b \<and> live b \<and> bsize b \<le> n + 4096"
    and "2 ^ 64 - 4096 < unat sz"
  shows "hardlog_ioctl render bio_alloc submit bread vmalloc (READRESPONSE (Some sz) w) env s = Inl OutOfBounds"
proof -
  have "unat (sz + 4096) = (unat sz + 4096) mod 2 ^ 64" by (simp add: unat_word_ariths)
  also have "\<dots> = unat sz + 4096 - 2 ^ 64"
    using assms(6) u64_bound [of sz] by (subst le_mod_geq) auto
  finally have small: "unat (sz + 4096) < 4096" using u64_bound [of sz] by simp
  obtain b where b: "vmalloc (unat (sz + 4096)) = Some b" "live b" "bsize b \<le> unat (sz + 4096) + 4096"
    using assms(5) by blast
  then have "bsize b < 8192" using small by linarith
  then have "bsize b < 0 + unat sz" using assms(6) by simp
  then have "response_loop bread sz 0 0 env (s\<lparr>response_buffer := Some b\<rparr>) = Inl OutOfBounds"
    using assms b by (intro response_loop_overruns [OF assms(1)]) simp_all
  with assms(4) b(1) show ?thesis
    by (simp add: hardlog_ioctl_def bio_read_response_file_def Let_def)
qed

theorem response_size_wraps_witness:
  "hardlog_ioctl id (Ptr bio_empty) tape_submit (image_bread (\<lambda>_. NUL)) fresh_block (READRESPONSE (Some (- 1)) True) [] (module_at None)
    = Inl OutOfBounds"
proof -
  have "\<exists>b. fresh_block n = Some b \<and> live b \<and> bsize b \<le> n + 4096" for n by (simp add: fresh_block_def)
  moreover have "2 ^ 64 - 4096 < unat (- 1 :: u64)" by (simp add: unsigned_minus_1_eq_mask mask_eq_exp_minus_1)
  ultimately show ?thesis by (intro response_size_wraps [OF image_reads]) simp_all
qed

text \<open>
  Reading a response gives way to the flusher. As long as the flusher's flag is set and the other
  threads keep it set, the response is not read: the command is still waiting.
\<close>

theorem response_waits_for_flusher:
  assumes "brspdevice s = Ptr bd" and "bio_alloc = Ptr b0" and "hardlog_logging s"
    and "\<forall>f \<in> set env. \<forall>x. hardlog_logging x \<longrightarrow> hardlog_logging (f x)"
  shows "bio_read_response_file bio_alloc bread sz env s = Inl Waiting"
proof -
  have "wait_while hardlog_logging env s = Inl Waiting"
  proof (cases "wait_while hardlog_logging env s")
    case (Inl e)
    then show ?thesis using wait_while_cases [of hardlog_logging env s] by auto
  next
    case (Inr r)
    then obtain s' env' where w: "wait_while hardlog_logging env s = Inr (s', env')" by (cases r) auto
    then have "hardlog_logging s'"
      using wait_while_inv [where P = hardlog_logging, OF w assms(3)] assms(4) by blast
    with wait_while_exit [OF w] show ?thesis by blast
  qed
  then show ?thesis
    using assms(1,2) by (simp add: bio_read_response_file_def response_loop.simps [of bread] need_def)
qed

theorem response_waits_for_flusher_witness:
  "bio_read_response_file (Ptr bio_empty) (image_bread (\<lambda>_. NUL)) 512 [id, id] ((module_at None)\<lparr>hardlog_logging := True\<rparr>) = Inl Waiting"
  by (rule response_waits_for_flusher) simp_all

text \<open>
  A request is sent as a terminated string at sector 0. With the request buffer allocated and the
  request file open, a request whose text is shorter than a sector is written to sector 0 of the
  device, followed by a null character.
\<close>

theorem request_sent:
  assumes "request_buffer s = Some b" and "live b" and "bsize b = 4096" and "breqdevice s = Ptr bd" and "bio_alloc = Ptr b0"
    and "NUL \<in> set data" and "t = render (takeWhile (\<lambda>c. c \<noteq> NUL) data)" and "length t < 512"
  shows "\<exists>s' bs. hardlog_ioctl render bio_alloc submit bread vmalloc (SENDREQUEST (Some data)) env s = Inr (0, NoData, s', env)
    \<and> length bs = 512 \<and> take (length t + 1) bs = t @ [NUL] \<and> request_dev s' = fst (submit True 0 bs (request_dev s))"
proof -
  let ?bs = "read_mem (write_mem (cells b) 0 (t @ [NUL])) 0 512"
  have "take (length t + 1) ?bs = t @ [NUL]"
    using assms(8) read_write_same [of "cells b" 0 "t @ [NUL]"] by (simp add: read_mem_def take_map)
  then show ?thesis
    using send_request [where render = render and submit = submit and env = env, OF assms(1-7)] assms(8)
    by (intro exI conjI; (assumption | rule length_read_mem)?) auto
qed

theorem request_sent_witness:
  "\<exists>s' bs. hardlog_ioctl id (Ptr bio_empty) tape_submit (image_bread (\<lambda>_. NUL)) fresh_block
      (SENDREQUEST (Some (''GET'' @ NUL # replicate 10 CHR ''z''))) [] (module_at (fresh_block 4096)) = Inr (0, NoData, s', [])
    \<and> take 4 bs = ''GET'' @ [NUL] \<and> request_dev s' = bs"
proof -
  let ?data = "''GET'' @ NUL # replicate 10 CHR ''z''"
  have b: "request_buffer (module_at (fresh_block 4096)) = Some \<lparr>cells = (\<lambda>_. NUL), bsize = 4096, live = True\<rparr>"
    by (simp add: fresh_block_def)
  have t: "''GET'' = id (takeWhile (\<lambda>c. c \<noteq> NUL) ?data)" by simp
  obtain s' bs where "hardlog_ioctl id (Ptr bio_empty) tape_submit (image_bread (\<lambda>_. NUL)) fresh_block
      (SENDREQUEST (Some ?data)) [] (module_at (fresh_block 4096)) = Inr (0, NoData, s', [])"
    "take (length ''GET'' + 1) bs = ''GET'' @ [NUL]" "request_dev s' = fst (tape_submit True 0 bs (request_dev (module_at (fresh_block 4096))))"
    using request_sent [where render = id and submit = tape_submit and env = "[]" and vmalloc = fresh_block
        and bread = "image_bread (\<lambda>_. NUL)", OF b _ _ module_at_facts(3) refl _ t] by fastforce
  then show ?thesis by (intro exI [of _ s'] exI [of _ bs]) (simp add: tape_submit_def eval_nat_numeral)
qed

text \<open>
  The loaded module cannot send requests. The code that opens the two files and allocates the
  request buffer is disabled: after an init that succeeds with the buffer as it was at load time, any
  request of the administrator stops at a NULL pointer, and so does polling for its answer.
\<close>

theorem request_buffer_missing:
  assumes "hardlog_ioctl_init e c = Inr (True, c')" and "request_buffer s = None" and "breqdevice s = NullPtr" and "bio_alloc = Ptr b0"
  shows "class_live c' \<and> node c'
    \<and> hardlog_ioctl render bio_alloc submit bread vmalloc (SENDREQUEST (Some data)) env s = Inl NullDeref
    \<and> hardlog_ioctl render bio_alloc submit bread vmalloc (CHECKRESPONSEREADY w) env s = Inl NullDeref"
  using assms
  by (auto simp: hardlog_ioctl_init_def hardlog_ioctl_def snprintf_request_def bio_read_request_file_def need_def
      deref_def Let_def split: if_splits)

theorem request_buffer_missing_witness:
  "hardlog_ioctl id (Ptr bio_empty) tape_submit (image_bread (\<lambda>_. NUL)) fresh_block (SENDREQUEST (Some ''GET''))
     [] ((module_at None)\<lparr>breqdevice := NullPtr\<rparr>) = Inl NullDeref"
proof -
  have "hardlog_ioctl_init \<lparr>alloc_chrdev_region = 0, cdev_add = 0, class_create = Ptr (), device_create = Ptr ()\<rparr>
      \<lparr>region = False, hardlog_cdev = False, hardlog_class = NullPtr, class_live = False, node = False\<rparr>
    = Inr (True, \<lparr>region = True, hardlog_cdev = True, hardlog_class = Ptr (), class_live = True, node = True\<rparr>)"
    by (simp add: hardlog_ioctl_init_def)
  from request_buffer_missing [OF this, of "(module_at None)\<lparr>breqdevice := NullPtr\<rparr>" "Ptr bio_empty"] show ?thesis by simp
qed

text \<open>
  The teardown of the character device undoes a successful init; and an init that fails after the
  device was added leaves it added, without its region.
\<close>

theorem chrdev_lifecycle:
  "case hardlog_ioctl_init e \<lparr>region = False, hardlog_cdev = False, hardlog_class = NullPtr, class_live = False, node = False\<rparr> of
     Inl stopped \<Rightarrow> is_err (class_create e)
   | Inr (True, c) \<Rightarrow> (\<exists>c' s'. hardlog_ioctl_teardown put c s = Inr (c', s')
        \<and> \<not> region c' \<and> \<not> hardlog_cdev c' \<and> \<not> class_live c' \<and> \<not> node c')
   | Inr (False, c) \<Rightarrow> \<not> region c \<and> \<not> class_live c \<and> \<not> node c
        \<and> (hardlog_cdev c = (0 \<le> alloc_chrdev_region e \<and> 0 \<le> cdev_add e))"
  by (cases "class_create e") (auto simp: hardlog_ioctl_init_def hardlog_ioctl_teardown_def Let_def deref_def)

end
