(* ===== verification/HL_Cxx.thy ===== *)
theory HL_Cxx
  imports HL_Prelude "HOL-Library.Sublist"
begin

text \<open>
  What the two user-space libraries use of the C++ standard library: searching and erasing in
  strings, words and lines of streams, decimal conversion, and files as byte strings by name.
\<close>

section \<open>Strings\<close>

text \<open>\<open>str.find(word)\<close>: the first position, \<open>None\<close> for \<open>npos\<close>.\<close>

fun str_find :: "string \<Rightarrow> string \<Rightarrow> nat option" where
  "str_find pat [] = (if pat = [] then Some 0 else None)"
| "str_find pat (c # cs) = (if prefix pat (c # cs) then Some 0 else map_option Suc (str_find pat cs))"

lemma str_find_iff: "str_find pat s \<noteq> None \<longleftrightarrow> sublist pat s"
proof (induction pat s rule: str_find.induct)
  case (2 pat c cs)
  then show ?case by (auto simp: sublist_Cons_right)
qed simp

lemma str_find_None: "str_find pat s = None \<longleftrightarrow> \<not> sublist pat s"
  using str_find_iff by blast

lemma str_find_Some: "str_find pat s = Some p \<Longrightarrow> p + length pat \<le> length s"
proof (induction pat s arbitrary: p rule: str_find.induct)
  case (2 pat c cs)
  then show ?case by (auto split: if_splits dest: prefix_length_le)
qed (auto split: if_splits)

text \<open>\<open>str.replace(p, n, "")\<close>, with the count clipped at the end of the string.\<close>

definition str_erase :: "nat \<Rightarrow> nat \<Rightarrow> string \<Rightarrow> string" where
  "str_erase p n s = take p s @ drop (p + n) s"

lemma str_erase_shorter: "p < length s \<Longrightarrow> 0 < n \<Longrightarrow> length (str_erase p n s) < length s"
  by (auto simp: str_erase_def)

section \<open>Words and lines\<close>

definition is_space :: "char \<Rightarrow> bool" where
  "is_space c \<longleftrightarrow> c \<in> {CHR '' '', CHR 0x09, CHR 0x0A, CHR 0x0B, CHR 0x0C, CHR 0x0D}"

text \<open>\<open>stream >> word\<close>: the word and what is left; \<open>None\<close> when only white space is left.\<close>

definition read_word :: "string \<Rightarrow> (string \<times> string) option" where
  "read_word s = (let t = dropWhile is_space s
     in if t = [] then None else Some (takeWhile (\<lambda>c. \<not> is_space c) t, dropWhile (\<lambda>c. \<not> is_space c) t))"

lemma read_word_shorter: "read_word s = Some (w, r) \<Longrightarrow> length r < length s"
proof -
  assume "read_word s = Some (w, r)"
  then obtain t where t: "t = dropWhile is_space s" "t \<noteq> []" "r = dropWhile (\<lambda>c. \<not> is_space c) t"
    by (auto simp: read_word_def Let_def split: if_splits)
  obtain c cs where c: "t = c # cs" using t(2) by (cases t) auto
  have "\<not> is_space c" using t(1,2) c hd_dropWhile [of is_space s] by (metis list.sel(1))
  then have "length r \<le> length cs" using t(3) c by (simp add: length_dropWhile_le)
  moreover have "length t \<le> length s" using t(1) by (simp add: length_dropWhile_le)
  ultimately show ?thesis using c by simp
qed

function words :: "string \<Rightarrow> string list" where
  "words s = (case read_word s of None \<Rightarrow> [] | Some (w, r) \<Rightarrow> w # words r)"
  by pat_completeness auto

termination
  by (relation "measure length") (auto dest: read_word_shorter)

declare words.simps [simp del]

text \<open>\<open>getline\<close>: the line without its end, and what is left; \<open>None\<close> at the end of the stream.\<close>

definition next_line :: "string \<Rightarrow> (string \<times> string) option" where
  "next_line s = (if s = [] then None
     else Some (takeWhile (\<lambda>c. c \<noteq> NEWLINE) s, drop 1 (dropWhile (\<lambda>c. c \<noteq> NEWLINE) s)))"

lemma next_line_shorter: "next_line s = Some (l, r) \<Longrightarrow> length r < length s"
proof -
  assume "next_line s = Some (l, r)"
  then have s: "s \<noteq> []" "r = drop 1 (dropWhile (\<lambda>c. c \<noteq> NEWLINE) s)"
    by (auto simp: next_line_def split: if_splits)
  have "length (dropWhile (\<lambda>c. c \<noteq> NEWLINE) s) \<le> length s" by (rule length_dropWhile_le)
  then show ?thesis using s by (cases s) auto
qed

lemma dropWhile_hit: "\<forall>c \<in> set xs. P c \<Longrightarrow> \<not> P y \<Longrightarrow> dropWhile P (xs @ y # ys) = y # ys"
  by (induction xs) auto

lemma takeWhile_hit: "\<forall>c \<in> set xs. P c \<Longrightarrow> \<not> P y \<Longrightarrow> takeWhile P (xs @ y # ys) = xs"
  by (induction xs) auto

lemma next_line_line: "NEWLINE \<notin> set l \<Longrightarrow> next_line (l @ NEWLINE # r) = Some (l, r)"
proof -
  assume "NEWLINE \<notin> set l"
  then have "\<forall>c \<in> set l. c \<noteq> NEWLINE" by blast
  from dropWhile_hit [OF this] takeWhile_hit [OF this] show ?thesis by (simp add: next_line_def)
qed

lemma read_word_space: "is_space c \<Longrightarrow> read_word (c # s) = read_word s"
  by (simp add: read_word_def)

lemma read_word_word:
  assumes "w \<noteq> []" and "\<forall>c \<in> set w. \<not> is_space c" and "r = [] \<or> is_space (hd r)"
  shows "read_word (w @ r) = Some (w, r)"
proof -
  have d: "dropWhile is_space (w @ r) = w @ r" using assms(1,2) by (cases w) auto
  show ?thesis
  proof (cases r)
    case Nil
    then show ?thesis using assms(1,2) d by (simp add: read_word_def takeWhile_eq_all_conv dropWhile_eq_Nil_conv)
  next
    case (Cons c cs)
    then show ?thesis using assms d dropWhile_hit [of w "\<lambda>c. \<not> is_space c" c cs] takeWhile_hit [of w "\<lambda>c. \<not> is_space c" c cs]
      by (simp add: read_word_def)
  qed
qed

section \<open>Decimal numbers\<close>

definition digit :: "nat \<Rightarrow> char" where
  "digit d = char_of (48 + d)"

definition digit_value :: "char \<Rightarrow> nat option" where
  "digit_value c = (let n = of_char c in if 48 \<le> n \<and> n \<le> 57 then Some (n - 48) else None)"

fun to_string :: "nat \<Rightarrow> string" where
  "to_string n = (if n < 10 then [digit n] else to_string (n div 10) @ [digit (n mod 10)])"

declare to_string.simps [simp del]

text \<open>The digits at the start of a string and their value.\<close>

fun read_digits :: "nat \<Rightarrow> string \<Rightarrow> nat" where
  "read_digits acc [] = acc"
| "read_digits acc (c # cs) = (case digit_value c of None \<Rightarrow> acc | Some d \<Rightarrow> read_digits (10 * acc + d) cs)"

text \<open>
  \<open>stoul\<close> in base 10: white space, an optional sign, digits. Without a digit it throws
  \<open>invalid_argument\<close>, beyond 64 bits \<open>out_of_range\<close>; a minus sign negates modulo 2 ^ 64.
\<close>

definition stoul :: "string \<Rightarrow> u64 res" where
  "stoul s =
     (let t = dropWhile is_space s;
          neg = (t \<noteq> [] \<and> hd t = CHR ''-'');
          ds = (if t \<noteq> [] \<and> (hd t = CHR ''-'' \<or> hd t = CHR ''+'') then tl t else t)
      in if ds = [] \<or> digit_value (hd ds) = None then Inl InvalidArgument
         else let n = read_digits 0 ds
              in if 2 ^ 64 \<le> n then Inl OutOfRange
                 else Inr (if neg then - of_nat n else of_nat n))"

lemma digit_chars: "d < 10 \<Longrightarrow> digit d \<in> set ''0123456789''"
proof -
  assume "d < 10"
  then have "d \<in> {0, 1, 2, 3, 4, 5, 6, 7, 8, 9}" by auto
  then show ?thesis by (elim insertE) (simp_all add: digit_def char_of_def bit_0)
qed

lemma digit_value_digit [simp]: "d < 10 \<Longrightarrow> digit_value (digit d) = Some d"
  by (simp add: digit_value_def digit_def)

lemma digit_not_space [simp]: "d < 10 \<Longrightarrow> \<not> is_space (digit d)"
  using digit_chars [of d] by (auto simp: is_space_def)

lemma read_digits_append:
  "read_digits acc (to_string n @ r) = read_digits (acc * 10 ^ length (to_string n) + n) r"
proof (induction n arbitrary: acc r rule: to_string.induct)
  case (1 n)
  show ?case
  proof (cases "n < 10")
    case True
    then show ?thesis by (simp add: to_string.simps [of n] mult.commute)
  next
    case False
    then have "to_string n = to_string (n div 10) @ [digit (n mod 10)]" by (simp add: to_string.simps [of n])
    then show ?thesis using "1.IH" [OF False, of acc "digit (n mod 10) # r"]
      by (simp add: algebra_simps)
  qed
qed

lemma to_string_digits: "c \<in> set (to_string n) \<Longrightarrow> \<exists>d < 10. c = digit d"
proof (induction n rule: to_string.induct)
  case (1 n)
  then show ?case by (subst (asm) (2) to_string.simps) (auto split: if_splits intro: exI [of _ "n mod 10"])
qed

lemma to_string_Cons: "\<exists>d ds. d < 10 \<and> to_string n = digit d # ds"
proof -
  have "to_string n \<noteq> []" by (simp add: to_string.simps [of n])
  then obtain c cs where "to_string n = c # cs" by (cases "to_string n") auto
  then show ?thesis using to_string_digits [of c n] by auto
qed

lemma to_string_no_space: "\<forall>c \<in> set (to_string n). \<not> is_space c"
  using to_string_digits by fastforce

text \<open>The number printed and then followed by anything but a digit is read back.\<close>

lemma stoul_to_string:
  assumes "n < 2 ^ 64" and "r = [] \<or> digit_value (hd r) = None"
  shows "stoul (to_string n @ r) = Inr (of_nat n)"
proof -
  obtain d ds where d: "d < 10" "to_string n = digit d # ds" using to_string_Cons by blast
  have sign: "digit d \<noteq> CHR ''-''" "digit d \<noteq> CHR ''+''"
    using digit_chars [OF d(1)] by auto
  have "read_digits 0 (to_string n @ r) = n"
    using assms(2) read_digits_append [of 0 n r] by (cases r) auto
  then show ?thesis using assms(1) d sign by (simp add: stoul_def Let_def)
qed

text \<open>How long a number is.\<close>

lemma length_to_string: "n < 10 ^ k \<Longrightarrow> 0 < k \<Longrightarrow> length (to_string n) \<le> k"
proof (induction n arbitrary: k rule: to_string.induct)
  case (1 n)
  show ?case
  proof (cases "n < 10")
    case True
    then show ?thesis using 1(3) by (simp add: to_string.simps [of n])
  next
    case False
    then obtain j where j: "k = Suc j" "0 < j" using 1(2,3) by (cases k; cases "k - 1") auto
    have "n div 10 < 10 ^ j" using 1(2) j(1) by (simp add: less_mult_imp_div_less mult.commute)
    then have "length (to_string (n div 10)) \<le> j" using 1(1) False j(2) by blast
    then show ?thesis using False j(1) by (simp add: to_string.simps [of n])
  qed
qed

lemma to_string_lower: "10 ^ k \<le> n \<Longrightarrow> k < length (to_string n)"
proof (induction n arbitrary: k rule: to_string.induct)
  case (1 n)
  show ?case
  proof (cases "n < 10")
    case True
    then have "(10 :: nat) ^ k < 10 ^ 1" using 1(2) by simp
    then have "k < 1" by (rule power_less_imp_less_exp [rotated]) simp
    then show ?thesis using True by (simp add: to_string.simps [of n])
  next
    case False
    show ?thesis
    proof (cases k)
      case (Suc j)
      then have "10 ^ j \<le> n div 10" using 1(2) by (simp add: less_eq_div_iff_mult_less_eq mult.commute)
      then show ?thesis using 1(1) False Suc by (simp add: to_string.simps [of n])
    qed (simp add: False to_string.simps [of n])
  qed
qed

end
