(* ===== verification/HL_HostLib.thy ===== *)
theory HL_HostLib
  imports HL_Ioctl HL_Cxx
begin

text \<open>
  \<open>host/library/device.cpp\<close> and \<open>main.cpp\<close>: the administrator's program. It sends each word typed as
  a command, polls the module until the device announces the response, reads the response and
  stores it in a file.

  The module is reached through a \<open>driver\<close>: a command, what the other threads do during the sleeps
  that follow, the module's state; the answer as in \<open>HL_Ioctl\<close>. Its own sleeps take their elements
  from the same list. Return codes of the driver are ignored, as in the code, so that data a failed
  command did not write keep their old value. Timing and messages are left out.
\<close>

section \<open>State\<close>

type_synonym 'm driver =
  "hardlog_cmd \<Rightarrow> ('m \<Rightarrow> 'm) list \<Rightarrow> 'm \<Rightarrow> (int \<times> to_user \<times> 'm \<times> ('m \<Rightarrow> 'm) list) res"

record 'm user =
  module_state :: 'm
  hreq_data :: "char list"
  response_gz :: "string option"

record 'm host_env =
  driver :: "'m driver"
  user_malloc :: "nat \<Rightarrow> block option"
  may_open_response :: bool

section \<open>Parsing the announcement\<close>

text \<open>A character array as a C string: without a terminator the conversion reads past its end.\<close>

definition c_string :: "char list \<Rightarrow> string res" where
  "c_string data = (if NUL \<in> set data then Inr (takeWhile (\<lambda>c. c \<noteq> NUL) data) else Inl OutOfBounds)"

text \<open>\<open>response >> word\<close>, which leaves the word as it was when the stream has no more.\<close>

definition extract_word :: "string \<Rightarrow> string \<Rightarrow> string \<times> string" where
  "extract_word word s = (case read_word s of None \<Rightarrow> (word, []) | Some (w, r) \<Rightarrow> (w, r))"

definition is_response_ready :: "char list \<Rightarrow> bool res" where
  "is_response_ready data = rbind (c_string data) (\<lambda>s. Inr (fst (extract_word [] s) = ''READY''))"

definition get_response_size :: "char list \<Rightarrow> u64 res" where
  "get_response_size data = rbind (c_string data) (\<lambda>s.
     case extract_word [] s of (w1, r1) \<Rightarrow> case extract_word w1 r1 of (w2, _) \<Rightarrow> stoul w2)"

section \<open>Commands\<close>

definition write_response_to_file :: "bool \<Rightarrow> block \<Rightarrow> u64 \<Rightarrow> 'm user \<Rightarrow> 'm user res" where
  "write_response_to_file may_open data sz u =
     (if \<not> may_open then Inr u
      else rbind (load data 0 (unat sz)) (\<lambda>bs. Inr (u\<lparr>response_gz := Some bs\<rparr>)))"

text \<open>What a command writes to the memory of the user, here the request structure.\<close>

definition into_request :: "to_user \<Rightarrow> char list \<Rightarrow> char list" where
  "into_request out old = (case out of UserBytes bs \<Rightarrow> bs | _ \<Rightarrow> old)"

definition send_command :: "'m host_env \<Rightarrow> string \<Rightarrow> ('m \<Rightarrow> 'm) list \<Rightarrow> 'm user \<Rightarrow> ('m user \<times> ('m \<Rightarrow> 'm) list) res" where
  "send_command e command env u =
     (let txt = take 4095 (command @ [NEWLINE]);
          data = txt @ [NUL] @ drop (length txt + 1) (hreq_data u)
      in rbind (driver e (SENDREQUEST (Some data)) env (module_state u)) (\<lambda>(_, out, m, env').
         Inr (u\<lparr>module_state := m, hreq_data := data\<rparr>, env')))"

text \<open>
  Reading an announced response: whether to go on (a failed allocation leaves the program), the state.
  The driver copies into the fresh buffer.
\<close>

definition take_response :: "'m host_env \<Rightarrow> ('m \<Rightarrow> 'm) list \<Rightarrow> 'm user \<Rightarrow> (bool \<times> 'm user \<times> ('m \<Rightarrow> 'm) list) res" where
  "take_response e env u =
     rbind (get_response_size (hreq_data u)) (\<lambda>sz.
     case user_malloc e (unat (sz + 512)) of None \<Rightarrow> Inr (False, u, env)
     | Some b \<Rightarrow>
         rbind (driver e (READRESPONSE (Some sz) True) env (module_state u)) (\<lambda>(_, out, m, env').
         rbind (case out of UserBytes bs \<Rightarrow> store b 0 bs | _ \<Rightarrow> Inr b) (\<lambda>b'.
         rbind (write_response_to_file (may_open_response e) b' sz (u\<lparr>module_state := m\<rparr>)) (\<lambda>u'.
         Inr (True, u', env')))))"

text \<open>The polling loop: each element of the list is what happens during a sleep.\<close>

function await_response ::
    "'m host_env \<Rightarrow> nat \<Rightarrow> ('m \<Rightarrow> 'm) list \<Rightarrow> 'm user \<Rightarrow> (bool \<times> 'm user \<times> ('m \<Rightarrow> 'm) list) res" where
  "await_response e 0 env u = Inl Waiting"
| "await_response e (Suc n) [] u = Inl Waiting"
| "await_response e (Suc n) (f # env) u =
     rbind (driver e (CHECKRESPONSEREADY True) env (f (module_state u))) (\<lambda>(_, out, m, env').
     let u' = u\<lparr>module_state := m, hreq_data := into_request out (hreq_data u)\<rparr>
     in rbind (is_response_ready (hreq_data u')) (\<lambda>ready.
        if ready then take_response e env' u' else await_response e n env' u'))"
  by pat_completeness auto

termination
  by (relation "measure (\<lambda>(_, n, _, _). n)") auto

fun command_loop ::
    "'m host_env \<Rightarrow> nat \<Rightarrow> string list \<Rightarrow> ('m \<Rightarrow> 'm) list \<Rightarrow> 'm user \<Rightarrow> ('m user \<times> ('m \<Rightarrow> 'm) list) res" where
  "command_loop e polls [] env u = Inr (u, env)"
| "command_loop e polls (command # commands) env u =
     (if command = ''exit'' then Inr (u, env)
      else rbind (send_command e command env u) (\<lambda>(u1, env1).
           rbind (await_response e polls env1 u1) (\<lambda>(go_on, u2, env2).
           if go_on then command_loop e polls commands env2 u2 else Inr (u2, env2))))"

definition start_device_communication_host ::
    "'m host_env \<Rightarrow> bool \<Rightarrow> nat \<Rightarrow> string list \<Rightarrow> ('m \<Rightarrow> 'm) list \<Rightarrow> 'm user \<Rightarrow> ('m user \<times> ('m \<Rightarrow> 'm) list) res" where
  "start_device_communication_host e opened polls commands env u =
     (if \<not> opened then Inr (u, env) else command_loop e polls commands env u)"

text \<open>The stress test sends one command again and again: here a number of times.\<close>

definition stress_device_communication ::
    "'m host_env \<Rightarrow> bool \<Rightarrow> nat \<Rightarrow> nat \<Rightarrow> ('m \<Rightarrow> 'm) list \<Rightarrow> 'm user \<Rightarrow> ('m user \<times> ('m \<Rightarrow> 'm) list) res" where
  "stress_device_communication e opened polls turns env u =
     (if \<not> opened then Inr (u, env) else command_loop e polls (replicate turns ''ALL'') env u)"

definition stress_host :: bool where
  "stress_host = False"

definition host_main ::
    "'m host_env \<Rightarrow> bool \<Rightarrow> nat \<Rightarrow> nat \<Rightarrow> string list \<Rightarrow> ('m \<Rightarrow> 'm) list \<Rightarrow> 'm user \<Rightarrow> (int \<times> 'm user) res" where
  "host_main e opened polls turns commands env u =
     rbind (if stress_host then stress_device_communication e opened polls turns env u
            else start_device_communication_host e opened polls commands env u) (\<lambda>(u', _). Inr (1, u'))"

section \<open>Facts\<close>

lemma c_string_text: "NUL \<notin> set t \<Longrightarrow> c_string (t @ NUL # r) = Inr t"
  by (simp add: c_string_def takeWhile_NUL)

lemma extract_word_space: "is_space c \<Longrightarrow> extract_word w (c # s) = extract_word w s"
  by (simp add: extract_word_def read_word_space)

lemma extract_word_word:
  "w \<noteq> [] \<Longrightarrow> \<forall>c \<in> set w. \<not> is_space c \<Longrightarrow> r = [] \<or> is_space (hd r) \<Longrightarrow> extract_word w0 (w @ r) = (w, r)"
  by (simp add: extract_word_def read_word_word)

text \<open>An announcement: the word, a space, a number word, a terminator or white space.\<close>

lemma announcement_parses:
  assumes "w \<noteq> []" and "\<forall>c \<in> set w. \<not> is_space c" and "NUL \<notin> set w"
    and "s = [] \<or> is_space (hd s)" and "NUL \<notin> set s"
  shows "is_response_ready (''READY'' @ CHR '' '' # w @ s @ NUL # r) = Inr True"
    and "get_response_size (''READY'' @ CHR '' '' # w @ s @ NUL # r) = stoul w"
proof -
  have c: "c_string (''READY'' @ CHR '' '' # w @ s @ NUL # r) = Inr (''READY'' @ CHR '' '' # w @ s)"
    using c_string_text [of "''READY'' @ CHR '' '' # w @ s" r] assms(3,5) by simp
  have 1: "extract_word [] (''READY'' @ CHR '' '' # w @ s) = (''READY'', CHR '' '' # w @ s)"
    by (rule extract_word_word) (simp_all add: is_space_def)
  have 2: "extract_word ''READY'' (CHR '' '' # w @ s) = (w, s)"
    using extract_word_word [OF assms(1,2,4)] by (subst extract_word_space) (simp_all add: is_space_def)
  show "is_response_ready (''READY'' @ CHR '' '' # w @ s @ NUL # r) = Inr True"
    unfolding is_response_ready_def c by (simp add: 1 del: append.simps)
  show "get_response_size (''READY'' @ CHR '' '' # w @ s @ NUL # r) = stoul w"
    unfolding get_response_size_def c by (simp add: 1 2 del: append.simps)
qed

definition all_digits :: "string \<Rightarrow> bool" where
  "all_digits s \<longleftrightarrow> (\<forall>c \<in> set s. \<exists>d < 10. c = digit d)"

lemma all_digits_to_string: "all_digits (to_string n)"
  using to_string_digits by (auto simp: all_digits_def)

lemma digit_not_NUL: "d < 10 \<Longrightarrow> digit d \<noteq> NUL"
  using digit_chars [of d] by auto

lemma all_digits_clean: "all_digits s \<Longrightarrow> (\<forall>c \<in> set s. \<not> is_space c) \<and> NUL \<notin> set s"
  using digit_not_NUL by (fastforce simp: all_digits_def)

lemma read_digits_bounds:
  assumes "all_digits ds"
  shows "acc * 10 ^ length ds \<le> read_digits acc ds \<and> read_digits acc ds < Suc acc * 10 ^ length ds"
  using assms
proof (induction ds arbitrary: acc)
  case (Cons c cs)
  then obtain d where d: "d < 10" "c = digit d" "all_digits cs" by (auto simp: all_digits_def)
  define P :: nat where "P = 10 ^ length cs"
  have i: "(10 * acc + d) * P \<le> read_digits (10 * acc + d) cs" "read_digits (10 * acc + d) cs < P + (10 * acc + d) * P"
    using Cons.IH [OF d(3), of "10 * acc + d"] by (simp_all add: P_def)
  have e: "(10 * acc + d) * P = 10 * (acc * P) + d * P" by (simp add: add_mult_distrib)
  have le: "d * P \<le> 9 * P" by (rule mult_le_mono1) (use d(1) in simp)
  have "acc * 10 ^ length (c # cs) = 10 * (acc * P)" "Suc acc * 10 ^ length (c # cs) = 10 * P + 10 * (acc * P)"
    by (simp_all add: P_def)
  moreover have "read_digits acc (c # cs) = read_digits (10 * acc + d) cs" using d by simp
  ultimately show ?case using i e le by linarith
qed simp

lemma stoul_digits:
  assumes "all_digits ds" and "ds \<noteq> []" and "read_digits 0 ds < 2 ^ 64"
  shows "stoul ds = Inr (of_nat (read_digits 0 ds))"
proof -
  obtain d cs where d: "d < 10" "ds = digit d # cs" using assms(1,2) by (cases ds) (auto simp: all_digits_def)
  then have "digit d \<noteq> CHR ''-''" "digit d \<noteq> CHR ''+''" using digit_chars [of d] by auto
  then show ?thesis using d assms(3) by (simp add: stoul_def Let_def)
qed

end
