(* ===== verification/DL_Response.thy ===== *)
theory DL_Response
  imports HL_Cxx
begin

text \<open>
  \<open>device/library/response.cpp\<close>: answering a request on the audit device. The log, or the lines of
  it that contain a key, is copied to a temporary file, the temporary file is compressed, its bytes
  go to the response file and a message with their number to the command file.

  Files are byte strings by name. Parameters (record \<open>os\<close>): which names can be opened for writing,
  what the two allocations of a function return (with arbitrary contents), and the effect of a shell
  command on the files. Reading an open file does not fail, messages are left out.
\<close>

section \<open>State\<close>

type_synonym files = "string \<Rightarrow> string option"

record os =
  may_write :: "string \<Rightarrow> bool"
  malloc1 :: "nat \<Rightarrow> block option"
  malloc2 :: "nat \<Rightarrow> block option"
  shell :: "string \<Rightarrow> files \<Rightarrow> files"

record devlib =
  files :: files
  tmp_resp_filename :: string
  log_file_start_offset :: u64
  log_file_end_offset :: u64
  compression :: bool

definition log_filename :: string where "log_filename = ''/mnt/nvme/host-data.bin''"
definition comm_filename :: string where "comm_filename = ''/mnt/nvme/server-commands.bin''"
definition resp_filename :: string where "resp_filename = ''/mnt/nvme/server-data.bin''"

text \<open>The 128 KB of the copy buffers.\<close>

definition CHUNK :: nat where
  "CHUNK = 128 * 1024"

lemma CHUNK_pos [simp]: "0 < CHUNK" "CHUNK \<noteq> 0"
  by (simp_all add: CHUNK_def)

text \<open>
  A seek to an absolute position: a negative \<open>long\<close> is refused, which leaves a C stream at its start
  (and makes the reads of a C++ stream fail).
\<close>

definition seek_ok :: "u64 \<Rightarrow> bool" where
  "seek_ok off \<longleftrightarrow> 0 \<le> sint off"

definition after_seek :: "u64 \<Rightarrow> string \<Rightarrow> string" where
  "after_seek off content = (if seek_ok off then drop (unat off) content else content)"

text \<open>Writing from the start of a file opened with \<open>r+\<close>.\<close>

definition overwrite :: "string \<Rightarrow> string \<Rightarrow> string" where
  "overwrite xs old = xs @ drop (length xs) old"

section \<open>Dumping the log\<close>

text \<open>The loop of \<open>remove_null_chars\<close>: the characters left, the position written next.\<close>

fun null_loop :: "block \<Rightarrow> nat \<Rightarrow> nat \<Rightarrow> block \<Rightarrow> nat \<Rightarrow> (block \<times> nat) res" where
  "null_loop tmp i 0 trim n = Inr (trim, n)"
| "null_loop tmp i (Suc k) trim n =
     rbind (load tmp (int i) 1) (\<lambda>cs.
       if hd cs \<noteq> NUL
       then rbind (store trim (int n) cs) (\<lambda>trim'. null_loop tmp (Suc i) k trim' (Suc n))
       else null_loop tmp (Suc i) k trim n)"

definition remove_null_chars :: "block \<Rightarrow> block \<Rightarrow> nat \<Rightarrow> (block \<times> nat) res" where
  "remove_null_chars tmp trim n = null_loop tmp 0 n trim 0"

text \<open>
  The copy loop: what is left of the log, the bytes still to copy, the two buffers, what the response
  stream has so far (\<open>None\<close> for a NULL stream). \<open>fwrite\<close> and \<open>fclose\<close> follow the stream.
\<close>

definition fwrite :: "string \<Rightarrow> string option \<Rightarrow> string option res" where
  "fwrite xs fp = (case fp of None \<Rightarrow> Inl NullDeref | Some out \<Rightarrow> Inr (Some (out @ xs)))"

function dump_loop :: "string \<Rightarrow> u64 \<Rightarrow> block \<Rightarrow> block \<Rightarrow> string option \<Rightarrow> (u64 \<times> string option) res" where
  "dump_loop data bytes tmpbuf trimbuf fp =
     (if bytes = 0 then Inr (bytes, fp)
      else let chunk = take CHUNK data; readbytes = (of_nat (length chunk) :: u64)
      in if chunk = [] then Inr (bytes, fp)
      else rbind (store tmpbuf 0 chunk) (\<lambda>tmpbuf'.
           rbind (remove_null_chars tmpbuf' trimbuf CHUNK) (\<lambda>(trimbuf', trimbytes).
           rbind (load trimbuf' 0 trimbytes) (\<lambda>xs.
           rbind (fwrite xs fp) (\<lambda>fp'.
           if readbytes > bytes then Inr (0, fp')
           else dump_loop (drop CHUNK data) (bytes - readbytes) tmpbuf' trimbuf' fp')))))"
  by pat_completeness auto

termination
  by (relation "measure (\<lambda>(data, _). length data)") auto

declare dump_loop.simps [simp del]

definition dump_log :: "os \<Rightarrow> devlib \<Rightarrow> devlib res" where
  "dump_log os s =
     (let bytes = log_file_end_offset s - log_file_start_offset s
      in if bytes \<ge> 100 * 1024 * 1024 then Inr s
      else case files s log_filename of None \<Rightarrow> Inr s
      | Some content \<Rightarrow>
          let data = after_seek (log_file_start_offset s) content;
              opened = may_write os (tmp_resp_filename s);
              s1 = (if opened then s\<lparr>files := (files s)(tmp_resp_filename s := Some [])\<rparr> else s)
          in case malloc1 os CHUNK of None \<Rightarrow> Inr s1 | Some tmpbuf \<Rightarrow>
          case malloc2 os CHUNK of None \<Rightarrow> Inr s1 | Some trimbuf \<Rightarrow>
          rbind (dump_loop data bytes tmpbuf trimbuf (if opened then Some [] else None)) (\<lambda>(_, fp).
          rbind (fwrite [] fp) (\<lambda>out.
          Inr (s1\<lparr>files := (files s1)(tmp_resp_filename s := out)\<rparr>))))"

section \<open>Filtering the log\<close>

function filter_loop :: "string \<Rightarrow> u64 \<Rightarrow> u64 \<Rightarrow> string \<Rightarrow> string \<Rightarrow> string" where
  "filter_loop key bytes read_bytes out data =
     (case next_line data of None \<Rightarrow> out
      | Some (line, rest) \<Rightarrow>
          let out' = (if str_find key line \<noteq> None then out @ line @ [NEWLINE] else out);
              read_bytes' = read_bytes + of_nat (length line)
          in if read_bytes' \<ge> bytes then out' else filter_loop key bytes read_bytes' out' rest)"
  by pat_completeness auto

termination
  by (relation "measure (\<lambda>(_, _, _, _, data). length data)") (auto dest: next_line_shorter)

declare filter_loop.simps [simp del]

definition filter_and_dump_log :: "os \<Rightarrow> string \<Rightarrow> devlib \<Rightarrow> devlib" where
  "filter_and_dump_log os key s =
     (let bytes = log_file_end_offset s - log_file_start_offset s
      in case files s log_filename of None \<Rightarrow> s
      | Some content \<Rightarrow>
          if \<not> may_write os (tmp_resp_filename s) then s
          else let data = (if seek_ok (log_file_start_offset s) then drop (unat (log_file_start_offset s)) content else [])
               in s\<lparr>files := (files s)(tmp_resp_filename s := Some (filter_loop key bytes 0 [] data))\<rparr>)"

section \<open>Committing a response\<close>

definition commit_compress :: "os \<Rightarrow> devlib \<Rightarrow> devlib" where
  "commit_compress os s =
     s\<lparr>files := shell os (''pigz --fast -k -f '' @ tmp_resp_filename s) (files s),
       tmp_resp_filename := tmp_resp_filename s @ ''.gz''\<rparr>"

function copy_loop :: "string \<Rightarrow> block \<Rightarrow> string \<Rightarrow> u64 \<Rightarrow> (string \<times> u64) res" where
  "copy_loop data readbuf out byte_count =
     (let chunk = take CHUNK data
      in if chunk = [] then Inr (out, byte_count)
      else rbind (store readbuf 0 chunk) (\<lambda>readbuf'.
           rbind (load readbuf' 0 CHUNK) (\<lambda>xs.
           copy_loop (drop CHUNK data) readbuf' (out @ xs) (byte_count + of_nat (length chunk)))))"
  by pat_completeness auto

termination
  by (relation "measure (\<lambda>(data, _). length data)") auto

declare copy_loop.simps [simp del]

definition commit_response :: "os \<Rightarrow> devlib \<Rightarrow> (u64 \<times> devlib) res" where
  "commit_response os s =
     (case files s (tmp_resp_filename s) of None \<Rightarrow> Inr (0, s)
      | Some data \<Rightarrow> (case (if may_write os resp_filename then files s resp_filename else None) of None \<Rightarrow> Inr (0, s)
      | Some old \<Rightarrow> (case malloc1 os CHUNK of None \<Rightarrow> Inr (0, s)
      | Some b \<Rightarrow>
          rbind (store b 0 (replicate CHUNK NUL)) (\<lambda>readbuf.
          rbind (copy_loop data readbuf [] 0) (\<lambda>(out, byte_count).
          Inr (byte_count, s\<lparr>files := (files s)(resp_filename := Some (overwrite out old))\<rparr>))))))"

definition commit_response_message :: "os \<Rightarrow> u64 \<Rightarrow> devlib \<Rightarrow> devlib" where
  "commit_response_message os bytes s =
     (let resp_msg = ''READY '' @ to_string (unat bytes)
      in case (if may_write os comm_filename then files s comm_filename else None) of None \<Rightarrow> s
      | Some old \<Rightarrow> s\<lparr>files := (files s)(comm_filename := Some (overwrite resp_msg old))\<rparr>)"

definition commit :: "os \<Rightarrow> devlib \<Rightarrow> devlib res" where
  "commit os s =
     (let s1 = (if compression s then commit_compress os s else s)
      in rbind (commit_response os s1) (\<lambda>(bytes, s2).
         Inr ((commit_response_message os bytes s2)\<lparr>tmp_resp_filename := ''response''\<rparr>)))"

text \<open>The clearing of a part of the log, which no caller uses: opening with \<open>out\<close> truncates the file.\<close>

definition clear_log :: "os \<Rightarrow> u64 \<Rightarrow> u64 \<Rightarrow> devlib \<Rightarrow> (bool \<times> devlib) res" where
  "clear_log os start bytes s =
     (if \<not> may_write os log_filename then Inr (False, s)
      else case malloc1 os (unat bytes) of None \<Rightarrow> Inr (False, s\<lparr>files := (files s)(log_filename := Some [])\<rparr>)
      | Some b \<Rightarrow>
          rbind (store b 0 (replicate (unat bytes) NUL)) (\<lambda>b'.
          if bytes = 0 then Inl OutOfBounds
          else Inr (False, s\<lparr>files := (files s)(log_filename :=
                 Some (if seek_ok start then replicate (unat start) NUL @ [NEWLINE] else []))\<rparr>)))"

section \<open>Facts\<close>

subsection \<open>Removing the null characters\<close>

abbreviation trimmed :: "string \<Rightarrow> string" where
  "trimmed \<equiv> filter (\<lambda>c. c \<noteq> NUL)"

lemma read_mem_Suc: "read_mem m i (Suc k) = m i # read_mem m (Suc i) k"
  using read_mem_add [of m i 1 k] by (simp add: read_mem_def)

lemma write_mem_Cons: "write_mem (write_mem m n [c]) (Suc n) xs = write_mem m n (c # xs)"
  using write_mem_append [of m n "[c]" xs] by simp

lemma null_loop_eq:
  assumes "live tmp" and "live trim" and "i + k \<le> bsize tmp" and "n + k \<le> bsize trim"
  shows "null_loop tmp i k trim n =
    Inr (trim\<lparr>cells := write_mem (cells trim) n (trimmed (read_mem (cells tmp) i k))\<rparr>,
         n + length (trimmed (read_mem (cells tmp) i k)))"
  using assms
proof (induction tmp i k trim n rule: null_loop.induct)
  case (1 tmp i trim n)
  then show ?case by simp
next
  case (2 tmp i k trim n)
  have l: "load tmp (int i) 1 = Inr [cells tmp i]" using "2.prems" by (simp add: load_def read_mem_def)
  show ?case
  proof (cases "cells tmp i = NUL")
    case True
    then show ?thesis using "2.IH"(2) [OF l] "2.prems" l by (simp add: read_mem_Suc)
  next
    case False
    let ?t = "trim\<lparr>cells := write_mem (cells trim) n [cells tmp i]\<rparr>"
    have s: "store trim (int n) [cells tmp i] = Inr ?t" using "2.prems" by (simp add: store_def)
    show ?thesis
      using "2.IH"(1) [OF l _ s [folded list.sel(1)]] "2.prems" l s False
      by (simp add: read_mem_Suc write_mem_Cons)
  qed
qed

lemma remove_null_chars_eq:
  assumes "live tmp" and "live trim" and "k \<le> bsize tmp" and "k \<le> bsize trim"
  shows "remove_null_chars tmp trim k =
    Inr (trim\<lparr>cells := write_mem (cells trim) 0 (trimmed (read_mem (cells tmp) 0 k))\<rparr>,
         length (trimmed (read_mem (cells tmp) 0 k)))"
  using null_loop_eq [of tmp trim 0 k 0] assms by (simp add: remove_null_chars_def)

lemma load_written: "live b \<Longrightarrow> length xs \<le> bsize b \<Longrightarrow> load (b\<lparr>cells := write_mem m 0 xs\<rparr>) 0 (length xs) = Inr xs"
  by (simp add: load_def read_write_same [of _ 0])

subsection \<open>The copy loop of a dump\<close>

text \<open>A buffer that \<open>malloc(tmpbuf_size)\<close> returned.\<close>

definition chunk_buffer :: "block \<Rightarrow> bool" where
  "chunk_buffer b \<longleftrightarrow> live b \<and> bsize b = CHUNK"

lemma chunk_buffer_cells [simp]: "chunk_buffer (b\<lparr>cells := m\<rparr>) = chunk_buffer b"
  by (simp add: chunk_buffer_def)

text \<open>One turn, for buffers in order: what the trimmed buffer holds is what is written.\<close>

lemma dump_turn:
  assumes "chunk_buffer tmp" and "chunk_buffer trim" and "bytes \<noteq> 0" and "data \<noteq> []"
  shows "\<exists>tmp' trim' rest. chunk_buffer tmp' \<and> chunk_buffer trim' \<and> length rest = CHUNK - length (take CHUNK data)
    \<and> dump_loop data bytes tmp trim (Some out) =
        (let fp' = Some (out @ trimmed (take CHUNK data @ rest)); n = of_nat (length (take CHUNK data))
         in if n > bytes then Inr (0, fp') else dump_loop (drop CHUNK data) (bytes - n) tmp' trim' fp')"
proof -
  let ?chunk = "take CHUNK data"
  let ?tmp = "tmp\<lparr>cells := write_mem (cells tmp) 0 ?chunk\<rparr>"
  let ?rest = "read_mem (cells tmp) (length ?chunk) (CHUNK - length ?chunk)"
  let ?xs = "trimmed (?chunk @ ?rest)"
  let ?trim = "trim\<lparr>cells := write_mem (cells trim) 0 ?xs\<rparr>"
  have le: "length ?chunk \<le> CHUNK" by simp
  have "read_mem (cells ?tmp) 0 CHUNK = read_mem (cells ?tmp) 0 (length ?chunk + (CHUNK - length ?chunk))" using le by simp
  also have "\<dots> = ?chunk @ ?rest"
    by (simp only: read_mem_add) (simp add: mem_simps read_write_same [of _ 0] del: length_take)
  finally have rd: "read_mem (cells ?tmp) 0 CHUNK = ?chunk @ ?rest" .
  have s: "store tmp 0 ?chunk = Inr ?tmp" using assms(1) by (simp add: chunk_buffer_def store_def)
  have r: "remove_null_chars ?tmp trim CHUNK = Inr (?trim, length ?xs)"
    using remove_null_chars_eq [of ?tmp trim CHUNK] assms(1,2) unfolding rd by (simp add: chunk_buffer_def)
  have "length ?xs \<le> length (?chunk @ ?rest)" by (rule length_filter_le)
  also have "\<dots> = CHUNK" using le by simp
  finally have l: "load ?trim 0 (length ?xs) = Inr ?xs"
    by (intro load_written) (use assms(2) in \<open>simp_all add: chunk_buffer_def\<close>)
  have "?chunk \<noteq> []" using assms(4) by simp
  then have "dump_loop data bytes tmp trim (Some out) =
        (let fp' = Some (out @ ?xs); n = of_nat (length ?chunk)
         in if n > bytes then Inr (0, fp') else dump_loop (drop CHUNK data) (bytes - n) ?tmp ?trim fp')"
    using assms(3) s r l by (subst dump_loop.simps) (simp add: Let_def fwrite_def)
  then show ?thesis using assms(1,2) by (intro exI [of _ ?tmp] exI [of _ ?trim] exI [of _ ?rest]) simp
qed

text \<open>With enough log behind the position, the loop copies whole chunks up to the first end of one past the count.\<close>

lemma dump_loop_chunks:
  assumes "chunk_buffer tmp" and "chunk_buffer trim"
    and "unat bytes \<le> c * CHUNK" and "c * CHUNK < unat bytes + CHUNK" and "c * CHUNK \<le> length data"
  shows "dump_loop data bytes tmp trim (Some out) = Inr (0, Some (out @ trimmed (take (c * CHUNK) data)))"
  using assms
proof (induction c arbitrary: data bytes tmp trim out)
  case 0
  then have "bytes = 0" by (simp add: unat_eq_zero)
  then show ?case by (simp add: dump_loop.simps)
next
  case (Suc c)
  have len: "CHUNK \<le> length data" "c * CHUNK \<le> length (drop CHUNK data)" using "Suc.prems"(5) by simp_all
  have b: "bytes \<noteq> 0" "c * CHUNK < unat bytes" using "Suc.prems"(4) by auto
  have n: "unat (of_nat CHUNK :: u64) = CHUNK" by (simp add: CHUNK_def)
  have "data \<noteq> []" using len(1) by (auto simp: CHUNK_def)
  from dump_turn [OF "Suc.prems"(1,2) b(1) this, of out] len(1)
  obtain tmp' trim' where t: "chunk_buffer tmp'" "chunk_buffer trim'"
    "dump_loop data bytes tmp trim (Some out) =
      (if of_nat CHUNK > bytes then Inr (0, Some (out @ trimmed (take CHUNK data)))
       else dump_loop (drop CHUNK data) (bytes - of_nat CHUNK) tmp' trim' (Some (out @ trimmed (take CHUNK data))))"
    by (auto simp: Let_def min_def)
  show ?case
  proof (cases "of_nat CHUNK > bytes")
    case True
    then have "unat bytes < CHUNK" using n by (simp add: word_less_nat_alt)
    then have "c = 0" using b(2) by (cases c) auto
    with True t(3) show ?thesis by simp
  next
    case False
    then have le: "of_nat CHUNK \<le> bytes" by (simp add: not_less)
    then have u: "unat (bytes - of_nat CHUNK) = unat bytes - CHUNK" "CHUNK \<le> unat bytes"
      using n by (simp_all add: unat_sub word_le_nat_alt)
    have "dump_loop (drop CHUNK data) (bytes - of_nat CHUNK) tmp' trim' (Some (out @ trimmed (take CHUNK data)))
        = Inr (0, Some ((out @ trimmed (take CHUNK data)) @ trimmed (take (c * CHUNK) (drop CHUNK data))))"
      using "Suc.prems"(3,4) u len(2) by (intro "Suc.IH" [OF t(1,2)]) simp_all
    then show ?thesis using False t(3) by (simp add: take_add)
  qed
qed

text \<open>With buffers in order, the loop returns for any log and any count.\<close>

lemma dump_loop_total:
  assumes "chunk_buffer tmp" and "chunk_buffer trim"
  shows "\<exists>r out'. dump_loop data bytes tmp trim (Some out) = Inr (r, Some out')"
  using assms
proof (induction "length data" arbitrary: data bytes tmp trim out rule: less_induct)
  case less
  show ?case
  proof (cases "bytes = 0 \<or> data = []")
    case True
    then show ?thesis by (auto simp: dump_loop.simps [of data])
  next
    case False
    from dump_turn [OF less.prems, of bytes data out] False
    obtain tmp' trim' rest where t: "chunk_buffer tmp'" "chunk_buffer trim'"
      "dump_loop data bytes tmp trim (Some out) =
        (let fp' = Some (out @ trimmed (take CHUNK data @ rest)); n = of_nat (length (take CHUNK data))
         in if n > bytes then Inr (0, fp') else dump_loop (drop CHUNK data) (bytes - n) tmp' trim' fp')" by blast
    have "length (drop CHUNK data) < length data" using False by simp
    from less.hyps [OF this t(1,2)] t(3) show ?thesis by (auto simp: Let_def)
  qed
qed

text \<open>The state of the device that serves a request: a log, and the two allocations succeed.\<close>

definition os_ready :: "os \<Rightarrow> bool" where
  "os_ready os \<longleftrightarrow> (\<exists>b c. malloc1 os CHUNK = Some b \<and> malloc2 os CHUNK = Some c \<and> chunk_buffer b \<and> chunk_buffer c)"

lemma os_readyE:
  assumes "os_ready os"
  obtains b c where "malloc1 os CHUNK = Some b" "malloc2 os CHUNK = Some c" "chunk_buffer b" "chunk_buffer c"
  using assms by (auto simp: os_ready_def)

lemma dump_log_result:
  assumes "os_ready os" and "may_write os (tmp_resp_filename s)" and "files s log_filename = Some content"
    and "log_file_end_offset s - log_file_start_offset s < 100 * 1024 * 1024"
    and "\<And>tmp trim. chunk_buffer tmp \<Longrightarrow> chunk_buffer trim \<Longrightarrow>
      \<exists>r. dump_loop (after_seek (log_file_start_offset s) content) (log_file_end_offset s - log_file_start_offset s)
        tmp trim (Some []) = Inr (r, Some out)"
  shows "dump_log os s = Inr (s\<lparr>files := (files s)(tmp_resp_filename s := Some out)\<rparr>)"
proof -
  obtain b c where bc: "malloc1 os CHUNK = Some b" "malloc2 os CHUNK = Some c" "chunk_buffer b" "chunk_buffer c"
    using assms(1) by (rule os_readyE)
  obtain r where "dump_loop (after_seek (log_file_start_offset s) content) (log_file_end_offset s - log_file_start_offset s)
      b c (Some []) = Inr (r, Some out)" using assms(5) [OF bc(3,4)] by blast
  then show ?thesis
    using assms(2-4) bc by (simp add: dump_log_def Let_def fwrite_def not_le)
qed

text \<open>The requested range in the normal case: whole chunks behind the start, up to the first end past the range.\<close>

definition whole_chunks :: "nat \<Rightarrow> nat" where
  "whole_chunks n = (n + CHUNK - 1) div CHUNK * CHUNK"

lemma whole_chunks_bounds: "n \<le> whole_chunks n" "whole_chunks n < n + CHUNK"
proof -
  have "(n + CHUNK - 1) div CHUNK * CHUNK + (n + CHUNK - 1) mod CHUNK = n + CHUNK - 1" by (rule div_mult_mod_eq)
  moreover have "(n + CHUNK - 1) mod CHUNK < CHUNK" by simp
  ultimately show "n \<le> whole_chunks n" "whole_chunks n < n + CHUNK"
    using CHUNK_pos(1) unfolding whole_chunks_def by linarith+
qed

lemma dump_log_range:
  assumes "os_ready os" and "may_write os (tmp_resp_filename s)" and "files s log_filename = Some content"
    and "log_file_end_offset s - log_file_start_offset s < 100 * 1024 * 1024" and "seek_ok (log_file_start_offset s)"
    and "unat (log_file_start_offset s) + whole_chunks (unat (log_file_end_offset s - log_file_start_offset s)) \<le> length content"
  shows "dump_log os s = Inr (s\<lparr>files := (files s)(tmp_resp_filename s :=
    Some (trimmed (take (whole_chunks (unat (log_file_end_offset s - log_file_start_offset s)))
                        (drop (unat (log_file_start_offset s)) content))))\<rparr>)"
proof (rule dump_log_result [OF assms(1-4)])
  fix tmp trim
  let ?n = "unat (log_file_end_offset s - log_file_start_offset s)" and ?data = "drop (unat (log_file_start_offset s)) content"
  assume b: "chunk_buffer tmp" "chunk_buffer trim"
  have c: "(?n + CHUNK - 1) div CHUNK * CHUNK = whole_chunks ?n" by (simp add: whole_chunks_def)
  note w = whole_chunks_bounds [of ?n]
  have "whole_chunks ?n \<le> length ?data" using assms(6) by simp
  with dump_loop_chunks [OF b, of "log_file_end_offset s - log_file_start_offset s" "(?n + CHUNK - 1) div CHUNK" ?data "[]"] w
  have "dump_loop ?data (log_file_end_offset s - log_file_start_offset s) tmp trim (Some [])
      = Inr (0, Some (trimmed (take (whole_chunks ?n) ?data)))"
    unfolding c by simp
  then show "\<exists>r. dump_loop (after_seek (log_file_start_offset s) content) (log_file_end_offset s - log_file_start_offset s)
        tmp trim (Some []) = Inr (r, Some (trimmed (take (whole_chunks ?n) ?data)))"
    using assms(5) by (simp add: after_seek_def)
qed

subsection \<open>Filtering\<close>

function lines_of :: "string \<Rightarrow> string list" where
  "lines_of s = (case next_line s of None \<Rightarrow> [] | Some (l, r) \<Rightarrow> l # lines_of r)"
  by pat_completeness auto

termination
  by (relation "measure length") (auto dest: next_line_shorter)

declare lines_of.simps [simp del]

text \<open>The shortest prefix of the lines that reaches the count (without line ends), at least one line.\<close>

fun covering :: "nat \<Rightarrow> string list \<Rightarrow> string list" where
  "covering n [] = []"
| "covering n (l # ls) = l # (if n \<le> length l then [] else covering (n - length l) ls)"

definition matching :: "string \<Rightarrow> string list \<Rightarrow> string" where
  "matching key ls = concat (map (\<lambda>l. l @ [NEWLINE]) (filter (sublist key) ls))"

lemma next_line_length: "next_line s = Some (l, r) \<Longrightarrow> length l + length r \<le> length s"
proof -
  assume "next_line s = Some (l, r)"
  then have "l = takeWhile (\<lambda>c. c \<noteq> NEWLINE) s" "r = drop 1 (dropWhile (\<lambda>c. c \<noteq> NEWLINE) s)"
    by (auto simp: next_line_def split: if_splits)
  moreover have "length (takeWhile (\<lambda>c. c \<noteq> NEWLINE) s) + length (dropWhile (\<lambda>c. c \<noteq> NEWLINE) s) = length s"
    by (metis length_append takeWhile_dropWhile_id)
  ultimately show ?thesis by simp
qed

lemma filter_loop_lines:
  assumes "acc + length data < 2 ^ 64" and "acc < unat bytes \<or> acc = 0"
  shows "filter_loop key bytes (of_nat acc) out data = out @ matching key (covering (unat bytes - acc) (lines_of data))"
  using assms
proof (induction "length data" arbitrary: data acc out rule: less_induct)
  case less
  show ?case
  proof (cases "next_line data")
    case None
    then show ?thesis by (simp add: filter_loop.simps [of _ _ _ _ data] lines_of.simps [of data] matching_def)
  next
    case (Some p)
    then obtain l r where n: "next_line data = Some (l, r)" by (cases p) auto
    note len = next_line_length [OF n] next_line_shorter [OF n]
    let ?out = "if sublist key l then out @ l @ [NEWLINE] else out"
    have u: "unat (of_nat (acc + length l) :: u64) = acc + length l"
      using less.prems(1) len(1) by (simp add: unat_of_nat take_bit_eq_mod del: of_nat_add)
    have step: "filter_loop key bytes (of_nat acc) out data =
        (if unat bytes \<le> acc + length l then ?out else filter_loop key bytes (of_nat (acc + length l)) ?out r)"
      unfolding filter_loop.simps [of _ _ _ _ data] using n u
      by (simp add: Let_def str_find_iff word_le_nat_alt del: not_None_eq)
    have m: "matching key (l # ls) = (if sublist key l then l @ [NEWLINE] else []) @ matching key ls" for ls
      by (simp add: matching_def)
    show ?thesis
    proof (cases "unat bytes \<le> acc + length l")
      case True
      then have "covering (unat bytes - acc) (lines_of data) = [l]"
        using n by (simp add: lines_of.simps [of data])
      then show ?thesis using step True m [of "[]"] by (simp add: matching_def)
    next
      case False
      have "filter_loop key bytes (of_nat (acc + length l)) ?out r
          = ?out @ matching key (covering (unat bytes - (acc + length l)) (lines_of r))"
        using less.prems len False by (intro less.hyps) simp_all
      moreover have "\<not> unat bytes - acc \<le> length l" using False by linarith
      then have "covering (unat bytes - acc) (lines_of data) = l # covering (unat bytes - (acc + length l)) (lines_of r)"
        using n False by (simp add: lines_of.simps [of data])
      ultimately show ?thesis using step False m by simp
    qed
  qed
qed

subsection \<open>Committing\<close>

lemma copy_loop_contents:
  assumes "chunk_buffer b"
  shows "\<exists>pad. copy_loop data b out count = Inr (out @ data @ pad, count + of_nat (length data)) \<and> length pad < CHUNK"
  using assms
proof (induction "length data" arbitrary: data b out count rule: less_induct)
  case less
  show ?case
  proof (cases "data = []")
    case True
    then show ?thesis by (intro exI [of _ "[]"]) (simp add: copy_loop.simps [of "[]"])
  next
    case False
    let ?chunk = "take CHUNK data"
    let ?b = "b\<lparr>cells := write_mem (cells b) 0 ?chunk\<rparr>"
    let ?xs = "read_mem (cells ?b) 0 CHUNK"
    have s: "store b 0 ?chunk = Inr ?b" and l: "load ?b 0 CHUNK = Inr ?xs" and b: "chunk_buffer ?b"
      using less.prems by (simp_all add: chunk_buffer_def store_def load_def)
    have st: "copy_loop data b out count = copy_loop (drop CHUNK data) ?b (out @ ?xs) (count + of_nat (length ?chunk))"
      using False s l by (subst copy_loop.simps) (simp add: Let_def)
    have "take (length ?chunk) ?xs = read_mem (cells ?b) 0 (length ?chunk)"
      by (rule nth_equalityI) simp_all
    also have "\<dots> = ?chunk" using read_write_same [of "cells b" 0 ?chunk] by simp
    finally have hd: "?xs = ?chunk @ drop (length ?chunk) ?xs" by (metis append_take_drop_id)
    show ?thesis
    proof (cases "length data \<le> CHUNK")
      case True
      then have "copy_loop (drop CHUNK data) ?b (out @ ?xs) (count + of_nat (length ?chunk))
          = Inr (out @ ?xs, count + of_nat (length ?chunk))"
        by (simp add: copy_loop.simps [of "[]"])
      moreover have "length (drop (length ?chunk) ?xs) < CHUNK" using False True by (simp add: min_def)
      ultimately show ?thesis using st hd True by (intro exI [of _ "drop (length ?chunk) ?xs"]) simp
    next
      case False
      then have full: "?xs = ?chunk" using hd by (metis append_Nil2 drop_all length_read_mem length_take min.absorb2 nle_le order_refl)
      have "length (drop CHUNK data) < length data" using \<open>data \<noteq> []\<close> by simp
      from less.hyps [OF this b, of "out @ ?chunk" "count + of_nat (length ?chunk)"]
      obtain pad where "copy_loop (drop CHUNK data) ?b (out @ ?chunk) (count + of_nat (length ?chunk))
          = Inr ((out @ ?chunk) @ drop CHUNK data @ pad, count + of_nat (length ?chunk) + of_nat (length (drop CHUNK data)))"
        "length pad < CHUNK" by blast
      moreover have "of_nat (length ?chunk) + of_nat (length (drop CHUNK data)) = (of_nat (length data) :: u64)"
        using False by (simp flip: of_nat_add)
      ultimately show ?thesis using st full by (intro exI [of _ pad]) (simp add: add.assoc)
    qed
  qed
qed

text \<open>The names that a commit works on are distinct, and the two device files can be written.\<close>

definition commit_ready :: "os \<Rightarrow> devlib \<Rightarrow> bool" where
  "commit_ready os s \<longleftrightarrow> os_ready os \<and> may_write os resp_filename \<and> may_write os comm_filename
     \<and> files s resp_filename \<noteq> None \<and> files s comm_filename \<noteq> None"

lemma filenames_distinct [simp]:
  "comm_filename \<noteq> resp_filename" "resp_filename \<noteq> comm_filename" "log_filename \<noteq> resp_filename" "log_filename \<noteq> comm_filename"
  "resp_filename \<noteq> log_filename" "comm_filename \<noteq> log_filename"
  by (simp_all add: comm_filename_def resp_filename_def log_filename_def)

lemma commit_response_publishes:
  assumes "commit_ready os s" and "files s (tmp_resp_filename s) = Some data"
  shows "\<exists>old pad. files s resp_filename = Some old \<and> length pad < CHUNK
    \<and> commit_response os s = Inr (of_nat (length data), s\<lparr>files := (files s)(resp_filename := Some (overwrite (data @ pad) old))\<rparr>)"
proof -
  obtain b where b: "malloc1 os CHUNK = Some b" "chunk_buffer b"
    using assms(1) by (auto simp: commit_ready_def elim: os_readyE)
  obtain old where old: "files s resp_filename = Some old" using assms(1) by (auto simp: commit_ready_def)
  let ?b = "b\<lparr>cells := write_mem (cells b) 0 (replicate CHUNK NUL)\<rparr>"
  have "store b 0 (replicate CHUNK NUL) = Inr ?b" using b(2) by (simp add: chunk_buffer_def store_def)
  moreover obtain pad where "copy_loop data ?b [] 0 = Inr (data @ pad, of_nat (length data))" "length pad < CHUNK"
    using copy_loop_contents [of ?b data "[]" 0] b(2) by auto
  ultimately show ?thesis
    using assms b old by (intro exI [of _ old] exI [of _ pad]) (simp add: commit_response_def commit_ready_def)
qed

lemma commit_publishes:
  assumes "commit_ready os s" and "s1 = (if compression s then commit_compress os s else s)" and "commit_ready os s1"
    and "files s1 (tmp_resp_filename s1) = Some data" and "length data < 2 ^ 64"
  shows "\<exists>s' old pad oldc. commit os s = Inr s' \<and> files s1 resp_filename = Some old \<and> files s1 comm_filename = Some oldc
    \<and> length pad < CHUNK \<and> files s' resp_filename = Some (overwrite (data @ pad) old)
    \<and> files s' comm_filename = Some (overwrite (''READY '' @ to_string (length data)) oldc)
    \<and> files s' log_filename = files s1 log_filename
    \<and> tmp_resp_filename s' = ''response'' \<and> log_file_start_offset s' = log_file_start_offset s
    \<and> log_file_end_offset s' = log_file_end_offset s \<and> compression s' = compression s"
proof -
  obtain old pad where r: "files s1 resp_filename = Some old" "length pad < CHUNK"
    "commit_response os s1 = Inr (of_nat (length data), s1\<lparr>files := (files s1)(resp_filename := Some (overwrite (data @ pad) old))\<rparr>)"
    using commit_response_publishes [OF assms(3,4)] by blast
  obtain oldc where c: "files s1 comm_filename = Some oldc" using assms(3) by (auto simp: commit_ready_def)
  have u: "unat (of_nat (length data) :: u64) = length data" using assms(5) by (simp add: unat_of_nat take_bit_eq_mod)
  have w: "may_write os comm_filename" using assms(1) by (simp add: commit_ready_def)
  show ?thesis
    using r c u w unfolding commit_def assms(2) [symmetric]
    by (simp add: commit_response_message_def Let_def, intro exI [of _ pad])
      (simp add: assms(2) commit_compress_def)
qed

subsection \<open>Samples\<close>

text \<open>A device on which everything can be opened and the compressor copies the file.\<close>

definition sample_os :: os where
  "sample_os = \<lparr>may_write = (\<lambda>_. True),
     malloc1 = (\<lambda>n. Some \<lparr>cells = (\<lambda>_. CHR ''z''), bsize = n, live = True\<rparr>),
     malloc2 = (\<lambda>n. Some \<lparr>cells = (\<lambda>_. CHR ''z''), bsize = n, live = True\<rparr>),
     shell = (\<lambda>_ fs. fs(''response.gz'' := fs ''response''))\<rparr>"

lemma sample_os_facts [simp]: "os_ready sample_os" "may_write sample_os f" "shell sample_os cmd fs = fs(''response.gz'' := fs ''response'')"
  by (simp_all add: sample_os_def os_ready_def chunk_buffer_def)

definition sample_devlib :: "string \<Rightarrow> string \<Rightarrow> string \<Rightarrow> u64 \<Rightarrow> devlib" where
  "sample_devlib log comm resp n = \<lparr>files = [log_filename \<mapsto> log, comm_filename \<mapsto> comm, resp_filename \<mapsto> resp],
     tmp_resp_filename = ''response'', log_file_start_offset = 0, log_file_end_offset = n, compression = True\<rparr>"

lemma response_names [simp]:
  "log_filename \<noteq> ''response''" "comm_filename \<noteq> ''response''" "resp_filename \<noteq> ''response''"
  "log_filename \<noteq> ''response.gz''" "comm_filename \<noteq> ''response.gz''" "resp_filename \<noteq> ''response.gz''"
  "''response'' \<noteq> log_filename" "''response'' \<noteq> comm_filename" "''response'' \<noteq> resp_filename"
  "''response.gz'' \<noteq> log_filename" "''response.gz'' \<noteq> comm_filename" "''response.gz'' \<noteq> resp_filename"
  by (simp_all add: log_filename_def comm_filename_def resp_filename_def)

lemma sample_devlib_facts [simp]:
  "files (sample_devlib log comm resp n) log_filename = Some log" "files (sample_devlib log comm resp n) comm_filename = Some comm"
  "files (sample_devlib log comm resp n) resp_filename = Some resp" "tmp_resp_filename (sample_devlib log comm resp n) = ''response''"
  "log_file_start_offset (sample_devlib log comm resp n) = 0" "log_file_end_offset (sample_devlib log comm resp n) = n"
  "compression (sample_devlib log comm resp n)"
  by (simp_all add: sample_devlib_def)

lemma seek_ok_0 [simp]: "seek_ok 0"
  by (simp add: seek_ok_def)

section \<open>Properties\<close>

text \<open>
  C25: a dump of a range of the log. If the log extends at least to the end of the last 128 KB chunk
  that the range touches, the temporary response holds the range without its null characters,
  followed by what remains of that chunk, likewise trimmed; a range of whole chunks is copied
  exactly. No other file changes.
\<close>

theorem dump_log_contents:
  assumes "os_ready os" and "may_write os (tmp_resp_filename s)" and "files s log_filename = Some content"
    and "log_file_end_offset s - log_file_start_offset s < 100 * 1024 * 1024" and "seek_ok (log_file_start_offset s)"
    and "n = unat (log_file_end_offset s - log_file_start_offset s)"
    and "unat (log_file_start_offset s) + whole_chunks n \<le> length content"
  shows "\<exists>extra s'. dump_log os s = Inr s'
    \<and> files s' (tmp_resp_filename s) = Some (trimmed (take n (drop (unat (log_file_start_offset s)) content)) @ trimmed extra)
    \<and> prefix extra (drop (unat (log_file_start_offset s) + n) content)
    \<and> length extra < CHUNK \<and> (CHUNK dvd n \<longrightarrow> extra = []) \<and> (\<forall>f. f \<noteq> tmp_resp_filename s \<longrightarrow> files s' f = files s f)"
proof -
  let ?data = "drop (unat (log_file_start_offset s)) content"
  let ?extra = "take (whole_chunks n - n) (drop n ?data)"
  note w = whole_chunks_bounds [of n]
  have "take (whole_chunks n) ?data = take (n + (whole_chunks n - n)) ?data" using w by simp
  also have "\<dots> = take n ?data @ ?extra" by (rule take_add)
  finally have "trimmed (take (whole_chunks n) ?data) = trimmed (take n ?data) @ trimmed ?extra" by simp
  moreover have "prefix ?extra (drop (unat (log_file_start_offset s) + n) content)"
    by (simp add: take_is_prefix add.commute)
  moreover have "length ?extra < CHUNK" using w by simp
  moreover have "CHUNK dvd n \<Longrightarrow> whole_chunks n = n"
  proof -
    assume "CHUNK dvd n"
    then have "CHUNK dvd whole_chunks n - n" using w(1) by (simp add: whole_chunks_def)
    then show "whole_chunks n = n" using w by (metis dvd_imp_le less_diff_conv2 linorder_not_less le_neq_implies_less zero_less_diff add.commute)
  qed
  moreover let ?s' = "s\<lparr>files := (files s)(tmp_resp_filename s := Some (trimmed (take (whole_chunks n) ?data)))\<rparr>"
  have "dump_log os s = Inr ?s'" using dump_log_range [OF assms(1-5)] assms(6,7) by simp
  ultimately show ?thesis by (intro exI [of _ ?extra] exI [of _ ?s']) simp
qed

theorem dump_log_contents_witness:
  "\<exists>s'. dump_log sample_os (sample_devlib (replicate CHUNK CHR ''x'') [] [] (of_nat CHUNK)) = Inr s'
    \<and> files s' ''response'' = Some (replicate CHUNK CHR ''x'')"
proof -
  have n: "unat (of_nat CHUNK :: u64) = CHUNK" "(of_nat CHUNK :: u64) < 104857600" "whole_chunks CHUNK = CHUNK"
    by (simp_all add: CHUNK_def whole_chunks_def)
  show ?thesis
    using dump_log_contents [of sample_os "sample_devlib (replicate CHUNK CHR ''x'') [] [] (of_nat CHUNK)" "replicate CHUNK CHR ''x''" CHUNK] n
    by (auto simp del: of_nat_numeral)
qed

text \<open>
  C26: a filtered dump. The temporary response holds, in order and each with its line end, exactly
  the lines that contain the key among the lines read: the shortest run of whole lines from the
  start of the range whose lengths (not counting line ends) reach the length of the range.
\<close>

theorem filter_log_matches:
  assumes "files s log_filename = Some content" and "may_write os (tmp_resp_filename s)"
    and "seek_ok (log_file_start_offset s)" and "length content < 2 ^ 64"
  shows "filter_and_dump_log os key s = s\<lparr>files := (files s)(tmp_resp_filename s :=
    Some (matching key (covering (unat (log_file_end_offset s - log_file_start_offset s))
      (lines_of (drop (unat (log_file_start_offset s)) content)))))\<rparr>"
  using filter_loop_lines [of 0 "drop (unat (log_file_start_offset s)) content"] assms
  by (simp add: filter_and_dump_log_def Let_def)

theorem filter_log_matches_witness:
  "filter_and_dump_log sample_os ''b'' (sample_devlib (''ab'' @ [NEWLINE] @ ''cd'' @ [NEWLINE] @ ''be'' @ [NEWLINE]) [] [] 6)
   = (let s = sample_devlib (''ab'' @ [NEWLINE] @ ''cd'' @ [NEWLINE] @ ''be'' @ [NEWLINE]) [] [] 6
      in s\<lparr>files := (files s)(''response'' := Some (''ab'' @ [NEWLINE] @ ''be'' @ [NEWLINE]))\<rparr>)"
proof -
  have l: "lines_of (''ab'' @ [NEWLINE] @ ''cd'' @ [NEWLINE] @ ''be'' @ [NEWLINE]) = [''ab'', ''cd'', ''be'']"
    by (simp add: lines_of.simps next_line_def)
  have c: "matching ''b'' (covering 6 [''ab'', ''cd'', ''be'']) = ''ab'' @ [NEWLINE] @ ''be'' @ [NEWLINE]"
    by (simp add: matching_def sublist_Cons_right)
  show ?thesis
    using filter_log_matches [of "sample_devlib (''ab'' @ [NEWLINE] @ ''cd'' @ [NEWLINE] @ ''be'' @ [NEWLINE]) [] [] 6"
      "''ab'' @ [NEWLINE] @ ''cd'' @ [NEWLINE] @ ''be'' @ [NEWLINE]" sample_os "''b''"]
    by (simp add: l c [simplified] l [simplified] Let_def)
qed

text \<open>
  C27: a commit publishes the response. After it, the response file starts with exactly the bytes of
  the (compressed) temporary response, and the command file starts with the message that announces
  their number; the log is untouched and the name of the temporary response is reset.
\<close>

theorem commit_response_exact:
  assumes "commit_ready os s" and "s1 = (if compression s then commit_compress os s else s)" and "commit_ready os s1"
    and "files s1 (tmp_resp_filename s1) = Some data" and "length data < 2 ^ 64"
  shows "\<exists>s' image oldc. commit os s = Inr s'
    \<and> files s' resp_filename = Some image \<and> take (length data) image = data
    \<and> files s1 comm_filename = Some oldc
    \<and> files s' comm_filename = Some (overwrite (''READY '' @ to_string (length data)) oldc)
    \<and> files s' log_filename = files s1 log_filename \<and> tmp_resp_filename s' = ''response''"
  using commit_publishes [OF assms] by (fastforce simp: overwrite_def)

theorem commit_response_exact_witness:
  "\<exists>s' image. commit sample_os ((sample_devlib ''log'' ''ALL'' ''old'' 0)\<lparr>files := (files (sample_devlib ''log'' ''ALL'' ''old'' 0))(''response'' := Some ''abc'')\<rparr>) = Inr s'
    \<and> files s' resp_filename = Some image \<and> take 3 image = ''abc'' \<and> files s' comm_filename = Some ''READY 3''"
proof -
  let ?s = "(sample_devlib ''log'' ''ALL'' ''old'' 0)\<lparr>files := (files (sample_devlib ''log'' ''ALL'' ''old'' 0))(''response'' := Some ''abc'')\<rparr>"
  have r: "to_string (Suc (Suc (Suc 0))) = ''3''" by (simp add: to_string.simps digit_def char_of_def bit_0)
  show ?thesis
    using commit_response_exact [of sample_os ?s "commit_compress sample_os ?s" "''abc''"]
    by (auto simp: commit_ready_def commit_compress_def r overwrite_def numeral_3_eq_3)
qed

end
