(* ===== verification/DL_Decode.thy ===== *)
theory DL_Decode
  imports DL_Response
begin

text \<open>
  \<open>device/library/decode.cpp\<close>, \<open>device.cpp\<close> and \<open>main.cpp\<close>: decoding the administrator's command and
  serving it, polling the device's kernel module for requests, and the entry point.

  The endless loops run over a list: of the answers of the \<open>REQUEST\<close> ioctl (\<open>None\<close> when it fails and
  leaves the request as it was), or of the turns of the stress test. A loop of \<open>removeWord\<close> that never
  ends has the value \<open>None\<close>. Messages on the console are left out.
\<close>

section \<open>Commands\<close>

text \<open>The loop that erases a word with the character after it, as long as the word is found.\<close>

partial_function (option) erase_loop :: "string \<Rightarrow> string \<Rightarrow> string option" where
  "erase_loop word str = (case str_find word str of None \<Rightarrow> Some str
     | Some p \<Rightarrow> erase_loop word (str_erase p (length word + 1) str))"

definition removeWord :: "string \<Rightarrow> string \<Rightarrow> string option" where
  "removeWord str word =
     (if str_find word str \<noteq> None
      then case erase_loop word str of None \<Rightarrow> None | Some str' \<Rightarrow> erase_loop word str'
      else Some str)"

text \<open>The second word is the key, whatever the first one is.\<close>

definition rule_of :: "string list \<Rightarrow> string" where
  "rule_of ws = (if 1 < length ws then ws ! 1 else [])"

definition decode_command :: "os \<Rightarrow> string \<Rightarrow> devlib \<Rightarrow> devlib res" where
  "decode_command os command s =
     (if command = ''ALL'' then rbind (dump_log os s) (commit os)
      else case removeWord command ''FILTER'' of None \<Rightarrow> Inl Waiting
      | Some command' \<Rightarrow> commit os (filter_and_dump_log os (rule_of (words command')) s))"

definition handle_command :: "os \<Rightarrow> devlib \<Rightarrow> devlib res" where
  "handle_command os s =
     (case files s comm_filename of None \<Rightarrow> Inr s
      | Some content \<Rightarrow>
          decode_command os (case next_line content of None \<Rightarrow> [] | Some (line, _) \<Rightarrow> line) s)"

section \<open>Polling\<close>

record hardlog_ioctl_request =
  server_request :: bool
  req_start_offset :: u64
  req_end_offset :: u64

definition poll_device :: "os \<Rightarrow> hardlog_ioctl_request option \<Rightarrow> hardlog_ioctl_request \<Rightarrow> devlib \<Rightarrow> (hardlog_ioctl_request \<times> devlib) res" where
  "poll_device os answer hreq s =
     (let hreq' = (case answer of None \<Rightarrow> hreq | Some r \<Rightarrow> r)
      in if server_request hreq'
         then rbind (handle_command os (s\<lparr>log_file_start_offset := req_start_offset hreq',
                       log_file_end_offset := req_end_offset hreq'\<rparr>)) (\<lambda>s'. Inr (hreq', s'))
         else Inr (hreq', s))"

fun poll_loop :: "os \<Rightarrow> hardlog_ioctl_request option list \<Rightarrow> hardlog_ioctl_request \<Rightarrow> devlib \<Rightarrow> devlib res" where
  "poll_loop os [] hreq s = Inr s"
| "poll_loop os (a # as) hreq s = rbind (poll_device os a hreq s) (\<lambda>(hreq', s'). poll_loop os as hreq' s')"

definition start_device_communication :: "os \<Rightarrow> bool \<Rightarrow> hardlog_ioctl_request option list \<Rightarrow> devlib \<Rightarrow> devlib res" where
  "start_device_communication os opened answers s =
     (if \<not> opened then Inr s
      else poll_loop os answers \<lparr>server_request = False, req_start_offset = 0, req_end_offset = 0\<rparr> s)"

section \<open>The entry point\<close>

definition stress :: bool where
  "stress = True"

fun stress_loop :: "os \<Rightarrow> nat \<Rightarrow> devlib \<Rightarrow> devlib res" where
  "stress_loop os 0 s = Inr s"
| "stress_loop os (Suc n) s = rbind (dump_log os s) (stress_loop os n)"

definition device_main :: "os \<Rightarrow> nat \<Rightarrow> bool \<Rightarrow> hardlog_ioctl_request option list \<Rightarrow> devlib \<Rightarrow> devlib res" where
  "device_main os turns opened answers s =
     (if stress
      then stress_loop os turns (s\<lparr>log_file_start_offset := 0, log_file_end_offset := 10 * 1024 * 1024\<rparr>)
      else start_device_communication os opened answers s)"

section \<open>Facts\<close>

lemma erase_loop_total:
  assumes "word \<noteq> []"
  shows "\<exists>r. erase_loop word str = Some r \<and> \<not> sublist word r"
proof (induction "length str" arbitrary: str rule: less_induct)
  case less
  show ?case
  proof (cases "str_find word str")
    case None
    then have "erase_loop word str = Some str" by (simp add: erase_loop.simps [of _ str])
    then show ?thesis using None by (simp add: str_find_None)
  next
    case (Some p)
    have "p + length word \<le> length str" using Some by (rule str_find_Some)
    then have "length (str_erase p (length word + 1) str) < length str"
      using assms by (intro str_erase_shorter) (auto simp: less_le_trans [of p "p + length word"])
    from less.hyps [OF this] show ?thesis using Some by (simp add: erase_loop.simps [of _ str])
  qed
qed

lemma erase_loop_absent: "\<not> sublist word str \<Longrightarrow> erase_loop word str = Some str"
  by (simp add: erase_loop.simps [of _ str] flip: str_find_None)

lemma removeWord_absent: "\<not> sublist word str \<Longrightarrow> removeWord str word = Some str"
  by (simp add: removeWord_def str_find_iff del: not_None_eq)

lemma removeWord_result:
  assumes "word \<noteq> []"
  shows "\<exists>r. removeWord str word = Some r \<and> \<not> sublist word r"
proof (cases "str_find word str")
  case None
  then show ?thesis by (simp add: removeWord_def str_find_None)
next
  case (Some p)
  then show ?thesis using erase_loop_total [OF assms, of str] by (auto simp: removeWord_def erase_loop_absent)
qed

lemma str_find_prefix [simp]: "str_find w (w @ s) = Some 0"
  by (cases "w @ s") (auto simp: str_find.simps(1), metis append_Cons prefix_def str_find.simps(2))

text \<open>The prefix \<open>FILTER\<close> and the space after it are what is removed.\<close>

lemma removeWord_leading:
  assumes "\<not> sublist word rest" and "word \<noteq> []"
  shows "removeWord (word @ c # rest) word = Some rest"
proof -
  have f: "str_find word (word @ c # rest) = Some 0" by simp
  have e: "str_erase 0 (Suc (length word)) (word @ c # rest) = rest" by (simp add: str_erase_def)
  have "erase_loop word (word @ c # rest) = Some rest"
    using erase_loop_absent [OF assms(1)] unfolding erase_loop.simps [of _ "word @ c # rest"] f by (simp add: e)
  then show ?thesis using erase_loop_absent [OF assms(1)] by (simp add: removeWord_def f)
qed

lemma words_Cons:
  assumes "w \<noteq> []" and "\<forall>c \<in> set w. \<not> is_space c" and "is_space c"
  shows "words (w @ c # r) = w # words r"
proof -
  have "read_word (w @ c # r) = Some (w, c # r)" using assms by (intro read_word_word) simp_all
  moreover have "words (c # r) = words r" using assms(3) by (simp add: words.simps [of "c # r"] words.simps [of r] read_word_space)
  ultimately show ?thesis by (simp add: words.simps [of "w @ c # r"])
qed

lemma words_single: "w \<noteq> [] \<Longrightarrow> \<forall>c \<in> set w. \<not> is_space c \<Longrightarrow> words w = [w]"
proof -
  assume "w \<noteq> []" "\<forall>c \<in> set w. \<not> is_space c"
  then have "read_word w = Some (w, [])" using read_word_word [of w "[]"] by simp
  moreover have "words [] = []" by (simp add: words.simps [of "[]"] read_word_def)
  ultimately show ?thesis by (simp add: words.simps [of w])
qed

text \<open>A dump changes the temporary response only, whatever the log and the range are.\<close>

lemma dump_log_frame:
  assumes "os_ready os"
  shows "(may_write os (tmp_resp_filename s) \<or> files s log_filename = None \<or>
            100 * 1024 * 1024 \<le> log_file_end_offset s - log_file_start_offset s \<longrightarrow> (\<exists>s'. dump_log os s = Inr s'))
    \<and> (\<forall>s'. dump_log os s = Inr s' \<longrightarrow> (\<exists>out. s' = s\<lparr>files := (files s)(tmp_resp_filename s := out)\<rparr>))"
proof -
  obtain b c where bc: "malloc1 os CHUNK = Some b" "malloc2 os CHUNK = Some c" "chunk_buffer b" "chunk_buffer c"
    using assms by (rule os_readyE)
  have same: "\<exists>out. s = s\<lparr>files := (files s)(tmp_resp_filename s := out)\<rparr>"
    by (rule exI [of _ "files s (tmp_resp_filename s)"]) simp
  show ?thesis
  proof (cases "files s log_filename")
    case None
    then show ?thesis using same by (simp add: dump_log_def Let_def)
  next
    case (Some content)
    show ?thesis
    proof (cases "100 * 1024 * 1024 \<le> log_file_end_offset s - log_file_start_offset s")
      case True
      then show ?thesis using same by (simp add: dump_log_def Let_def)
    next
      case False
      obtain r out where "dump_loop (after_seek (log_file_start_offset s) content) (log_file_end_offset s - log_file_start_offset s)
          b c (Some []) = Inr (r, Some out)" using dump_loop_total [OF bc(3,4)] by blast
      then show ?thesis using Some False bc by (auto simp: dump_log_def Let_def fwrite_def)
    qed
  qed
qed

lemma dump_log_keeps:
  assumes "os_ready os" and "may_write os (tmp_resp_filename s)"
  shows "\<exists>out. dump_log os s = Inr (s\<lparr>files := (files s)(tmp_resp_filename s := out)\<rparr>)"
  using dump_log_frame [OF assms(1), of s] assms(2) by blast

lemma stress_loop_keeps:
  assumes "os_ready os" and "may_write os (tmp_resp_filename s)"
  shows "\<exists>s'. stress_loop os n s = Inr s' \<and> (\<forall>f. f \<noteq> tmp_resp_filename s \<longrightarrow> files s' f = files s f)"
  using assms
proof (induction n arbitrary: s)
  case 0
  then show ?case by simp
next
  case (Suc n)
  obtain out where d: "dump_log os s = Inr (s\<lparr>files := (files s)(tmp_resp_filename s := out)\<rparr>)"
    using dump_log_keeps [OF "Suc.prems"] by blast
  then show ?case using "Suc.IH" [of "s\<lparr>files := (files s)(tmp_resp_filename s := out)\<rparr>"] "Suc.prems" by auto
qed

section \<open>Properties\<close>

text \<open>
  C29: erasing a word ends. For every text and every word that is not empty, \<open>removeWord\<close> returns,
  and the word does not occur in what it returns.
\<close>

theorem removeWord_terminates:
  assumes "word \<noteq> []"
  shows "\<exists>r. removeWord str word = Some r \<and> \<not> sublist word r"
  using assms by (rule removeWord_result)

theorem removeWord_terminates_witness:
  "\<exists>r. removeWord ''FILTER FILTER KEY'' ''FILTER'' = Some r \<and> \<not> sublist ''FILTER'' r"
  by (rule removeWord_terminates) simp

text \<open>
  A filter command selects by its key. For a criterion and a key without white space that do not
  contain the word itself, the command \<open>FILTER\<close> \<open>criterion\<close> \<open>key\<close> answers with the lines that
  contain the key.
\<close>

theorem filter_command_key:
  assumes "kind \<noteq> []" and "\<forall>c \<in> set kind. \<not> is_space c" and "key \<noteq> []" and "\<forall>c \<in> set key. \<not> is_space c"
    and "\<not> sublist ''FILTER'' (kind @ CHR '' '' # key)"
  shows "decode_command os (''FILTER'' @ CHR '' '' # kind @ CHR '' '' # key) s = commit os (filter_and_dump_log os key s)"
proof -
  have "removeWord (''FILTER'' @ CHR '' '' # kind @ CHR '' '' # key) ''FILTER'' = Some (kind @ CHR '' '' # key)"
    using assms(5) by (intro removeWord_leading) simp_all
  moreover have "words (kind @ CHR '' '' # key) = [kind, key]"
    using assms by (simp add: words_Cons words_single is_space_def)
  moreover have "''FILTER'' @ CHR '' '' # kind @ CHR '' '' # key \<noteq> ''ALL''" by simp
  ultimately show ?thesis by (simp add: decode_command_def rule_of_def del: append.simps)
qed

theorem filter_command_key_witness:
  "decode_command sample_os ''FILTER KEY root'' (sample_devlib ''log'' [] [] 3)
   = commit sample_os (filter_and_dump_log sample_os ''root'' (sample_devlib ''log'' [] [] 3))"
  using filter_command_key [of "''KEY''" "''root''" sample_os "sample_devlib ''log'' [] [] 3"]
  by (simp add: is_space_def sublist_Cons_right)

text \<open>
  A command without a key answers with the whole range. When fewer than two words are left of
  the command, the key is empty and every line of the range matches.
\<close>

theorem keyless_command_dumps_all:
  assumes "removeWord command ''FILTER'' = Some rest" and "length (words rest) < 2" and "command \<noteq> ''ALL''"
  shows "decode_command os command s = commit os (filter_and_dump_log os [] s) \<and> matching [] ls = concat (map (\<lambda>l. l @ [NEWLINE]) ls)"
  using assms by (simp add: decode_command_def rule_of_def matching_def)

theorem keyless_command_dumps_all_witness:
  "decode_command sample_os ''DELETE'' (sample_devlib ''log'' [] [] 3) = commit sample_os (filter_and_dump_log sample_os [] (sample_devlib ''log'' [] [] 3))"
  using keyless_command_dumps_all [of "''DELETE''" "''DELETE''" sample_os "sample_devlib ''log'' [] [] 3"]
  by (simp add: removeWord_absent sublist_Cons_right words_single is_space_def)

text \<open>
  The device's program never serves a request. As it is built, with the stress test on, it
  dumps the log for ever: after any number of turns, whatever the kernel module reports, the command
  file and the response file are as they were.
\<close>

theorem stress_never_serves:
  assumes "os_ready os" and "may_write os (tmp_resp_filename s)"
    and "tmp_resp_filename s \<noteq> comm_filename" and "tmp_resp_filename s \<noteq> resp_filename"
  shows "\<exists>s'. device_main os turns opened answers s = Inr s'
    \<and> files s' comm_filename = files s comm_filename \<and> files s' resp_filename = files s resp_filename"
  using stress_loop_keeps [of os "s\<lparr>log_file_start_offset := 0, log_file_end_offset := 10 * 1024 * 1024\<rparr>" turns] assms
  by (auto simp: device_main_def stress_def)

theorem stress_never_serves_witness:
  "\<exists>s'. device_main sample_os 7 True [Some \<lparr>server_request = True, req_start_offset = 0, req_end_offset = 3\<rparr>]
      (sample_devlib ''log'' ''ALL'' ''old'' 3) = Inr s'
    \<and> files s' comm_filename = Some ''ALL'' \<and> files s' resp_filename = Some ''old''"
  using stress_never_serves [of sample_os "sample_devlib ''log'' ''ALL'' ''old'' 3" 7 True]
  by simp

end
