(* ===== verification/HL_Protocol.thy ===== *)
theory HL_Protocol
  imports HL_HostLib DL_Decode
begin

text \<open>
  The request protocol end to end: the administrator's program, the module's character device, the
  two files that the audit device exports, and the program that serves requests on the device.

  The audit device exports each file as a disk of 512-byte sectors, padded with null characters: this
  is how the parameters \<open>bread\<close> and \<open>submit\<close> of the module are instantiated here.
\<close>

section \<open>Files as disks\<close>

definition file_mem :: "string \<Rightarrow> mem" where
  "file_mem content = (\<lambda>i. if i < length content then content ! i else NUL)"

definition file_bread :: "string bread" where
  "file_bread sector content = (read_mem (file_mem content) (512 * unat sector) 512, 0, content)"

text \<open>The module writes requests at sector 0 only.\<close>

definition file_submit :: "string submit" where
  "file_submit is_write sector bytes content =
     (if is_write \<and> sector = 0 then overwrite bytes content else content, 0)"

text \<open>
  What the device does while the host sleeps: it serves the command in the command file and leaves the
  announcement there and the response in the response file.
\<close>

definition device_serves :: "os \<Rightarrow> devlib \<Rightarrow> ('dev, string) hl_module \<Rightarrow> ('dev, string) hl_module" where
  "device_serves os d m =
     (case handle_command os (d\<lparr>files := (files d)(comm_filename := Some (request_dev m), resp_filename := Some (response_dev m))\<rparr>) of
        Inl _ \<Rightarrow> m
      | Inr d' \<Rightarrow> m\<lparr>request_dev := the (files d' comm_filename), response_dev := the (files d' resp_filename)\<rparr>)"

text \<open>The administrator's program on the module.\<close>

definition host_on_module ::
    "(string \<Rightarrow> string) \<Rightarrow> (nat \<Rightarrow> block option) \<Rightarrow> (nat \<Rightarrow> block option) \<Rightarrow> ('dev, string) hl_module host_env" where
  "host_on_module render vmalloc malloc = \<lparr>driver = hardlog_ioctl render (Ptr bio_empty) file_submit file_bread vmalloc,
     user_malloc = malloc, may_open_response = True\<rparr>"

section \<open>Facts\<close>

lemma file_reads_image: "reads_image (file_mem content) file_bread content"
  by (simp add: reads_image_def file_bread_def)

lemma read_file_mem: "read_mem (file_mem content) 0 n = take n content @ replicate (n - length content) NUL"
  by (rule nth_equalityI) (auto simp: file_mem_def nth_append)

text \<open>An allocator that never fails.\<close>

definition allocates :: "(nat \<Rightarrow> block option) \<Rightarrow> bool" where
  "allocates vmalloc \<longleftrightarrow> (\<forall>n. \<exists>b. vmalloc n = Some b \<and> live b \<and> bsize b = n)"

lemma allocatesE:
  assumes "allocates vmalloc"
  obtains b where "vmalloc n = Some b" "live b" "bsize b = n"
  using assms by (auto simp: allocates_def)

text \<open>Reading an announced response of a module in order stores the bytes of the response file.\<close>

lemma take_response_stores:
  assumes "get_response_size (hreq_data u) = Inr sz" and "allocates vmalloc" and "allocates malloc"
    and "brspdevice (module_state u) = Ptr bd" and "\<not> hardlog_logging (module_state u)" and "unat sz + 4096 < 2 ^ 64"
  shows "\<exists>m. take_response (host_on_module render vmalloc malloc) env u =
    Inr (True, u\<lparr>module_state := m, response_gz := Some (read_mem (file_mem (response_dev (module_state u))) 0 (unat sz))\<rparr>, env)"
proof -
  let ?img = "file_mem (response_dev (module_state u))"
  define n where "n = unat sz"
  obtain b where b: "vmalloc (unat sz + 4096) = Some b" "live b" "bsize b = unat sz + 4096" by (rule allocatesE [OF assms(2)])
  have "unat (sz + 512) = n + 512" using assms(6) by (simp add: unat_word_ariths n_def)
  moreover obtain c where c: "malloc (n + 512) = Some c" "live c" "bsize c = n + 512" by (rule allocatesE [OF assms(3)])
  moreover obtain rb where "hardlog_ioctl render (Ptr bio_empty) file_submit file_bread vmalloc (READRESPONSE (Some sz) True) env (module_state u)
      = Inr (0, UserBytes (read_mem ?img 0 n), (module_state u)\<lparr>response_buffer := rb\<rparr>, env)"
    using read_response [where s = "module_state u" and img = ?img and sz = sz and vmalloc = vmalloc and render = render and env = env
        and submit = file_submit, OF file_reads_image assms(4,5) refl b(1,2)] b(3) assms(6) by (auto simp: n_def)
  moreover have "store c 0 (read_mem ?img 0 n) = Inr (c\<lparr>cells := write_mem (cells c) 0 (read_mem ?img 0 n)\<rparr>)"
    using c by (simp add: store_Inr)
  moreover have "load (c\<lparr>cells := write_mem (cells c) 0 (read_mem ?img 0 n)\<rparr>) 0 n = Inr (read_mem ?img 0 n)"
    using load_written [of c "read_mem ?img 0 n" "cells c"] c by simp
  ultimately show ?thesis
    using assms(1) n_def by (auto simp: take_response_def host_on_module_def write_response_to_file_def)
qed

text \<open>The device with a log, all files writable and a compressor \<open>gz\<close>.\<close>

definition device_ready :: "os \<Rightarrow> (string \<Rightarrow> string) \<Rightarrow> devlib \<Rightarrow> string \<Rightarrow> bool" where
  "device_ready os gz d log \<longleftrightarrow> os_ready os \<and> (\<forall>f. may_write os f) \<and> files d log_filename = Some log
     \<and> tmp_resp_filename d = ''response'' \<and> compression d
     \<and> (\<forall>fs. shell os ''pigz --fast -k -f response'' fs = fs(''response.gz'' := map_option gz (fs ''response'')))"

definition range_ok :: "devlib \<Rightarrow> string \<Rightarrow> bool" where
  "range_ok d log \<longleftrightarrow> log_file_end_offset d - log_file_start_offset d < 100 * 1024 * 1024 \<and> seek_ok (log_file_start_offset d)
     \<and> unat (log_file_start_offset d) + whole_chunks (unat (log_file_end_offset d - log_file_start_offset d)) \<le> length log"

text \<open>What the log's range is answered with.\<close>

definition range_text :: "devlib \<Rightarrow> string \<Rightarrow> string" where
  "range_text d log = trimmed (take (whole_chunks (unat (log_file_end_offset d - log_file_start_offset d)))
     (drop (unat (log_file_start_offset d)) log))"

lemma device_all:
  assumes "device_ready os gz d log" and "range_ok d log" and "next_line c = Some (''ALL'', rest)"
    and "length (gz (range_text d log)) < 2 ^ 64"
  shows "\<exists>d' pad. handle_command os (d\<lparr>files := (files d)(comm_filename := Some c, resp_filename := Some r)\<rparr>) = Inr d'
    \<and> files d' comm_filename = Some (overwrite (''READY '' @ to_string (length (gz (range_text d log)))) c)
    \<and> files d' resp_filename = Some (overwrite (gz (range_text d log) @ pad) r)"
proof -
  let ?d = "d\<lparr>files := (files d)(comm_filename := Some c, resp_filename := Some r)\<rparr>"
  let ?d1 = "?d\<lparr>files := (files ?d)(''response'' := Some (range_text d log))\<rparr>"
  have r: "os_ready os" "\<And>f. may_write os f" "tmp_resp_filename d = ''response''" "compression d" "files d log_filename = Some log"
    and gz: "\<And>fs. shell os ''pigz --fast -k -f response'' fs = fs(''response.gz'' := map_option gz (fs ''response''))"
    using assms(1) by (simp_all add: device_ready_def)
  have "dump_log os ?d = Inr ?d1"
    using dump_log_range [OF r(1), of ?d log] r assms(2) by (simp add: range_ok_def range_text_def)
  then have h: "handle_command os ?d = commit os ?d1"
    using assms(3) by (simp add: handle_command_def decode_command_def)
  have "\<exists>s' old pad oldc. commit os ?d1 = Inr s' \<and> files (commit_compress os ?d1) resp_filename = Some old
    \<and> files (commit_compress os ?d1) comm_filename = Some oldc
    \<and> length pad < CHUNK \<and> files s' resp_filename = Some (overwrite (gz (range_text d log) @ pad) old)
    \<and> files s' comm_filename = Some (overwrite (''READY '' @ to_string (length (gz (range_text d log)))) oldc)
    \<and> files s' log_filename = files (commit_compress os ?d1) log_filename
    \<and> tmp_resp_filename s' = ''response'' \<and> log_file_start_offset s' = log_file_start_offset ?d1
    \<and> log_file_end_offset s' = log_file_end_offset ?d1 \<and> compression s' = compression ?d1"
    by (rule commit_publishes) (use r gz assms(4) in \<open>simp_all add: commit_ready_def commit_compress_def\<close>)
  then show ?thesis using h gz r by (auto simp: commit_compress_def)
qed

lemma length_announcement: "n < 2 ^ 64 \<Longrightarrow> length (''READY '' @ to_string n) \<le> 26"
  using length_to_string [of n 20] by simp

text \<open>The announcement over a clean request reads as the announcement.\<close>

lemma announcement_over_clean:
  assumes "n < 2 ^ 64" and "length old = 512" and "\<forall>i. 7 \<le> i \<and> i < 512 \<longrightarrow> old ! i = NUL"
  shows "\<exists>r. take 512 (overwrite (''READY '' @ to_string n) (old @ beyond)) = ''READY'' @ CHR '' '' # to_string n @ NUL # r"
proof -
  let ?a = "''READY '' @ to_string n"
  have len: "length ?a \<le> 26" "7 \<le> length ?a"
    using length_announcement [OF assms(1)] to_string_Cons [of n] by auto
  then have "length ?a < length old" using assms(2) by simp
  then have "drop (length ?a) old = old ! length ?a # drop (Suc (length ?a)) old" by (simp add: Cons_nth_drop_Suc)
  moreover have "old ! length ?a = NUL" using assms(3) len by simp
  ultimately have d: "drop (length ?a) old = NUL # drop (Suc (length ?a)) old" by simp
  have "take 512 (overwrite ?a (old @ beyond)) = ?a @ drop (length ?a) old"
    using len assms(2) unfolding overwrite_def by (simp add: take_append del: append.simps append_assoc)
  then show ?thesis unfolding d by (intro exI [of _ "drop (Suc (length ?a)) old"]) simp
qed

text \<open>A module in order, with a request buffer that no earlier request has filled.\<close>

definition module_ready :: "('dev, string) hl_module \<Rightarrow> block \<Rightarrow> bool" where
  "module_ready m b \<longleftrightarrow> request_buffer m = Some b \<and> live b \<and> bsize b = 4096 \<and> (\<forall>i. 5 \<le> i \<longrightarrow> cells b i = NUL)
     \<and> (\<exists>bd. breqdevice m = Ptr bd) \<and> (\<exists>bd. brspdevice m = Ptr bd) \<and> \<not> hardlog_logging m"

definition ALL_line :: string where
  "ALL_line = ''ALL'' @ [NEWLINE]"

lemma send_all:
  assumes "module_ready (module_state u) b" and "render ALL_line = ALL_line"
  shows "\<exists>data. send_command (host_on_module render vmalloc malloc) ''ALL'' env u =
    Inr (u\<lparr>module_state := (module_state u)\<lparr>request_buffer := Some (b\<lparr>cells := write_mem (cells b) 0 (ALL_line @ [NUL])\<rparr>),
        request_dev := overwrite (read_mem (write_mem (cells b) 0 (ALL_line @ [NUL])) 0 512) (request_dev (module_state u))\<rparr>,
      hreq_data := data\<rparr>, env)"
proof -
  let ?data = "ALL_line @ [NUL] @ drop (length ALL_line + 1) (hreq_data u)"
  have l: "length ALL_line = 4" "NUL \<notin> set ALL_line" by (simp_all add: ALL_line_def)
  have t: "ALL_line = render (takeWhile (\<lambda>c. c \<noteq> NUL) ?data)"
    using takeWhile_NUL [OF l(2), of "drop (length ALL_line + 1) (hreq_data u)"] assms(2) by simp
  obtain bd where bd: "breqdevice (module_state u) = Ptr bd" and m: "request_buffer (module_state u) = Some b" "live b" "bsize b = 4096"
    using assms(1) by (auto simp: module_ready_def)
  have "hardlog_ioctl render (Ptr bio_empty) file_submit file_bread vmalloc (SENDREQUEST (Some ?data)) env (module_state u) =
    Inr (0, NoData, (module_state u)\<lparr>request_buffer := Some (b\<lparr>cells := write_mem (cells b) 0 (ALL_line @ [NUL])\<rparr>),
      request_dev := fst (file_submit True 0 (read_mem (write_mem (cells b) 0 (ALL_line @ [NUL])) 0 512) (request_dev (module_state u)))\<rparr>, env)"
    by (rule send_request [where render = render and submit = file_submit and data = ?data and t = ALL_line, OF m bd refl _ t]) (simp_all add: l)
  then show ?thesis
    by (intro exI [of _ ?data]) (simp add: send_command_def host_on_module_def file_submit_def Let_def ALL_line_def)
qed

lemma sent_image:
  assumes "\<forall>i. 5 \<le> i \<longrightarrow> cells b i = NUL" and "img = read_mem (write_mem (cells b) 0 (ALL_line @ [NUL])) 0 512"
  shows "length img = 512" "\<forall>i. 7 \<le> i \<and> i < 512 \<longrightarrow> img ! i = NUL"
    "\<exists>rest. next_line (overwrite img old) = Some (''ALL'', rest)"
proof -
  show "length img = 512" "\<forall>i. 7 \<le> i \<and> i < 512 \<longrightarrow> img ! i = NUL"
    using assms(1) by (simp_all add: assms(2) write_mem_def ALL_line_def)
  have "take (length ALL_line) img = ALL_line"
    unfolding assms(2) by (rule nth_equalityI) (auto simp: write_mem_def ALL_line_def nth_append less_Suc_eq)
  then have "img = ALL_line @ drop (length ALL_line) img" by (metis append_take_drop_id)
  moreover define rest where "rest = drop (length ALL_line) img @ drop (length img) old"
  ultimately have "overwrite img old = ''ALL'' @ NEWLINE # rest"
    unfolding overwrite_def by (metis ALL_line_def append.assoc append_Cons append_Nil)
  then show "\<exists>rest. next_line (overwrite img old) = Some (''ALL'', rest)"
    using next_line_line [of "''ALL''" rest] by simp
qed

lemma await_all:
  assumes "module_ready m b" and "device_ready os gz d log" and "range_ok d log"
    and "img = read_mem (write_mem (cells b) 0 (ALL_line @ [NUL])) 0 512"
    and "module_state u = m\<lparr>request_buffer := Some b1, request_dev := overwrite img old\<rparr>" and "live b1" and "bsize b1 = 4096"
    and "allocates vmalloc" and "allocates malloc" and "length (gz (range_text d log)) + 4096 < 2 ^ 64"
  shows "\<exists>u'. await_response (host_on_module render vmalloc malloc) 1 [device_serves os d] u = Inr (True, u', [])
    \<and> response_gz u' = Some (gz (range_text d log))"
proof -
  let ?T = "gz (range_text d log)" and ?e = "host_on_module render vmalloc malloc"
  define n where "n = length ?T"
  have nl: "n < 2 ^ 64" using assms(10) by (simp add: n_def)
  have clean: "\<forall>i. 5 \<le> i \<longrightarrow> cells b i = NUL" using assms(1) by (simp add: module_ready_def)
  note img = sent_image [OF clean assms(4)]
  obtain rest where "next_line (overwrite img old) = Some (''ALL'', rest)" using img(3) by blast
  from device_all [OF assms(2,3) this, of "response_dev m"] nl
  obtain d' pad where d': "handle_command os (d\<lparr>files := (files d)(comm_filename := Some (overwrite img old), resp_filename := Some (response_dev m))\<rparr>) = Inr d'"
      "files d' comm_filename = Some (overwrite (''READY '' @ to_string n) (overwrite img old))"
      "files d' resp_filename = Some (overwrite (?T @ pad) (response_dev m))" unfolding n_def by blast
  let ?cm = "overwrite (''READY '' @ to_string n) (overwrite img old)" and ?rp = "overwrite (?T @ pad) (response_dev m)"
  let ?m = "(module_state u)\<lparr>request_dev := ?cm, response_dev := ?rp\<rparr>"
  have s: "device_serves os d (module_state u) = ?m"
    using d' by (simp add: device_serves_def assms(5))
  obtain r where r: "take 512 ?cm = ''READY'' @ CHR '' '' # to_string n @ NUL # r"
    using announcement_over_clean [OF nl img(1,2)] by (auto simp: overwrite_def [of img])
  have cm: "512 \<le> length ?cm" using img(1) by (simp add: overwrite_def)
  obtain bd where bd: "breqdevice ?m = Ptr bd" using assms(1,5) by (auto simp: module_ready_def)
  obtain bd' where bd': "brspdevice ?m = Ptr bd'" "\<not> hardlog_logging ?m" using assms(1,5) by (auto simp: module_ready_def)
  let ?sector = "read_mem (file_mem ?cm) 0 512"
  let ?b2 = "b1\<lparr>cells := write_mem (cells b1) 0 ?sector\<rparr>"
  have c: "hardlog_ioctl render (Ptr bio_empty) file_submit file_bread vmalloc (CHECKRESPONSEREADY True) [] ?m =
    Inr (0, UserBytes (read_mem (cells ?b2) 0 4096), ?m\<lparr>request_buffer := Some ?b2\<rparr>, [])"
    using check_response [where s = ?m and b = b1 and submit = file_submit and bread = file_bread and img = "file_mem ?cm"] assms(5-7) bd
      file_reads_image [of ?cm] by simp
  let ?data = "read_mem (cells ?b2) 0 4096"
  have sec: "?sector = ''READY'' @ CHR '' '' # to_string n @ NUL # r"
    using r cm by (simp add: read_file_mem)
  have "?data = read_mem (cells ?b2) 0 (512 + 3584)" by simp
  also have "\<dots> = ?sector @ read_mem (cells ?b2) 512 3584"
    using read_write_same [of "cells b1" 0 ?sector] by (simp only: read_mem_add) simp
  finally obtain r' where data: "?data = ''READY'' @ CHR '' '' # to_string n @ [] @ NUL # r'" unfolding sec by fastforce
  have w: "to_string n \<noteq> []" "\<forall>c \<in> set (to_string n). \<not> is_space c" "NUL \<notin> set (to_string n)"
    using to_string_Cons [of n] all_digits_clean [OF all_digits_to_string [of n]] by auto
  have st: "stoul (to_string n) = Inr (of_nat n)" using stoul_to_string [OF nl, of "[]"] by simp
  have ready: "is_response_ready ?data = Inr True" and size: "get_response_size ?data = Inr (of_nat n)"
    unfolding data using announcement_parses [OF w, of "[]" r'] st by auto
  let ?u = "u\<lparr>module_state := ?m\<lparr>request_buffer := Some ?b2\<rparr>, hreq_data := ?data\<rparr>"
  have un: "unat (of_nat n :: u64) = n" using nl by (simp add: unat_of_nat take_bit_eq_mod)
  obtain m' where "take_response ?e [] ?u = Inr (True, ?u\<lparr>module_state := m', response_gz := Some (read_mem (file_mem ?rp) 0 n)\<rparr>, [])"
    using take_response_stores [of ?u "of_nat n" vmalloc malloc bd' render "[]"] size assms(8,9,10) bd' un n_def by auto
  moreover have "read_mem (file_mem ?rp) 0 n = ?T" by (simp add: read_file_mem n_def overwrite_def)
  ultimately show ?thesis
    using c ready s by (simp add: host_on_module_def into_request_def)
qed

section \<open>Properties\<close>





text \<open>
  A shorter announcement inherits digits. The device writes the announcement over the old
  contents of the command file without a terminator. After an announcement with more digits (at
  most 19), and the command that the host wrote over its start, the size that the host reads is larger
  than the response.
\<close>

theorem stale_announcement:
  assumes "0 < n" and "length (to_string n) < length (to_string m)" and "length (to_string m) \<le> 19"
  shows "\<exists>x. get_response_size (overwrite (''READY '' @ to_string n) (overwrite (ALL_line @ [NUL]) (''READY '' @ to_string m @ NUL # r)))
      = Inr x \<and> n < unat x"
proof -
  let ?k = "length (to_string n)"
  let ?ds = "drop ?k (to_string m)"
  have o: "overwrite (''READY '' @ to_string n) (overwrite (ALL_line @ [NUL]) (''READY '' @ to_string m @ NUL # r))
      = ''READY'' @ CHR '' '' # (to_string n @ ?ds) @ [] @ NUL # r"
    using assms(2) to_string_Cons [of n] by (auto simp: overwrite_def ALL_line_def)
  have ds: "all_digits (to_string n @ ?ds)"
    using all_digits_to_string [of n] all_digits_to_string [of m] by (auto simp: all_digits_def dest: in_set_dropD)
  have len: "length (to_string n @ ?ds) = length (to_string m)" using assms(2) by simp
  have v: "read_digits 0 (to_string n @ ?ds) = read_digits n ?ds" using read_digits_append [of 0 n ?ds] by simp
  have "all_digits ?ds" using ds by (simp add: all_digits_def)
  from read_digits_bounds [OF this, of n] have "n * 10 ^ length ?ds \<le> read_digits n ?ds" by simp
  moreover have "(10 :: nat) ^ 1 \<le> 10 ^ length ?ds" using assms(2) by (intro power_increasing) simp_all
  then have "n * 10 \<le> n * 10 ^ length ?ds" by simp
  ultimately have big: "n < read_digits n ?ds" using assms(1) by linarith
  have "read_digits 0 (to_string n @ ?ds) < Suc 0 * 10 ^ length (to_string m)"
    using read_digits_bounds [OF ds, of 0] unfolding len by simp
  also have "\<dots> \<le> 10 ^ 19" using power_increasing [OF assms(3), of "10 :: nat"] by simp
  finally have lt: "read_digits n ?ds < 2 ^ 64" unfolding v by simp
  have ne: "to_string n @ ?ds \<noteq> []" using to_string_Cons [of n] by auto
  have "get_response_size (''READY'' @ CHR '' '' # (to_string n @ ?ds) @ [] @ NUL # r) = stoul (to_string n @ ?ds)"
    by (rule announcement_parses(2) [OF ne]) (use all_digits_clean [OF ds] in \<open>simp_all\<close>)
  also have "\<dots> = Inr (of_nat (read_digits n ?ds))" using stoul_digits [OF ds ne] lt unfolding v by blast
  finally show ?thesis unfolding o using big lt by (intro exI [of _ "of_nat (read_digits n ?ds)"]) (simp add: unat_of_nat take_bit_eq_mod)
qed

theorem stale_announcement_witness:
  "\<exists>x. get_response_size (overwrite ''READY 99'' (overwrite (ALL_line @ [NUL]) (''READY 1234567'' @ [NUL]))) = Inr x \<and> 99 < unat x"
proof -
  have "to_string 99 = ''99''" "to_string 1234567 = ''1234567''" by (simp_all add: to_string.simps digit_def char_of_def bit_0)
  then show ?thesis using stale_announcement [of 99 1234567 "[]"] by simp
qed

end
