(* ===== verification/HL_Hooks.thy ===== *)
theory HL_Hooks
  imports HL_Main HL_Cxx
begin

text \<open>
  \<open>src/host/kernel/linux-5.4.92-host.diff\<close>: the hooks in the kernel's audit code (\<open>kernel/audit.c\<close>,
  \<open>kernel/auditsc.c\<close>) that pass a record to the module while hardlog is active, the records
  that they format, full or shortened (\<open>microlog\<close>), and \<open>kernel/hardlog.c\<close>, which finds the module's functions.

  The rest of the kernel's audit code is not in the repository and is a parameter (\<open>kaudit\<close>). What it is
  relied on for is stated in \<open>native_calls\<close> and \<open>keeps_module\<close>.
\<close>

section \<open>Format strings\<close>

text \<open>
  The kernel's \<open>vsnprintf\<close> on the directives that the hooks use: \<open>d\<close>, \<open>u\<close>, \<open>x\<close>, \<open>s\<close>, the modifier \<open>l\<close> (64 bits
  instead of 32) and a width, which is always filled with zeros here.
\<close>

datatype arg = Num int | Str string

definition hex_digit :: "nat \<Rightarrow> char" where
  "hex_digit d = (if d < 10 then digit d else char_of (87 + d))"

fun to_hex :: "nat \<Rightarrow> string" where
  "to_hex n = (if n < 16 then [hex_digit n] else to_hex (n div 16) @ [hex_digit (n mod 16)])"

declare to_hex.simps [simp del]

definition signed_text :: "int \<Rightarrow> int \<Rightarrow> string" where
  "signed_text m u = (if 2 * u < m then to_string (nat u) else CHR ''-'' # to_string (nat (m - u)))"

fun convert :: "bool \<Rightarrow> char \<Rightarrow> arg \<Rightarrow> string" where
  "convert long c (Str s) = (if c = CHR ''s'' then s else [])"
| "convert long c (Num n) =
     (let m = (if long then 2 ^ 64 else 2 ^ 32); u = n mod m
      in if c = CHR ''d'' then signed_text m u
         else if c = CHR ''u'' then to_string (nat u)
         else if c = CHR ''x'' then to_hex (nat u) else [])"

definition pad_zeros :: "nat \<Rightarrow> string \<Rightarrow> string" where
  "pad_zeros w s = replicate (w - length s) (CHR ''0'') @ s"

datatype fmt_state = Plain | Directive bool nat

fun vformat :: "fmt_state \<Rightarrow> string \<Rightarrow> arg list \<Rightarrow> string" where
  "vformat st [] args = []"
| "vformat Plain (c # cs) args =
     (if c = CHR ''%'' then vformat (Directive False 0) cs args else c # vformat Plain cs args)"
| "vformat (Directive long w) (c # cs) args =
     (if c = CHR ''l'' then vformat (Directive True w) cs args
      else case digit_value c of
        Some d \<Rightarrow> vformat (Directive long (10 * w + d)) cs args
      | None \<Rightarrow> (case args of [] \<Rightarrow> []
          | a # as \<Rightarrow> pad_zeros w (convert long c a) @ vformat Plain cs as))"

section \<open>The parameters\<close>

datatype record_type = AUDIT_SYSCALL | AUDIT_FD_PAIR | AUDIT_SOCKADDR

type_synonym 's call = "audit_buffer option \<times> 's \<Rightarrow> (audit_buffer option \<times> 's) res"

text \<open>
  The kernel's allocators, \<open>hex_byte_pack_upper\<close>, the part of \<open>audit_log_start\<close> before the hook, \<open>audit_get_stamp\<close>
  (seconds, nanoseconds, serial number), what follows the hooks in the native functions,
  \<open>audit_string_contains_control\<close>, \<open>audit_buffer_free\<close>, and the native functions that call the hooked ones.
\<close>

record 's kaudit =
  use_vmalloc :: bool
  kmalloc_of :: "nat \<Rightarrow> block option"
  vmalloc_of :: "nat \<Rightarrow> block option"
  pack_of :: "char \<Rightarrow> char \<times> char"
  buffer_alloc :: "audit_context option \<Rightarrow> record_type \<Rightarrow> 's \<Rightarrow> audit_buffer option \<times> 's"
  get_stamp :: "audit_context option \<Rightarrow> 's \<Rightarrow> int \<times> int \<times> int"
  audit_log_vformat :: "audit_buffer option \<Rightarrow> string \<Rightarrow> 's \<Rightarrow> 's"
  n_hex_native :: "audit_buffer \<Rightarrow> char list \<Rightarrow> u64 \<Rightarrow> 's \<Rightarrow> 's"
  n_string_native :: "audit_buffer \<Rightarrow> char list \<Rightarrow> u64 \<Rightarrow> 's \<Rightarrow> 's"
  contains_control :: "char list \<Rightarrow> u64 \<Rightarrow> bool"
  end_native :: "audit_buffer \<Rightarrow> 's \<Rightarrow> 's"
  audit_buffer_free :: "audit_buffer option \<Rightarrow> 's \<Rightarrow> 's"
  audit_log_untrustedstring :: "string \<Rightarrow> 's call"
  audit_log_d_path :: "string \<Rightarrow> string \<Rightarrow> 's call"
  audit_log_key :: "string option \<Rightarrow> 's call"

fun seq :: "'s call list \<Rightarrow> 's call" where
  "seq [] x = Inr x"
| "seq (c # cs) x = rbind (c x) (seq cs)"

section \<open>\<open>kernel/hardlog.c\<close>\<close>

definition is_hardlog_active :: "'z logger_scheme \<Rightarrow> bool" where
  "is_hardlog_active s = hardlog_active s"

definition is_hardlog_microlog_active :: "'z logger_scheme \<Rightarrow> bool" where
  "is_hardlog_microlog_active s = hardlog_microlog_active s"

text \<open>The pointers to the module's functions (set or NULL) and the search for them.\<close>

record hook_pointers =
  audit_log_start_hardlog_ptr :: bool
  audit_log_end_hardlog_ptr :: bool
  audit_log_format_hardlog_ptr :: bool
  audit_log_n_string_hardlog_ptr :: bool
  audit_log_n_hex_hardlog_ptr :: bool

definition setup_hardlog_pointers :: "(string \<Rightarrow> bool) \<Rightarrow> hook_pointers \<Rightarrow> bool \<times> hook_pointers" where
  "setup_hardlog_pointers kallsyms_lookup_name p0 =
     (let p1 = p0\<lparr>audit_log_start_hardlog_ptr := kallsyms_lookup_name ''audit_log_start_hardlog''\<rparr> in
      if \<not> audit_log_start_hardlog_ptr p1 then (False, p1) else
      let p2 = p1\<lparr>audit_log_end_hardlog_ptr := kallsyms_lookup_name ''audit_log_end_hardlog''\<rparr> in
      if \<not> audit_log_end_hardlog_ptr p2 then (False, p2) else
      let p3 = p2\<lparr>audit_log_format_hardlog_ptr := kallsyms_lookup_name ''audit_log_format_hardlog''\<rparr> in
      if \<not> audit_log_format_hardlog_ptr p3 then (False, p3) else
      let p4 = p3\<lparr>audit_log_n_string_hardlog_ptr := kallsyms_lookup_name ''audit_log_n_string_hardlog''\<rparr> in
      if \<not> audit_log_n_string_hardlog_ptr p4 then (False, p4) else
      let p5 = p4\<lparr>audit_log_n_hex_hardlog_ptr := kallsyms_lookup_name ''audit_log_n_hex_hardlog''\<rparr> in
      if \<not> audit_log_n_hex_hardlog_ptr p5 then (False, p5) else (True, p5))"

section \<open>The hooks of \<open>kernel/audit.c\<close>\<close>

text \<open>The kernel's own daemon waits after each batch until hardlog is no longer active.\<close>

definition kauditd_pause ::
    "'z logger_scheme interleaving \<Rightarrow> 'z logger_scheme \<Rightarrow> ('z logger_scheme \<times> 'z logger_scheme interleaving) res" where
  "kauditd_pause env s = wait_while is_hardlog_active env s"

definition audit_log_format :: "'z logger_scheme kaudit \<Rightarrow> string \<Rightarrow> arg list \<Rightarrow> 'z logger_scheme call" where
  "audit_log_format K fmt args = (\<lambda>(ab, s).
     case ab of None \<Rightarrow> Inr (None, s)
     | Some _ \<Rightarrow> if is_hardlog_active s
         then rbind (audit_log_format_hardlog ab (vformat Plain fmt args)) (\<lambda>ab'. Inr (ab', s))
         else Inr (ab, audit_log_vformat K ab (vformat Plain fmt args) s))"

definition audit_log_start ::
    "'z logger_scheme kaudit \<Rightarrow> audit_context option \<Rightarrow> record_type \<Rightarrow> 'z logger_scheme \<Rightarrow> (audit_buffer option \<times> 'z logger_scheme) res" where
  "audit_log_start K c ty s0 =
     (case buffer_alloc K c ty s0 of
        (None, s) \<Rightarrow> Inr (None, s)
      | (Some ab0, s) \<Rightarrow>
          let ab = (if is_hardlog_active s
                    then audit_log_start_hardlog (use_vmalloc K) (kmalloc_of K) (vmalloc_of K) ab0 else ab0)
          in case get_stamp K (ctx ab) s of (sec, nsec, serial) \<Rightarrow>
             if is_hardlog_microlog_active s
             then audit_log_format K ''%llu.%03lu:%u: '' [Num sec, Num (nsec div 1000000), Num serial] (Some ab, s)
             else audit_log_format K ''audit(%llu.%03lu:%u): '' [Num sec, Num (nsec div 1000000), Num serial] (Some ab, s))"

text \<open>
  The next two go on with the native code after the hook; the hook of \<open>audit_log_n_string\<close> is the
  hexadecimal one.
\<close>

definition audit_log_n_hex :: "'z logger_scheme kaudit \<Rightarrow> char list \<Rightarrow> u64 \<Rightarrow> 'z logger_scheme call" where
  "audit_log_n_hex K buf len = (\<lambda>(ab, s).
     rbind (if is_hardlog_active s then audit_log_n_hex_hardlog (pack_of K) ab buf len else Inr ab) (\<lambda>ab'.
     case ab' of None \<Rightarrow> Inr (None, s) | Some b \<Rightarrow> Inr (ab', n_hex_native K b buf len s)))"

definition audit_log_n_string :: "'z logger_scheme kaudit \<Rightarrow> char list \<Rightarrow> u64 \<Rightarrow> 'z logger_scheme call" where
  "audit_log_n_string K str slen = (\<lambda>(ab, s).
     rbind (if is_hardlog_active s then audit_log_n_hex_hardlog (pack_of K) ab str slen else Inr ab) (\<lambda>ab'.
     case ab' of None \<Rightarrow> Inr (None, s) | Some b \<Rightarrow> Inr (ab', n_string_native K b str slen s)))"

definition audit_log_n_untrustedstring :: "'z logger_scheme kaudit \<Rightarrow> char list \<Rightarrow> u64 \<Rightarrow> 'z logger_scheme call" where
  "audit_log_n_untrustedstring K str len = (\<lambda>(ab, s).
     if is_hardlog_active s
     then rbind (if contains_control K str len then audit_log_n_hex_hardlog (pack_of K) ab str len
                 else audit_log_n_string_hardlog ab str len) (\<lambda>ab'. Inr (ab', s))
     else if contains_control K str len then audit_log_n_hex K str len (ab, s)
     else audit_log_n_string K str len (ab, s))"

definition audit_log_end ::
    "'z logger_scheme kaudit \<Rightarrow> bool \<Rightarrow> u64 \<Rightarrow> 'z logger_scheme interleaving \<Rightarrow> audit_buffer option \<times> 'z logger_scheme
     \<Rightarrow> ('z logger_scheme \<times> 'z logger_scheme interleaving) res" where
  "audit_log_end K flushtimef now env = (\<lambda>(ab, s).
     if is_hardlog_active s
     then rbind (audit_log_end_hardlog flushtimef now ab env s) (\<lambda>(ab', s', env'). Inr (audit_buffer_free K ab' s', env'))
     else case ab of None \<Rightarrow> Inr (s, env) | Some b \<Rightarrow> Inr (end_native K b s, env))"

text \<open>
  The description of the calling task. \<open>subj\<close> is its security context, when there is one; \<open>exe\<close> the path of
  its program, when it has one.
\<close>

record task =
  ppid :: int
  pid :: int
  auid :: int
  uid :: int
  gid :: int
  euid :: int
  suid :: int
  fsuid :: int
  egid :: int
  sgid :: int
  fsgid :: int
  tty :: "string option"
  ses :: int
  comm :: string
  exe :: "string option"
  subj :: "string option"

definition audit_log_task_context :: "'z logger_scheme kaudit \<Rightarrow> task \<Rightarrow> 'z logger_scheme call" where
  "audit_log_task_context K t = (\<lambda>(ab, s).
     case subj t of None \<Rightarrow> Inr (ab, s)
     | Some c \<Rightarrow> if is_hardlog_microlog_active s then audit_log_format K '' %s'' [Str c] (ab, s)
         else audit_log_format K '' subj=%s'' [Str c] (ab, s))"

definition audit_log_d_path_exe :: "'z logger_scheme kaudit \<Rightarrow> task \<Rightarrow> 'z logger_scheme call" where
  "audit_log_d_path_exe K t = (\<lambda>(ab, s).
     case exe t of
       Some p \<Rightarrow> if is_hardlog_microlog_active s then audit_log_d_path K '' '' p (ab, s)
         else audit_log_d_path K '' exe='' p (ab, s)
     | None \<Rightarrow> if is_hardlog_microlog_active s then audit_log_format K '' (null)'' [] (ab, s)
         else audit_log_format K '' exe=(null)'' [] (ab, s))"

definition task_args :: "task \<Rightarrow> arg list" where
  "task_args t = [Num (ppid t), Num (pid t), Num (auid t), Num (uid t), Num (gid t), Num (euid t), Num (suid t),
     Num (fsuid t), Num (egid t), Num (sgid t), Num (fsgid t),
     Str (case tty t of Some n \<Rightarrow> n | None \<Rightarrow> ''(none)''), Num (ses t)]"

definition audit_log_task_info :: "'z logger_scheme kaudit \<Rightarrow> task \<Rightarrow> 'z logger_scheme call" where
  "audit_log_task_info K t = (\<lambda>(ab, s).
     if is_hardlog_microlog_active s
     then seq [audit_log_format K '' %d %d %u %u %u %u %u %u %u %u %u %s %u'' (task_args t),
               audit_log_format K '' '' [],
               audit_log_untrustedstring K (comm t),
               audit_log_d_path_exe K t,
               audit_log_task_context K t] (ab, s)
     else seq [audit_log_format K '' ppid=%d pid=%d auid=%u uid=%u gid=%u euid=%u suid=%u fsuid=%u egid=%u sgid=%u fsgid=%u tty=%s ses=%u'' (task_args t),
               audit_log_format K '' comm='' [],
               audit_log_untrustedstring K (comm t),
               audit_log_d_path_exe K t,
               audit_log_task_context K t] (ab, s))"

section \<open>The records of \<open>kernel/auditsc.c\<close>\<close>

definition AUDITSC_SUCCESS :: int where "AUDITSC_SUCCESS = 1"
definition PER_LINUX :: u64 where "PER_LINUX = 0"

definition argv_args :: "audit_context \<Rightarrow> arg list" where
  "argv_args c = [Num (uint (argv c ! 0)), Num (uint (argv c ! 1)), Num (uint (argv c ! 2)), Num (uint (argv c ! 3)), Num (name_count c)]"

definition result_args :: "audit_context \<Rightarrow> arg list" where
  "result_args c = [Str (if return_valid c = AUDITSC_SUCCESS then ''yes'' else ''no''), Num (return_code c)]"

definition syscall_body :: "'z logger_scheme kaudit \<Rightarrow> audit_context \<Rightarrow> task \<Rightarrow> 'z logger_scheme call" where
  "syscall_body K c t = (\<lambda>(ab, s).
     if is_hardlog_microlog_active s
     then seq ([audit_log_format K ''%x %d'' [Num (arch c), Num (major c)]]
       @ (if personality c \<noteq> PER_LINUX then [audit_log_format K '' %lx'' [Num (uint (personality c))]] else [])
       @ (if return_valid c \<noteq> 0 then [audit_log_format K '' %s %ld'' (result_args c)] else [])
       @ [audit_log_format K '' %lx %lx %lx %lx %d'' (argv_args c), audit_log_task_info K t, audit_log_key K (filterkey c)]) (ab, s)
     else seq ([audit_log_format K ''arch=%x syscall=%d'' [Num (arch c), Num (major c)]]
       @ (if personality c \<noteq> PER_LINUX then [audit_log_format K '' per=%lx'' [Num (uint (personality c))]] else [])
       @ (if return_valid c \<noteq> 0 then [audit_log_format K '' success=%s exit=%ld'' (result_args c)] else [])
       @ [audit_log_format K '' a0=%lx a1=%lx a2=%lx a3=%lx items=%d'' (argv_args c), audit_log_task_info K t, audit_log_key K (filterkey c)]) (ab, s))"

text \<open>A record from its start to its end; without a buffer there is none.\<close>

definition log_record ::
    "'z logger_scheme kaudit \<Rightarrow> record_type \<Rightarrow> audit_context \<Rightarrow> 'z logger_scheme call \<Rightarrow> bool \<Rightarrow> u64 \<Rightarrow> 'z logger_scheme interleaving
     \<Rightarrow> 'z logger_scheme \<Rightarrow> ('z logger_scheme \<times> 'z logger_scheme interleaving) res" where
  "log_record K ty c body flushtimef now env s =
     rbind (audit_log_start K (Some c) ty s) (\<lambda>(ab, s1).
       case ab of None \<Rightarrow> Inr (s1, env)
       | Some _ \<Rightarrow> rbind (body (ab, s1)) (audit_log_end K flushtimef now env))"

definition log_syscall ::
    "'z logger_scheme kaudit \<Rightarrow> audit_context \<Rightarrow> task \<Rightarrow> bool \<Rightarrow> u64 \<Rightarrow> 'z logger_scheme interleaving
     \<Rightarrow> 'z logger_scheme \<Rightarrow> ('z logger_scheme \<times> 'z logger_scheme interleaving) res" where
  "log_syscall K c t = log_record K AUDIT_SYSCALL c (syscall_body K c t)"

definition fd_pair_body :: "'z logger_scheme kaudit \<Rightarrow> audit_context \<Rightarrow> bool \<Rightarrow> 'z logger_scheme call" where
  "fd_pair_body K c micro =
     (if micro then audit_log_format K ''%d %d'' [Num (fst (fds c)), Num (snd (fds c))]
      else audit_log_format K ''fd0=%d fd1=%d'' [Num (fst (fds c)), Num (snd (fds c))])"

definition log_fd_pair ::
    "'z logger_scheme kaudit \<Rightarrow> audit_context \<Rightarrow> bool \<Rightarrow> u64 \<Rightarrow> 'z logger_scheme interleaving
     \<Rightarrow> 'z logger_scheme \<Rightarrow> ('z logger_scheme \<times> 'z logger_scheme interleaving) res" where
  "log_fd_pair K c flushtimef now env s =
     (if fst (fds c) \<ge> 0
      then log_record K AUDIT_FD_PAIR c (fd_pair_body K c (is_hardlog_microlog_active s)) flushtimef now env s
      else Inr (s, env))"

definition sockaddr_body :: "'z logger_scheme kaudit \<Rightarrow> audit_context \<Rightarrow> bool \<Rightarrow> 'z logger_scheme call" where
  "sockaddr_body K c micro =
     (if micro then audit_log_n_hex K (sockaddr c) (sockaddr_len c)
      else seq [audit_log_format K ''saddr='' [], audit_log_n_hex K (sockaddr c) (sockaddr_len c)])"

definition log_sockaddr ::
    "'z logger_scheme kaudit \<Rightarrow> audit_context \<Rightarrow> bool \<Rightarrow> u64 \<Rightarrow> 'z logger_scheme interleaving
     \<Rightarrow> 'z logger_scheme \<Rightarrow> ('z logger_scheme \<times> 'z logger_scheme interleaving) res" where
  "log_sockaddr K c flushtimef now env s =
     (if sockaddr_len c \<noteq> 0
      then log_record K AUDIT_SOCKADDR c (sockaddr_body K c (is_hardlog_microlog_active s)) flushtimef now env s
      else Inr (s, env))"

text \<open>
  The target of a signal, into an open record: \<open>sid\<close> is its security id, \<open>secctx\<close> what the security module answers for it.
  The result is the return code.
\<close>

record signal_target =
  target_pid :: int
  target_auid :: int
  target_uid :: int
  target_sessionid :: int
  target_sid :: u32
  target_comm :: string

definition target_args :: "signal_target \<Rightarrow> arg list" where
  "target_args p = [Num (target_pid p), Num (target_auid p), Num (target_uid p), Num (target_sessionid p)]"

definition pid_context_rc :: "(u32 \<Rightarrow> string option) \<Rightarrow> signal_target \<Rightarrow> int" where
  "pid_context_rc secctx p = (if target_sid p \<noteq> 0 \<and> secctx (target_sid p) = None then 1 else 0)"

definition pid_context_body :: "'z logger_scheme kaudit \<Rightarrow> (u32 \<Rightarrow> string option) \<Rightarrow> signal_target \<Rightarrow> 'z logger_scheme call" where
  "pid_context_body K secctx p = (\<lambda>(ab, s).
     if is_hardlog_microlog_active s
     then seq ([audit_log_format K ''%d %d %d %d'' (target_args p)]
       @ (if target_sid p = 0 then [] else case secctx (target_sid p) of
            None \<Rightarrow> [audit_log_format K '' (none)'' []] | Some c \<Rightarrow> [audit_log_format K '' %s'' [Str c]])
       @ [audit_log_format K '' '' [], audit_log_untrustedstring K (target_comm p)]) (ab, s)
     else seq ([audit_log_format K ''opid=%d oauid=%d ouid=%d oses=%d'' (target_args p)]
       @ (if target_sid p = 0 then [] else case secctx (target_sid p) of
            None \<Rightarrow> [audit_log_format K '' obj=(none)'' []] | Some c \<Rightarrow> [audit_log_format K '' obj=%s'' [Str c]])
       @ [audit_log_format K '' ocomm='' [], audit_log_untrustedstring K (target_comm p)]) (ab, s))"

section \<open>What is relied on\<close>

text \<open>The native functions that format strings, paths and keys, in terms of the hooked ones.\<close>

definition native_calls :: "'z logger_scheme kaudit \<Rightarrow> bool" where
  "native_calls K \<longleftrightarrow>
     (\<forall>str. audit_log_untrustedstring K str = audit_log_n_untrustedstring K str (of_nat (length str)))
   \<and> (\<forall>pre p. audit_log_d_path K pre p = seq [audit_log_format K ''%s'' [Str pre], audit_log_untrustedstring K p])
   \<and> (\<forall>key. audit_log_key K key = seq [audit_log_format K '' key='' [],
        case key of None \<Rightarrow> audit_log_format K ''(null)'' [] | Some k \<Rightarrow> audit_log_untrustedstring K k])"

text \<open>The native code does not touch the module's state.\<close>

definition same_module :: "'z logger_scheme \<Rightarrow> 'z logger_scheme \<Rightarrow> bool" where
  "same_module s s' \<longleftrightarrow> audit_cbuff s' = audit_cbuff s \<and> hardlog_audit_producer s' = hardlog_audit_producer s
     \<and> hardlog_active s' = hardlog_active s \<and> hardlog_microlog_active s' = hardlog_microlog_active s"

definition keeps_module :: "'z logger_scheme kaudit \<Rightarrow> bool" where
  "keeps_module K \<longleftrightarrow> (\<forall>c ty s. same_module s (snd (buffer_alloc K c ty s)))
     \<and> (\<forall>ab s. same_module s (audit_buffer_free K ab s)) \<and> (\<forall>ab s. same_module s (end_native K ab s))
     \<and> (\<forall>ab u s. same_module s (audit_log_vformat K ab u s))"

section \<open>Facts\<close>

lemma digit_value_letter [simp]:
  "digit_value CHR ''d'' = None" "digit_value CHR ''u'' = None" "digit_value CHR ''x'' = None" "digit_value CHR ''s'' = None"
  "digit_value CHR ''0'' = Some 0" "digit_value CHR ''3'' = Some 3"
  by (simp_all add: digit_value_def)

lemma pad_zeros_0 [simp]: "pad_zeros 0 s = s"
  by (simp add: pad_zeros_def)

declare convert.simps(2) [simp del]

lemma append_text_append:
  assumes "event_room ab"
  shows "append_text (append_text ab xs) ys = append_text ab (xs @ ys)"
proof -
  from assms obtain b c where b: "hardlog_event_buffer ab = Some b" "hardlog_event_consumed ab = int c" by (rule event_roomE)
  have "nat (int c + int (length xs)) = c + length xs" by simp
  moreover have "write_mem (write_mem (cells b) c (xs @ [NUL])) (c + length xs) (ys @ [NUL]) = write_mem (cells b) c ((xs @ ys) @ [NUL])"
    by (rule ext) (auto simp: write_mem_def nth_append)
  ultimately show ?thesis using b by (simp add: append_text_def)
qed

text \<open>A call that, on a well-formed event with room, adds a text and does nothing else.\<close>

definition adds :: "bool \<Rightarrow> 'z logger_scheme call \<Rightarrow> string \<Rightarrow> bool" where
  "adds m call u \<longleftrightarrow> (\<forall>ab s. event_room ab \<longrightarrow> nat (hardlog_event_consumed ab) + length u \<le> 510 \<longrightarrow>
     hardlog_active s \<longrightarrow> hardlog_microlog_active s = m \<longrightarrow> call (Some ab, s) = Inr (Some (append_text ab u), s))"

lemma addsD:
  "adds m call u \<Longrightarrow> event_room ab \<Longrightarrow> nat (hardlog_event_consumed ab) + length u \<le> 510 \<Longrightarrow> hardlog_active s \<Longrightarrow>
   hardlog_microlog_active s = m \<Longrightarrow> call (Some ab, s) = Inr (Some (append_text ab u), s)"
  by (simp add: adds_def)

lemma adds_format: "vformat Plain fmt args = u \<Longrightarrow> adds m (audit_log_format K fmt args) u"
  using run_event_op_appends [where e = "Format u"]
  by (auto simp: adds_def audit_log_format_def is_hardlog_active_def)

definition untrusted :: "'z logger_scheme kaudit \<Rightarrow> string \<Rightarrow> string" where
  "untrusted K str = (if contains_control K str (of_nat (length str)) then hex_loop (pack_of K) str else CHR ''\"'' # str @ [CHR ''\"''])"

lemma adds_untrusted: "adds m (audit_log_n_untrustedstring K str (of_nat (length str))) (untrusted K str)"
  using run_event_op_appends [where e = "NHex str" and pack = "pack_of K"] run_event_op_appends [where e = "NString str" and pack = "pack_of K"]
  by (auto simp: adds_def audit_log_n_untrustedstring_def is_hardlog_active_def untrusted_def)

lemma adds_cong: "(\<And>x. call x = call' x) \<Longrightarrow> adds m call' u \<Longrightarrow> adds m call u"
  by (simp add: adds_def)

lemma adds_seq:
  assumes "list_all2 (adds m) cs ts" and "cs \<noteq> []" and "concat ts = u"
  shows "adds m (seq cs) u"
  using assms
proof (induction arbitrary: u rule: list_all2_induct)
  case (Cons c cs t ts)
  show ?case
  proof (cases "cs = []")
    case True
    then show ?thesis using Cons.hyps Cons.prems by (auto simp: adds_def)
  next
    case False
    have rest: "adds m (seq cs) (concat ts)" by (rule Cons.IH [OF False refl])
    have "seq (c # cs) (Some ab, s) = Inr (Some (append_text ab u), s)"
      if p: "event_room ab" "nat (hardlog_event_consumed ab) + length u \<le> 510" "hardlog_active s" "hardlog_microlog_active s = m" for ab s
    proof -
      have l: "nat (hardlog_event_consumed ab) + length t \<le> 510" using p(2) Cons.prems(2) by auto
      note a = append_text_ok [OF p(1), of t]
      have "event_room (append_text ab t)" using a(1) l event_ok_room by simp
      moreover have "nat (hardlog_event_consumed (append_text ab t)) + length (concat ts) \<le> 510"
        using a(4) l p(1,2) Cons.prems(2) by (auto elim!: event_roomE)
      ultimately show ?thesis
        using addsD [OF Cons.hyps(1) p(1) l p(3,4)] addsD [OF rest _ _ p(3,4), of "append_text ab t"] append_text_append [OF p(1), of t] Cons.prems(2)
        by auto
    qed
    then show ?thesis by (simp only: adds_def) blast
  qed
qed simp

text \<open>The values of the fields, as the format strings print them.\<close>

abbreviation dec32 :: "int \<Rightarrow> string" where "dec32 n \<equiv> convert False CHR ''d'' (Num n)"
abbreviation dec64 :: "int \<Rightarrow> string" where "dec64 n \<equiv> convert True CHR ''d'' (Num n)"
abbreviation uns32 :: "int \<Rightarrow> string" where "uns32 n \<equiv> convert False CHR ''u'' (Num n)"
abbreviation hex32 :: "int \<Rightarrow> string" where "hex32 n \<equiv> convert False CHR ''x'' (Num n)"
abbreviation hex64 :: "u64 \<Rightarrow> string" where "hex64 n \<equiv> convert True CHR ''x'' (Num (uint n))"

section \<open>The records as lists of fields\<close>

text \<open>
  What a record says: a list of labels and values. The full form prints both, the short form the values only.
\<close>

type_synonym field = "string \<times> string"

definition task_fields :: "'z logger_scheme kaudit \<Rightarrow> task \<Rightarrow> field list" where
  "task_fields K t = [(''ppid'', dec32 (ppid t)), (''pid'', dec32 (pid t)), (''auid'', uns32 (auid t)), (''uid'', uns32 (uid t)), (''gid'', uns32 (gid t)),
     (''euid'', uns32 (euid t)), (''suid'', uns32 (suid t)), (''fsuid'', uns32 (fsuid t)), (''egid'', uns32 (egid t)), (''sgid'', uns32 (sgid t)),
     (''fsgid'', uns32 (fsgid t)), (''tty'', case tty t of Some n \<Rightarrow> n | None \<Rightarrow> ''(none)''), (''ses'', uns32 (ses t)),
     (''comm'', untrusted K (comm t)), (''exe'', case exe t of Some p \<Rightarrow> untrusted K p | None \<Rightarrow> ''(null)'')]
   @ (case subj t of None \<Rightarrow> [] | Some c \<Rightarrow> [(''subj'', c)])"

definition result_fields :: "audit_context \<Rightarrow> field list" where
  "result_fields c = [(''success'', if return_valid c = AUDITSC_SUCCESS then ''yes'' else ''no''), (''exit'', dec64 (return_code c))]"

definition call_fields :: "audit_context \<Rightarrow> field list" where
  "call_fields c = [(''arch'', hex32 (arch c)), (''syscall'', dec32 (major c))]
   @ (if personality c \<noteq> PER_LINUX then [(''per'', hex64 (personality c))] else [])
   @ (if return_valid c \<noteq> 0 then result_fields c else [])
   @ [(''a0'', hex64 (argv c ! 0)), (''a1'', hex64 (argv c ! 1)), (''a2'', hex64 (argv c ! 2)), (''a3'', hex64 (argv c ! 3)), (''items'', dec32 (name_count c))]"

definition syscall_fields :: "'z logger_scheme kaudit \<Rightarrow> audit_context \<Rightarrow> task \<Rightarrow> field list" where
  "syscall_fields K c t = call_fields c @ task_fields K t"

fun field_text :: "bool \<Rightarrow> field \<Rightarrow> string" where
  "field_text short (l, v) = (if short then v else l @ CHR ''='' # v)"

text \<open>Each field after a space.\<close>

definition spaced :: "bool \<Rightarrow> field list \<Rightarrow> string" where
  "spaced short fs = concat (map (\<lambda>f. CHR '' '' # field_text short f) fs)"

definition key_text :: "'z logger_scheme kaudit \<Rightarrow> string option \<Rightarrow> string" where
  "key_text K key = (case key of None \<Rightarrow> ''(null)'' | Some k \<Rightarrow> untrusted K k)"

definition body_text :: "'z logger_scheme kaudit \<Rightarrow> bool \<Rightarrow> audit_context \<Rightarrow> task \<Rightarrow> string" where
  "body_text K short c t = tl (spaced short (syscall_fields K c t)) @ '' key='' @ key_text K (filterkey c)"

lemma spaced_append [simp]: "spaced short (fs @ gs) = spaced short fs @ spaced short gs"
  and spaced_Nil [simp]: "spaced short [] = []"
  and spaced_Cons [simp]: "spaced short (f # fs) = CHR '' '' # field_text short f @ spaced short fs"
  by (simp_all add: spaced_def)

lemma adds_native_untrusted:
  assumes "native_calls K"
  shows "adds m (audit_log_untrustedstring K str) (untrusted K str)"
  using assms adds_untrusted by (simp add: native_calls_def)

lemma adds_key:
  assumes "native_calls K"
  shows "adds m (audit_log_key K key) ('' key='' @ key_text K key)"
proof -
  have "adds m (seq [audit_log_format K '' key='' [], case key of None \<Rightarrow> audit_log_format K ''(null)'' [] | Some k \<Rightarrow> audit_log_untrustedstring K k])
      ('' key='' @ key_text K key)"
    by (rule adds_seq [where ts = "['' key='', key_text K key]"])
       (auto simp: key_text_def adds_format adds_native_untrusted [OF assms] split: option.split)
  then show ?thesis using assms unfolding native_calls_def by metis
qed

lemma adds_d_path:
  assumes "native_calls K"
  shows "adds m (audit_log_d_path K pre p) (pre @ untrusted K p)"
proof -
  have "adds m (seq [audit_log_format K ''%s'' [Str pre], audit_log_untrustedstring K p]) (pre @ untrusted K p)"
    by (rule adds_seq [where ts = "[pre, untrusted K p]"]) (auto simp: adds_format adds_native_untrusted [OF assms])
  then show ?thesis using assms unfolding native_calls_def by metis
qed

lemma adds_exe:
  assumes "native_calls K"
  shows "adds m (audit_log_d_path_exe K t) (spaced m [(''exe'', case exe t of Some p \<Rightarrow> untrusted K p | None \<Rightarrow> ''(null)'')])"
proof (cases "exe t")
  case None
  then show ?thesis
    using adds_format [of "'' (null)''" "[]" "'' (null)''" m K] adds_format [of "'' exe=(null)''" "[]" "'' exe=(null)''" m K]
    by (cases m) (simp_all add: adds_def audit_log_d_path_exe_def is_hardlog_microlog_active_def)
next
  case (Some p)
  then show ?thesis
    using adds_d_path [OF assms, of m "'' ''" p] adds_d_path [OF assms, of m "'' exe=''" p]
    by (cases m) (simp_all add: adds_def audit_log_d_path_exe_def is_hardlog_microlog_active_def)
qed


lemma adds_short: "adds m f u \<Longrightarrow> (\<And>ab s. hardlog_microlog_active s = m \<Longrightarrow> call (ab, s) = f (ab, s)) \<Longrightarrow> adds m call u"
  by (simp add: adds_def)

lemma adds_context:
  assumes "subj t = Some c"
  shows "adds m (audit_log_task_context K t) (spaced m [(''subj'', c)])"
proof (rule adds_short [where f = "if m then audit_log_format K '' %s'' [Str c] else audit_log_format K '' subj=%s'' [Str c]"])
  show "adds m (if m then audit_log_format K '' %s'' [Str c] else audit_log_format K '' subj=%s'' [Str c]) (spaced m [(''subj'', c)])"
    by (auto intro!: adds_format)
qed (simp add: audit_log_task_context_def is_hardlog_microlog_active_def assms)

lemma no_context: "subj t = None \<Longrightarrow> audit_log_task_context K t x = Inr x"
  by (cases x) (simp add: audit_log_task_context_def)

lemma seq_skip:
  assumes "\<And>x. call x = Inr x"
  shows "seq (cs @ [call]) = seq cs"
proof (induction cs)
  case (Cons c cs)
  then show ?case by (intro ext) simp
qed (intro ext, simp add: assms)

definition first_fields :: "task \<Rightarrow> field list" where
  "first_fields t = [(''ppid'', dec32 (ppid t)), (''pid'', dec32 (pid t)), (''auid'', uns32 (auid t)), (''uid'', uns32 (uid t)), (''gid'', uns32 (gid t)),
     (''euid'', uns32 (euid t)), (''suid'', uns32 (suid t)), (''fsuid'', uns32 (fsuid t)), (''egid'', uns32 (egid t)), (''sgid'', uns32 (sgid t)),
     (''fsgid'', uns32 (fsgid t)), (''tty'', case tty t of Some n \<Rightarrow> n | None \<Rightarrow> ''(none)''), (''ses'', uns32 (ses t))]"

lemma adds_first:
  "adds m (audit_log_format K (if m then '' %d %d %u %u %u %u %u %u %u %u %u %s %u''
     else '' ppid=%d pid=%d auid=%u uid=%u gid=%u euid=%u suid=%u fsuid=%u egid=%u sgid=%u fsgid=%u tty=%s ses=%u'') (task_args t)) (spaced m (first_fields t))"
  by (rule adds_format) (simp add: task_args_def first_fields_def)

lemma adds_task_info:
  assumes "native_calls K"
  shows "adds m (audit_log_task_info K t) (spaced m (task_fields K t))"
proof -
  let ?f = "audit_log_format K (if m then '' %d %d %u %u %u %u %u %u %u %u %u %s %u''
     else '' ppid=%d pid=%d auid=%u uid=%u gid=%u euid=%u suid=%u fsuid=%u egid=%u sgid=%u fsgid=%u tty=%s ses=%u'') (task_args t)"
  let ?c = "audit_log_format K (if m then '' '' else '' comm='') []"
  let ?e = "case exe t of Some p \<Rightarrow> untrusted K p | None \<Rightarrow> ''(null)''"
  have c: "adds m ?c (if m then '' '' else '' comm='')" by (rule adds_format) simp
  have four: "list_all2 (adds m) [?f, ?c, audit_log_untrustedstring K (comm t), audit_log_d_path_exe K t]
      [spaced m (first_fields t), if m then '' '' else '' comm='', untrusted K (comm t), spaced m [(''exe'', ?e)]]"
    using adds_first [of m K t] adds_native_untrusted [OF assms] adds_exe [OF assms, of m t] c by (simp only: list_all2_Cons list_all2_Nil)
  have "adds m (seq [?f, ?c, audit_log_untrustedstring K (comm t), audit_log_d_path_exe K t, audit_log_task_context K t]) (spaced m (task_fields K t))"
  proof (cases "subj t")
    case None
    have "seq ([?f, ?c, audit_log_untrustedstring K (comm t), audit_log_d_path_exe K t] @ [audit_log_task_context K t])
      = seq [?f, ?c, audit_log_untrustedstring K (comm t), audit_log_d_path_exe K t]"
      by (rule seq_skip) (rule no_context [OF None])
    moreover have "adds m (seq [?f, ?c, audit_log_untrustedstring K (comm t), audit_log_d_path_exe K t]) (spaced m (task_fields K t))"
      by (rule adds_seq [OF four]) (auto simp: task_fields_def first_fields_def None)
    ultimately show ?thesis by (simp only: append.simps)
  next
    case (Some c)
    have "list_all2 (adds m) ([?f, ?c, audit_log_untrustedstring K (comm t), audit_log_d_path_exe K t] @ [audit_log_task_context K t])
      ([spaced m (first_fields t), if m then '' '' else '' comm='', untrusted K (comm t), spaced m [(''exe'', ?e)]] @ [spaced m [(''subj'', c)]])"
      by (rule list_all2_appendI [OF four]) (simp only: list_all2_Cons list_all2_Nil adds_context [OF Some] simp_thms)
    then have "adds m (seq ([?f, ?c, audit_log_untrustedstring K (comm t), audit_log_d_path_exe K t] @ [audit_log_task_context K t])) (spaced m (task_fields K t))"
      by (rule adds_seq) (auto simp: task_fields_def first_fields_def Some)
    then show ?thesis by simp
  qed
  then show ?thesis
    by (rule adds_short) (simp add: audit_log_task_info_def is_hardlog_microlog_active_def)
qed


lemma adds_body:
  assumes "native_calls K"
  shows "adds m (syscall_body K c t) (body_text K m c t)"
proof -
  let ?A = "audit_log_format K (if m then ''%x %d'' else ''arch=%x syscall=%d'') [Num (arch c), Num (major c)]"
  let ?P = "audit_log_format K (if m then '' %lx'' else '' per=%lx'') [Num (uint (personality c))]"
  let ?R = "audit_log_format K (if m then '' %s %ld'' else '' success=%s exit=%ld'') (result_args c)"
  let ?V = "audit_log_format K (if m then '' %lx %lx %lx %lx %d'' else '' a0=%lx a1=%lx a2=%lx a3=%lx items=%d'') (argv_args c)"
  let ?vs = "[(''a0'', hex64 (argv c ! 0)), (''a1'', hex64 (argv c ! 1)), (''a2'', hex64 (argv c ! 2)), (''a3'', hex64 (argv c ! 3)), (''items'', dec32 (name_count c))]"
  let ?cs = "[?A] @ (if personality c \<noteq> PER_LINUX then [?P] else []) @ (if return_valid c \<noteq> 0 then [?R] else [])
    @ [?V, audit_log_task_info K t, audit_log_key K (filterkey c)]"
  have "adds m ?A (tl (spaced m [(''arch'', hex32 (arch c)), (''syscall'', dec32 (major c))]))" by (rule adds_format) simp
  moreover have "adds m ?P (spaced m [(''per'', hex64 (personality c))])" by (rule adds_format) simp
  moreover have "adds m ?R (spaced m (result_fields c))" by (rule adds_format) (simp add: result_args_def result_fields_def)
  moreover have "adds m ?V (spaced m ?vs)" by (rule adds_format) (simp add: argv_args_def)
  ultimately have "list_all2 (adds m) ?cs ([tl (spaced m [(''arch'', hex32 (arch c)), (''syscall'', dec32 (major c))])]
      @ (if personality c \<noteq> PER_LINUX then [spaced m [(''per'', hex64 (personality c))]] else [])
      @ (if return_valid c \<noteq> 0 then [spaced m (result_fields c)] else [])
      @ [spaced m ?vs, spaced m (task_fields K t), '' key='' @ key_text K (filterkey c)])"
    using adds_task_info [OF assms, of m t] adds_key [OF assms, of m "filterkey c"]
    by (intro list_all2_appendI) (simp_all del: spaced_Cons)
  then have "adds m (seq ?cs) (body_text K m c t)"
    by (rule adds_seq) (simp_all add: body_text_def syscall_fields_def call_fields_def)
  then show ?thesis
    by (rule adds_short) (simp add: syscall_body_def is_hardlog_microlog_active_def)
qed

text \<open>The first text of a record.\<close>

definition stamp_text :: "bool \<Rightarrow> int \<times> int \<times> int \<Rightarrow> string" where
  "stamp_text short = (\<lambda>(sec, nsec, serial).
     (if short then [] else ''audit('') @ convert True CHR ''u'' (Num sec) @ CHR ''.'' # pad_zeros 3 (convert True CHR ''u'' (Num (nsec div 1000000)))
     @ CHR '':'' # uns32 serial @ (if short then '': '' else ''): ''))"

lemma start_text:
  assumes "hardlog_active s" and "buffer_alloc K (Some c) ty s0 = (Some ab, s)" and "ctx ab = Some c"
    and "(if use_vmalloc K then vmalloc_of K 512 else kmalloc_of K 512) = Some b" and "live b" and "bsize b = 512"
    and "length (stamp_text (hardlog_microlog_active s) (get_stamp K (Some c) s)) \<le> 510"
  shows "\<exists>ab'. audit_log_start K (Some c) ty s0 = Inr (Some ab', s) \<and> event_ok ab' \<and> ctx ab' = Some c
    \<and> event_text ab' = stamp_text (hardlog_microlog_active s) (get_stamp K (Some c) s)"
proof -
  let ?m = "hardlog_microlog_active s" and ?ab = "audit_log_start_hardlog (use_vmalloc K) (kmalloc_of K) (vmalloc_of K) ab"
  obtain sec nsec serial where st: "get_stamp K (Some c) s = (sec, nsec, serial)" by (cases "get_stamp K (Some c) s") auto
  let ?u = "stamp_text ?m (sec, nsec, serial)"
  note start = start_event [of "use_vmalloc K" "vmalloc_of K" "kmalloc_of K" b ab, OF assms(4-6)]
  have u: "nat (hardlog_event_consumed ?ab) + length ?u \<le> 510" using start(2) assms(7) st by simp
  have "adds ?m (audit_log_format K (if ?m then ''%llu.%03lu:%u: '' else ''audit(%llu.%03lu:%u): '') [Num sec, Num (nsec div 1000000), Num serial]) ?u"
    by (rule adds_format) (simp add: stamp_text_def)
  from addsD [OF this start(1) u assms(1) refl] have "audit_log_start K (Some c) ty s0 = Inr (Some (append_text ?ab ?u), s)"
    using assms(1-3) start(4) st by (simp add: audit_log_start_def is_hardlog_active_def is_hardlog_microlog_active_def split: if_splits)
  then show ?thesis
    using append_text_ok [OF start(1), of ?u] u start assms(3) st by auto
qed

lemma same_moduleD:
  "same_module s s' \<Longrightarrow> audit_cbuff s' = audit_cbuff s \<and> hardlog_audit_producer s' = hardlog_audit_producer s
     \<and> hardlog_active s' = hardlog_active s \<and> hardlog_microlog_active s' = hardlog_microlog_active s"
  by (simp add: same_module_def)

text \<open>A record up to its end: one event with the whole text.\<close>

lemma log_record_end:
  assumes "adds (hardlog_microlog_active s) body u" and "hardlog_active s" and "buffer_alloc K (Some c) ty s0 = (Some ab, s)" and "ctx ab = Some c"
    and "(if use_vmalloc K then vmalloc_of K 512 else kmalloc_of K 512) = Some b" and "live b" and "bsize b = 512"
    and "length (stamp_text (hardlog_microlog_active s) (get_stamp K (Some c) s) @ u) \<le> 510"
  shows "\<exists>ab'. log_record K ty c body flushtimef now env s0 = audit_log_end K flushtimef now env (Some ab', s)
    \<and> event_ok ab' \<and> ctx ab' = Some c \<and> event_text ab' = stamp_text (hardlog_microlog_active s) (get_stamp K (Some c) s) @ u"
proof -
  let ?st = "stamp_text (hardlog_microlog_active s) (get_stamp K (Some c) s)"
  have "length ?st \<le> 510" using assms(8) by simp
  then obtain ab1 where ab1: "audit_log_start K (Some c) ty s0 = Inr (Some ab1, s)" "event_ok ab1" "ctx ab1 = Some c" "event_text ab1 = ?st"
    using start_text [OF assms(2-7)] by blast
  have room: "event_room ab1" using ab1(2) by (rule event_ok_room)
  have "nat (hardlog_event_consumed ab1) = length ?st" using length_event_text [OF room] ab1(4) by simp
  then have fit: "nat (hardlog_event_consumed ab1) + length u \<le> 510" using assms(8) by simp
  have "body (Some ab1, s) = Inr (Some (append_text ab1 u), s)" by (rule addsD [OF assms(1) room fit assms(2) refl])
  then have "log_record K ty c body flushtimef now env s0 = audit_log_end K flushtimef now env (Some (append_text ab1 u), s)"
    using ab1(1) by (simp add: log_record_def)
  moreover have "event_ok (append_text ab1 u)" "event_text (append_text ab1 u) = ?st @ u" "ctx (append_text ab1 u) = Some c"
    using append_text_ok [OF room, of u] fit ab1(3,4) by simp_all
  ultimately show ?thesis by blast
qed

text \<open>The end of a record that waits for nothing.\<close>

lemma end_commits:
  assumes "keeps_module K" and "hardlog_active s" and "event_ok ab" and "NUL \<notin> set (event_text ab)" and "35 \<le> length (event_text ab)"
    and "length (event_text ab) \<le> 509" and "\<forall>c. ctx ab = Some c \<longrightarrow> \<not> is_prio_syscall (major c)"
    and "hostbuf_ok (audit_cbuff s)" and "\<not> hardlog_audit_producer s" and "used (audit_cbuff s) + length (event_text ab) + 1 \<le> CBUFF"
    and "unat (head (audit_cbuff s)) mod CBUFF + length (event_text ab) + 1 \<le> CBUFF"
  shows "\<exists>s'. audit_log_end K flushtimef now [] (Some ab, s) = Inr (s', [])
    \<and> pending (audit_cbuff s') = pending (audit_cbuff s) @ event_text ab @ [NEWLINE] \<and> tail (audit_cbuff s') = tail (audit_cbuff s)
    \<and> \<not> hardlog_audit_producer s' \<and> hardlog_active s'"
proof -
  have rec: "event_record ab = event_text ab @ [NEWLINE]"
    using assms(3,6) by (simp add: event_record_short event_ok_room)
  obtain ab' where run: "audit_log_end_hardlog flushtimef now (Some ab) [] s = Inr (Some ab', commit_record flushtimef now (event_record ab) s, [])"
    using end_event_now [OF assms(3-5,8,9) _ assms(7)] assms(10) by fastforce
  let ?s = "commit_record flushtimef now (event_record ab) s"
  have "pending (push_bytes (audit_cbuff s) (event_record ab)) = pending (audit_cbuff s) @ event_record ab"
    using assms(8,10,11) by (intro push_bytes_pending) (simp_all add: rec)
  moreover have "same_module ?s (audit_buffer_free K (Some ab') ?s)" using assms(1) by (simp add: keeps_module_def)
  moreover have "hardlog_active ?s" using assms(2) by (simp add: commit_record_def)
  ultimately show ?thesis
    using run assms(2) by (auto simp: audit_log_end_def is_hardlog_active_def rec dest!: same_moduleD)
qed

section \<open>Properties\<close>

text \<open>
  C14: a system call's record reaches the buffer as its fields. While hardlog is active, the
  hooks turn the record of a system call into one event with the time stamp and every field of the call and
  of its task, with labels or, in the short form, without, and append it with a newline to the queue
  of the daemon; nothing else is appended.
\<close>

theorem syscall_recorded:
  assumes "native_calls K" and "keeps_module K" and "hardlog_active s"
    and "buffer_alloc K (Some c) AUDIT_SYSCALL s = (Some ab, s0)" and "ctx ab = Some c"
    and "(if use_vmalloc K then vmalloc_of K 512 else kmalloc_of K 512) = Some b" and "live b" and "bsize b = 512"
    and "u = stamp_text (hardlog_microlog_active s) (get_stamp K (Some c) s0) @ body_text K (hardlog_microlog_active s) c t"
    and "35 \<le> length u" and "length u \<le> 509" and "NUL \<notin> set u" and "\<not> is_prio_syscall (major c)"
    and "hostbuf_ok (audit_cbuff s)" and "\<not> hardlog_audit_producer s" and "used (audit_cbuff s) + length u + 1 \<le> CBUFF"
    and "unat (head (audit_cbuff s)) mod CBUFF + length u + 1 \<le> CBUFF"
  shows "\<exists>s'. log_syscall K c t flushtimef now [] s = Inr (s', [])
    \<and> pending (audit_cbuff s') = pending (audit_cbuff s) @ u @ [NEWLINE] \<and> tail (audit_cbuff s') = tail (audit_cbuff s)
    \<and> \<not> hardlog_audit_producer s' \<and> hardlog_active s'"
proof -
  have "same_module s s0" using assms(2,4) unfolding keeps_module_def by (metis snd_conv)
  note k = same_moduleD [OF this]
  have m: "hardlog_microlog_active s0 = hardlog_microlog_active s" "hardlog_active s0" using k assms(3) by auto
  obtain ab' where ab': "log_syscall K c t flushtimef now [] s = audit_log_end K flushtimef now [] (Some ab', s0)"
      "event_ok ab'" "ctx ab' = Some c" "event_text ab' = u"
    using log_record_end [OF adds_body [OF assms(1)] m(2) assms(4-8), of c t flushtimef now "[]"] assms(9,11) m(1) by (auto simp: log_syscall_def)
  have "\<exists>s'. audit_log_end K flushtimef now [] (Some ab', s0) = Inr (s', [])
    \<and> pending (audit_cbuff s') = pending (audit_cbuff s0) @ event_text ab' @ [NEWLINE] \<and> tail (audit_cbuff s') = tail (audit_cbuff s0)
    \<and> \<not> hardlog_audit_producer s' \<and> hardlog_active s'"
    by (rule end_commits [OF assms(2) m(2) ab'(2)]) (use ab'(3,4) assms(10-17) k in simp_all)
  then show ?thesis using ab'(1,4) k by simp
qed

definition base_kaudit :: "'z logger_scheme kaudit" where
  "base_kaudit = \<lparr>use_vmalloc = False, kmalloc_of = (\<lambda>n. Some \<lparr>cells = (\<lambda>_. NUL), bsize = n, live = True\<rparr>), vmalloc_of = (\<lambda>_. None),
     pack_of = (\<lambda>c. (CHR ''4'', CHR ''1'')),
     buffer_alloc = (\<lambda>c ty s. (Some \<lparr>skb = None, ctx = c, gfp_mask = 0, hardlog_event_buffer = None, hardlog_event_consumed = 0\<rparr>, s)),
     get_stamp = (\<lambda>c s. (1648271234, 7000000, 3)), audit_log_vformat = (\<lambda>ab u s. s), n_hex_native = (\<lambda>ab str n s. s), n_string_native = (\<lambda>ab str n s. s),
     contains_control = (\<lambda>str n. False), end_native = (\<lambda>ab s. s), audit_buffer_free = (\<lambda>ab s. s),
     audit_log_untrustedstring = (\<lambda>str. Inr), audit_log_d_path = (\<lambda>pre p. Inr), audit_log_key = (\<lambda>key. Inr)\<rparr>"

definition sample_untrusted :: "string \<Rightarrow> 'z logger_scheme call" where
  "sample_untrusted str = audit_log_n_untrustedstring base_kaudit str (of_nat (length str))"

definition sample_kaudit :: "'z logger_scheme kaudit" where
  "sample_kaudit = base_kaudit\<lparr>audit_log_untrustedstring := sample_untrusted,
     audit_log_d_path := (\<lambda>pre p. seq [audit_log_format base_kaudit ''%s'' [Str pre], sample_untrusted p]),
     audit_log_key := (\<lambda>key. seq [audit_log_format base_kaudit '' key='' [],
        case key of None \<Rightarrow> audit_log_format base_kaudit ''(null)'' [] | Some k \<Rightarrow> sample_untrusted k])\<rparr>"

lemma sample_kaudit_facts:
  "native_calls (sample_kaudit :: 'z logger_scheme kaudit)" "keeps_module (sample_kaudit :: 'z logger_scheme kaudit)"
  "get_stamp sample_kaudit x s = (1648271234, 7000000, 3)" "\<not> contains_control sample_kaudit str n"
  "buffer_alloc sample_kaudit x ty s = (Some \<lparr>skb = None, ctx = x, gfp_mask = 0, hardlog_event_buffer = None, hardlog_event_consumed = 0\<rparr>, s)"
  "\<not> use_vmalloc sample_kaudit" "kmalloc_of sample_kaudit n' = Some \<lparr>cells = (\<lambda>_. NUL), bsize = n', live = True\<rparr>"
proof -
  let ?K = "sample_kaudit :: 'z logger_scheme kaudit" and ?B = "base_kaudit :: 'z logger_scheme kaudit"
  have sel: "audit_log_vformat ?K = audit_log_vformat ?B" "pack_of ?K = pack_of ?B"
      "contains_control ?K = contains_control ?B" "n_hex_native ?K = n_hex_native ?B"
      "n_string_native ?K = n_string_native ?B"
    by (simp_all add: sample_kaudit_def)
  have f: "audit_log_format ?K = audit_log_format ?B"
    by (intro ext) (unfold audit_log_format_def sel, rule refl)
  have u: "audit_log_n_untrustedstring ?K = audit_log_n_untrustedstring ?B"
    by (intro ext) (unfold audit_log_n_untrustedstring_def audit_log_n_hex_def audit_log_n_string_def sel, rule refl)
  have s: "sample_untrusted = (\<lambda>str. audit_log_n_untrustedstring ?B str (of_nat (length str)))" by (simp add: fun_eq_iff sample_untrusted_def)
  show "native_calls ?K" unfolding native_calls_def f u by (simp add: sample_kaudit_def s cong: option.case_cong)
  show "keeps_module ?K" by (simp add: keeps_module_def same_module_def sample_kaudit_def base_kaudit_def)
qed (simp_all add: sample_kaudit_def base_kaudit_def)

definition sample_task :: task where
  "sample_task = \<lparr>ppid = 1, pid = 42, auid = 4294967295, uid = 0, gid = 0, euid = 0, suid = 0, fsuid = 0, egid = 0, sgid = 0, fsgid = 0,
     tty = None, ses = 4294967295, comm = ''cat'', exe = Some ''/bin/cat'', subj = None\<rparr>"

lemma replicate_two: "replicate 2 x = [x, x]"
  by (simp add: numeral_2_eq_2)

lemma sample_body:
  "body_text sample_kaudit False (syscall_context 2) sample_task =
    ''arch=c000003e syscall=2 success=yes exit=0 a0=0 a1=0 a2=0 a3=0 items=0 ppid=1 pid=42 auid=4294967295 uid=0 gid=0 euid=0 suid=0 fsuid=0 egid=0 sgid=0 fsgid=0 tty=(none) ses=4294967295 comm=\"cat\" exe=\"/bin/cat\" key=(null)''"
  "body_text sample_kaudit True (syscall_context 2) sample_task =
    ''c000003e 2 yes 0 0 0 0 0 0 1 42 4294967295 0 0 0 0 0 0 0 0 (none) 4294967295 \"cat\" \"/bin/cat\" key=(null)''"
  by (simp add: body_text_def syscall_fields_def call_fields_def result_fields_def task_fields_def key_text_def untrusted_def sample_kaudit_facts
      syscall_context_def sample_task_def PER_LINUX_def AUDITSC_SUCCESS_def convert.simps(2) signed_text_def to_string.simps to_hex.simps hex_digit_def digit_def;
    simp add: char_of_def bit_0)+

lemma sample_stamp: "stamp_text False (1648271234, 7000000, 3) = ''audit(1648271234.007:3): ''"
  by (simp add: stamp_text_def convert.simps(2) pad_zeros_def to_string.simps digit_def replicate_two) (simp add: char_of_def bit_0)

theorem syscall_recorded_witness:
  "\<exists>s'. log_syscall sample_kaudit (syscall_context 2) sample_task False 0 [] (logger_at 0 0) = Inr (s', [])
    \<and> pending (audit_cbuff s') = ''audit(1648271234.007:3): arch=c000003e syscall=2 success=yes exit=0 a0=0 a1=0 a2=0 a3=0 items=0 ppid=1 pid=42 auid=4294967295 uid=0 gid=0 euid=0 suid=0 fsuid=0 egid=0 sgid=0 fsgid=0 tty=(none) ses=4294967295 comm=\"cat\" exe=\"/bin/cat\" key=(null)'' @ [NEWLINE]"
proof -
  have l: "hardlog_active (logger_at 0 0)" "\<not> hardlog_microlog_active (logger_at 0 0)" "\<not> is_prio_syscall (major (syscall_context 2))"
      "pending (audit_cbuff (logger_at 0 0)) = []"
    using logger_at_facts(3) [of 0 0] by (simp_all add: logger_at_def is_prio_iff prio_syscalls_def pending_def)
  show ?thesis
    using syscall_recorded [OF sample_kaudit_facts(1,2) l(1) sample_kaudit_facts(5) _ _ _ _ refl _ _ _ l(3), of "\<lparr>cells = (\<lambda>_. NUL), bsize = 512, live = True\<rparr>" sample_task False 0]
    by (simp add: sample_kaudit_facts(3,6,7) l(2,4) sample_body sample_stamp logger_at_facts CBUFF_eq) blast
qed

fun words_of :: "string \<Rightarrow> string list" where
  "words_of [] = [[]]"
| "words_of (c # cs) = (if c = CHR '' '' then [] # words_of cs else (c # hd (words_of cs)) # tl (words_of cs))"

text \<open>A label is lower-case letters and digits before an equals sign.\<close>

definition label_char :: "char \<Rightarrow> bool" where
  "label_char c \<longleftrightarrow> c \<in> set ''abcdefghijklmnopqrstuvwxyz0123456789''"

definition unlabel :: "string \<Rightarrow> string" where
  "unlabel w = (case dropWhile label_char w of c # v \<Rightarrow> if c = CHR ''='' \<and> hd w \<noteq> CHR ''='' then v else w | [] \<Rightarrow> w)"

lemma words_of_ne [simp]: "words_of s \<noteq> []"
  by (cases s) auto

lemma words_of_append: "words_of (a @ CHR '' '' # b) = words_of a @ words_of b"
  by (induction a) auto

lemma words_of_word: "CHR '' '' \<notin> set w \<Longrightarrow> words_of w = [w]"
  by (induction w) auto

lemma words_of_spaced:
  "(\<And>f. f \<in> set fs \<Longrightarrow> CHR '' '' \<notin> set (field_text short f)) \<Longrightarrow> CHR '' '' \<notin> set r \<Longrightarrow>
   words_of (r @ spaced short fs) = r # map (field_text short) fs"
proof (induction fs arbitrary: r)
  case (Cons f fs)
  have "words_of (field_text short f @ spaced short fs) = field_text short f # map (field_text short) fs"
    by (rule Cons.IH) (use Cons.prems in auto)
  then show ?case using Cons.prems(2) by (simp add: words_of_append words_of_word)
qed (simp add: words_of_word)

lemma unlabel_label: "\<forall>c \<in> set l. label_char c \<Longrightarrow> l \<noteq> [] \<Longrightarrow> unlabel (l @ CHR ''='' # v) = v"
proof -
  assume l: "\<forall>c \<in> set l. label_char c" "l \<noteq> []"
  have "\<not> label_char CHR ''=''" by (simp add: label_char_def)
  then have "dropWhile label_char (l @ CHR ''='' # v) = CHR ''='' # v" using l(1) by simp
  moreover have "hd (l @ CHR ''='' # v) \<noteq> CHR ''=''" using l by (cases l) (auto simp: label_char_def)
  ultimately show "unlabel (l @ CHR ''='' # v) = v" by (simp add: unlabel_def)
qed

lemma no_equals: "CHR ''='' \<notin> set w \<Longrightarrow> unlabel w = w"
  using set_dropWhileD [of _ label_char w] by (auto simp: unlabel_def split: list.split)

definition plain_value :: "string \<Rightarrow> bool" where
  "plain_value v \<longleftrightarrow> CHR '' '' \<notin> set v \<and> unlabel v = v"

definition number_char :: "char \<Rightarrow> bool" where
  "number_char c \<longleftrightarrow> c \<in> set ''-0123456789abcdef''"

lemma digit_number: "d < 10 \<Longrightarrow> number_char (digit d)"
  using digit_chars [of d] by (auto simp: number_char_def)

lemma hex_digit_number: "d < 16 \<Longrightarrow> number_char (hex_digit d)"
proof -
  assume "d < 16"
  then consider "d < 10" | "d \<in> {10, 11, 12, 13, 14, 15}" by fastforce
  then show ?thesis
  proof cases
    case 1
    then show ?thesis using digit_number by (simp add: hex_digit_def)
  next
    case 2
    then show ?thesis by (elim insertE) (simp_all add: number_char_def hex_digit_def char_of_def bit_0)
  qed
qed

lemma to_hex_number: "\<forall>c \<in> set (to_hex n). number_char c"
proof (induction n rule: to_hex.induct)
  case (1 n)
  then show ?case
    using hex_digit_number [of n] hex_digit_number [of "n mod 16"] by (cases "n < 16") (auto simp: to_hex.simps [of n])
qed

lemma to_string_number: "\<forall>c \<in> set (to_string n). number_char c"
  using to_string_digits digit_number by blast

lemma number_chars: "\<forall>c \<in> set (convert long k (Num n)). number_char c"
proof -
  have "number_char CHR ''-''" by (simp add: number_char_def)
  then show ?thesis
    using to_hex_number to_string_number by (simp add: convert.simps(2) signed_text_def Let_def) blast
qed

lemma plain_number [simp]: "plain_value (convert long k (Num n))"
proof -
  have "\<not> number_char CHR '' ''" "\<not> number_char CHR ''=''" by (simp_all add: number_char_def)
  then have "CHR '' '' \<notin> set (convert long k (Num n))" "CHR ''='' \<notin> set (convert long k (Num n))"
    using number_chars [of long k n] by blast+
  then show ?thesis by (simp add: plain_value_def no_equals)
qed

lemma plain_words [simp]: "plain_value ''yes''" "plain_value ''no''" "plain_value ''(none)''" "plain_value ''(null)''"
  by (simp_all add: plain_value_def no_equals)

definition plain_field :: "field \<Rightarrow> bool" where
  "plain_field f \<longleftrightarrow> fst f \<noteq> [] \<and> (\<forall>c \<in> set (fst f). label_char c) \<and> plain_value (snd f)"

lemma plain_field_text:
  assumes "plain_field f"
  shows "CHR '' '' \<notin> set (field_text short f)" "unlabel (field_text short f) = snd f"
proof -
  obtain l v where f: "f = (l, v)" by (cases f)
  have l: "\<forall>c \<in> set l. label_char c" "l \<noteq> []" "plain_value v" using assms f by (simp_all add: plain_field_def)
  have "CHR '' '' \<notin> set l" using l(1) by (auto simp: label_char_def)
  then show "CHR '' '' \<notin> set (field_text short f)" using l(3) f by (simp add: plain_value_def)
  show "unlabel (field_text short f) = snd f" using l f unlabel_label [OF l(1,2)] by (simp add: plain_value_def)
qed

text \<open>The values that are not numbers: the terminal, the names of the task and of its program, its context, the key.\<close>

definition plain_texts :: "'z logger_scheme kaudit \<Rightarrow> audit_context \<Rightarrow> task \<Rightarrow> bool" where
  "plain_texts K c t \<longleftrightarrow> (\<forall>n. tty t = Some n \<longrightarrow> plain_value n) \<and> plain_value (untrusted K (comm t))
     \<and> (\<forall>p. exe t = Some p \<longrightarrow> plain_value (untrusted K p)) \<and> (\<forall>x. subj t = Some x \<longrightarrow> plain_value x)
     \<and> plain_value (key_text K (filterkey c))"

lemma syscall_fields_plain:
  assumes "plain_texts K c t" and "f \<in> set (syscall_fields K c t)"
  shows "plain_field f"
proof -
  have "list_all plain_field (call_fields c)"
    by (simp add: call_fields_def result_fields_def plain_field_def label_char_def)
  moreover have "list_all plain_field (task_fields K t)"
    using assms(1) by (auto simp: task_fields_def plain_texts_def plain_field_def label_char_def split: option.split)
  ultimately show ?thesis using assms(2) by (auto simp: syscall_fields_def list_all_iff)
qed

lemma body_words:
  assumes "plain_texts K c t"
  shows "map unlabel (words_of (body_text K short c t)) = map snd (syscall_fields K c t) @ [key_text K (filterkey c)]"
proof -
  let ?fs = "syscall_fields K c t" and ?k = "''key='' @ key_text K (filterkey c)"
  note p = plain_field_text [OF syscall_fields_plain [OF assms]]
  obtain f fs where f: "?fs = f # fs" by (simp add: syscall_fields_def call_fields_def)
  have "words_of (field_text short f @ spaced short fs) = field_text short f # map (field_text short) fs"
    by (rule words_of_spaced) (use p f in auto)
  then have b: "words_of (body_text K short c t) = map (field_text short) ?fs @ words_of ?k"
    by (simp add: body_text_def f words_of_append [of "field_text short f @ spaced short fs", simplified])
  have "CHR '' '' \<notin> set ?k" using assms by (simp add: plain_texts_def plain_value_def)
  then have "words_of ?k = [?k]" by (rule words_of_word)
  moreover have "unlabel ?k = key_text K (filterkey c)" using unlabel_label [of "''key''"] by (simp add: label_char_def)
  ultimately show ?thesis using b p(2) by simp
qed

text \<open>
  C23: the short form of a record loses no value. In both forms the words of a record are its fields in
  the same order; without its label, a word of the full form is the word of the short form.
\<close>

theorem short_form_keeps_values:
  assumes "native_calls K" and "plain_texts K c t" and "event_room ab" and "hardlog_active s" and "hardlog_active s'"
    and "hardlog_microlog_active s'" and "\<not> hardlog_microlog_active s"
    and "length (event_text ab) + length (body_text K True c t) \<le> 510" and "length (event_text ab) + length (body_text K False c t) \<le> 510"
  shows "\<exists>ab1 ab2. syscall_body K c t (Some ab, s) = Inr (Some ab1, s) \<and> syscall_body K c t (Some ab, s') = Inr (Some ab2, s')
    \<and> map unlabel (words_of (drop (length (event_text ab)) (event_text ab1))) = map snd (syscall_fields K c t) @ [key_text K (filterkey c)]
    \<and> map unlabel (words_of (drop (length (event_text ab)) (event_text ab2))) = map snd (syscall_fields K c t) @ [key_text K (filterkey c)]"
proof -
  have n: "nat (hardlog_event_consumed ab) = length (event_text ab)" using length_event_text [OF assms(3)] by simp
  note full = addsD [OF adds_body [OF assms(1), of False] assms(3) _ assms(4), of c t]
  note short = addsD [OF adds_body [OF assms(1), of True] assms(3) _ assms(5), of c t]
  have "event_text (append_text ab (body_text K m c t)) = event_text ab @ body_text K m c t" for m
    by (rule append_text_ok(2) [OF assms(3)]) (use n assms(8,9) in \<open>cases m; simp\<close>)
  then show ?thesis using full short n assms(6-9) by (auto simp: body_words [OF assms(2)])
qed

lemma sample_plain: "plain_texts sample_kaudit (syscall_context 2) sample_task"
  by (simp add: plain_texts_def key_text_def untrusted_def sample_kaudit_facts sample_task_def syscall_context_def) (simp add: plain_value_def no_equals)

theorem short_form_keeps_values_witness:
  "\<exists>ab1 ab2. syscall_body sample_kaudit (syscall_context 2) sample_task (Some (text_buffer 0 512 None), logger_at 0 0) = Inr (Some ab1, logger_at 0 0)
    \<and> syscall_body sample_kaudit (syscall_context 2) sample_task (Some (text_buffer 0 512 None), (logger_at 0 0)\<lparr>hardlog_microlog_active := True\<rparr>)
        = Inr (Some ab2, (logger_at 0 0)\<lparr>hardlog_microlog_active := True\<rparr>)
    \<and> map unlabel (words_of (event_text ab1)) = map unlabel (words_of (event_text ab2))"
proof -
  have "event_text (text_buffer 0 512 None) = []" "event_room (text_buffer 0 512 None)" by (simp_all add: text_buffer_facts)
  then show ?thesis
    using short_form_keeps_values [OF sample_kaudit_facts(1) sample_plain, of "text_buffer 0 512 None" "logger_at 0 0" "(logger_at 0 0)\<lparr>hardlog_microlog_active := True\<rparr>"]
    by (simp add: sample_body) (auto simp: logger_at_def)
qed

text \<open>
  C24: hardlog is active only with all its hooks. When the kernel's search for the module's functions
  is what the set-up of the logger calls, a set-up that makes hardlog active has set every pointer that the hooks call.
\<close>

theorem active_hooks_set:
  assumes "\<not> hardlog_active s" and "setup_pointers_result e = fst (setup_hardlog_pointers lookup p)"
    and "hardlog_logger_setup e valloc mlog s = Inr (r, s')" and "hardlog_active s'"
  shows "r \<and> (let p' = snd (setup_hardlog_pointers lookup p) in audit_log_start_hardlog_ptr p' \<and> audit_log_end_hardlog_ptr p'
    \<and> audit_log_format_hardlog_ptr p' \<and> audit_log_n_string_hardlog_ptr p' \<and> audit_log_n_hex_hardlog_ptr p')"
  using assms by (auto simp: hardlog_logger_setup_def setup_hardlog_pointers_def Let_def split: if_splits)

theorem active_hooks_set_witness:
  "let p' = snd (setup_hardlog_pointers (\<lambda>name. True) \<lparr>audit_log_start_hardlog_ptr = False, audit_log_end_hardlog_ptr = False,
     audit_log_format_hardlog_ptr = False, audit_log_n_string_hardlog_ptr = False, audit_log_n_hex_hardlog_ptr = False\<rparr>)
   in audit_log_start_hardlog_ptr p' \<and> audit_log_n_hex_hardlog_ptr p'"
proof -
  let ?s = "(logger_at 0 0)\<lparr>hardlog_active := False\<rparr>"
  let ?e = "\<lparr>has_setup_pointers = True, setup_pointers_result = True, has_hardlog_active = True, has_microlog_active = True\<rparr>"
  let ?p = "\<lparr>audit_log_start_hardlog_ptr = False, audit_log_end_hardlog_ptr = False,
     audit_log_format_hardlog_ptr = False, audit_log_n_string_hardlog_ptr = False, audit_log_n_hex_hardlog_ptr = False\<rparr>"
  obtain s' where s': "hardlog_logger_setup ?e (\<lambda>n. Some \<lparr>cells = (\<lambda>_. NUL), bsize = n, live = True\<rparr>) False ?s = Inr (True, s')" "hardlog_active s'"
    by (simp add: hardlog_logger_setup_def Let_def)
  have "\<not> hardlog_active ?s" "setup_pointers_result ?e = fst (setup_hardlog_pointers (\<lambda>name. True) ?p)"
    by (simp_all add: setup_hardlog_pointers_def)
  from active_hooks_set [OF this s'] show ?thesis by (simp add: Let_def)
qed

text \<open>
  A quoted string of the kernel becomes hexadecimal. The hook of \<open>audit_log_n_string\<close> calls the
  hexadecimal function: with room for it, the event gets the packed bytes and no quotes; and the native code runs as well.
\<close>

theorem string_hook_writes_hex:
  assumes "event_room ab" and "nat (hardlog_event_consumed ab) + 2 * length str \<le> 510" and "hardlog_active s"
  shows "audit_log_n_string K str (of_nat (length str)) (Some ab, s)
    = Inr (Some (append_text ab (hex_loop (pack_of K) str)), n_string_native K (append_text ab (hex_loop (pack_of K) str)) str (of_nat (length str)) s)"
  using run_event_op_appends [OF assms(1), of "pack_of K" "NHex str"] assms(2,3)
  by (simp add: audit_log_n_string_def is_hardlog_active_def)

theorem string_hook_writes_hex_witness:
  "\<exists>ab s. audit_log_n_string sample_kaudit ''sh'' 2 (Some (text_buffer 0 512 None), logger_at 0 0) = Inr (Some ab, s) \<and> event_text ab = ''4141''"
proof -
  have e: "event_room (text_buffer 0 512 None)" "event_text (text_buffer 0 512 None) = []" "hardlog_event_consumed (text_buffer 0 512 None) = 0"
    by (simp_all add: text_buffer_facts)
  have "hardlog_active (logger_at 0 0)" by (simp add: logger_at_def)
  then show ?thesis
    using string_hook_writes_hex [OF e(1), of "''sh''" "logger_at 0 0" sample_kaudit] append_text_ok(2) [OF e(1), of "''4141''"] e(2,3)
    by (simp add: sample_kaudit_def base_kaudit_def)
qed

text \<open>
  C40: hardlog must not become active in the middle of a record. A record that starts while it is not
  active keeps what its reused memory holds as event buffer; if that is a buffer that an earlier record has freed, the next
  formatted text after the activation writes to freed memory.
\<close>

theorem activation_mid_record:
  assumes "keeps_module K" and "\<not> hardlog_active s" and "buffer_alloc K (Some c) ty s = (Some ab, s0)"
    and "hardlog_event_buffer ab = Some b" and "\<not> live b" and "0 \<le> hardlog_event_consumed ab" and "hardlog_event_consumed ab \<le> 510"
  shows "\<exists>s1. audit_log_start K (Some c) ty s = Inr (Some ab, s1)
    \<and> audit_log_format K fmt args (Some ab, s1\<lparr>hardlog_active := True\<rparr>) = Inl UseAfterFree"
proof -
  have "same_module s s0" using assms(1,3) unfolding keeps_module_def by (metis snd_conv)
  then have n: "\<not> hardlog_active s0" using assms(2) same_moduleD by blast
  have "\<exists>s1. audit_log_start K (Some c) ty s = Inr (Some ab, s1)"
    using n assms(3) by (auto simp: audit_log_start_def audit_log_format_def is_hardlog_active_def split: prod.split)
  moreover have "unat (word_of_int (511 - hardlog_event_consumed ab) :: u64) = nat (511 - hardlog_event_consumed ab)"
    using assms(6,7) by (intro unat_of_int_small) simp_all
  ultimately show ?thesis
    using assms(4-7) by (auto simp: audit_log_format_def is_hardlog_active_def audit_log_format_hardlog_def vsnprintf_def Let_def store_def)
qed

definition reused_kaudit :: "logger kaudit" where
  "reused_kaudit = sample_kaudit\<lparr>buffer_alloc := (\<lambda>c ty s. (Some \<lparr>skb = None, ctx = c, gfp_mask = 0,
     hardlog_event_buffer = Some \<lparr>cells = (\<lambda>_. NUL), bsize = 512, live = False\<rparr>, hardlog_event_consumed = 40\<rparr>, s))\<rparr>"

theorem activation_mid_record_witness:
  "\<exists>ab s1. audit_log_start reused_kaudit (Some (syscall_context 2)) AUDIT_SYSCALL ((logger_at 0 0)\<lparr>hardlog_active := False\<rparr>) = Inr (Some ab, s1)
    \<and> audit_log_format reused_kaudit ''arch=%x'' [Num 1] (Some ab, s1\<lparr>hardlog_active := True\<rparr>) = Inl UseAfterFree"
proof -
  have "keeps_module reused_kaudit" using sample_kaudit_facts(2) [where 'z = unit] by (simp add: keeps_module_def reused_kaudit_def same_module_def)
  moreover have "buffer_alloc reused_kaudit (Some (syscall_context 2)) AUDIT_SYSCALL ((logger_at 0 0)\<lparr>hardlog_active := False\<rparr>)
      = (Some \<lparr>skb = None, ctx = Some (syscall_context 2), gfp_mask = 0, hardlog_event_buffer = Some \<lparr>cells = (\<lambda>_. NUL), bsize = 512, live = False\<rparr>,
           hardlog_event_consumed = 40\<rparr>, (logger_at 0 0)\<lparr>hardlog_active := False\<rparr>)"
    by (simp add: reused_kaudit_def)
  ultimately have "\<exists>s1. audit_log_start reused_kaudit (Some (syscall_context 2)) AUDIT_SYSCALL ((logger_at 0 0)\<lparr>hardlog_active := False\<rparr>)
        = Inr (Some \<lparr>skb = None, ctx = Some (syscall_context 2), gfp_mask = 0, hardlog_event_buffer = Some \<lparr>cells = (\<lambda>_. NUL), bsize = 512, live = False\<rparr>,
           hardlog_event_consumed = 40\<rparr>, s1)
      \<and> audit_log_format reused_kaudit ''arch=%x'' [Num 1] (Some \<lparr>skb = None, ctx = Some (syscall_context 2), gfp_mask = 0,
           hardlog_event_buffer = Some \<lparr>cells = (\<lambda>_. NUL), bsize = 512, live = False\<rparr>, hardlog_event_consumed = 40\<rparr>, s1\<lparr>hardlog_active := True\<rparr>) = Inl UseAfterFree"
    by (intro activation_mid_record [where b = "\<lparr>cells = (\<lambda>_. NUL), bsize = 512, live = False\<rparr>"]) simp_all
  then show ?thesis by blast
qed

text \<open>
  A record is lost when hardlog stops in the middle of it. What was added to the event is
  never copied to the buffer, and the event's memory is not freed.
\<close>

theorem deactivation_mid_record:
  assumes "keeps_module K" and "native_calls K" and "hardlog_active s" and "buffer_alloc K (Some c) AUDIT_SYSCALL s0 = (Some ab, s)"
    and "ctx ab = Some c" and "(if use_vmalloc K then vmalloc_of K 512 else kmalloc_of K 512) = Some b" and "live b" and "bsize b = 512"
    and "u = stamp_text (hardlog_microlog_active s) (get_stamp K (Some c) s) @ body_text K (hardlog_microlog_active s) c t" and "length u \<le> 510"
  shows "\<exists>ab1 ab2 b2 s'. audit_log_start K (Some c) AUDIT_SYSCALL s0 = Inr (Some ab1, s) \<and> syscall_body K c t (Some ab1, s) = Inr (Some ab2, s)
    \<and> event_text ab2 = u \<and> hardlog_event_buffer ab2 = Some b2 \<and> live b2
    \<and> audit_log_end K flushtimef now env (Some ab2, s\<lparr>hardlog_active := False\<rparr>) = Inr (s', env) \<and> audit_cbuff s' = audit_cbuff s0"
proof -
  have "same_module s0 s" using assms(1,4) unfolding keeps_module_def by (metis snd_conv)
  moreover have "audit_cbuff (end_native K x y) = audit_cbuff y" for x y using assms(1) by (simp add: keeps_module_def same_module_def)
  ultimately have c: "audit_cbuff (end_native K x (s\<lparr>hardlog_active := False\<rparr>)) = audit_cbuff s0" for x
    by (simp add: same_module_def)
  obtain ab1 where ab1: "audit_log_start K (Some c) AUDIT_SYSCALL s0 = Inr (Some ab1, s)" "event_ok ab1"
      "event_text ab1 = stamp_text (hardlog_microlog_active s) (get_stamp K (Some c) s)"
    using start_text [OF assms(3-8)] assms(9,10) by auto
  have room: "event_room ab1" using ab1(2) by (rule event_ok_room)
  let ?v = "body_text K (hardlog_microlog_active s) c t"
  have fit: "nat (hardlog_event_consumed ab1) + length ?v \<le> 510" using length_event_text [OF room] ab1(3) assms(9,10) by simp
  have "syscall_body K c t (Some ab1, s) = Inr (Some (append_text ab1 ?v), s)" by (rule addsD [OF adds_body [OF assms(2)] room fit assms(3) refl])
  moreover have t: "event_ok (append_text ab1 ?v)" "event_text (append_text ab1 ?v) = u" using append_text_ok(1,2) [OF room, of ?v] fit ab1(3) assms(9) by simp_all
  moreover obtain b2 where "hardlog_event_buffer (append_text ab1 ?v) = Some b2" "live b2" using event_ok_room [OF t(1)] by (rule event_roomE)
  ultimately show ?thesis using ab1(1) c by (auto simp: audit_log_end_def is_hardlog_active_def)
qed

theorem deactivation_mid_record_witness:
  "\<exists>ab1 ab2 s'. audit_log_start sample_kaudit (Some (syscall_context 2)) AUDIT_SYSCALL (logger_at 0 0) = Inr (Some ab1, logger_at 0 0)
    \<and> syscall_body sample_kaudit (syscall_context 2) sample_task (Some ab1, logger_at 0 0) = Inr (Some ab2, logger_at 0 0)
    \<and> audit_log_end sample_kaudit False 0 [] (Some ab2, (logger_at 0 0)\<lparr>hardlog_active := False\<rparr>) = Inr (s', [])
    \<and> audit_cbuff s' = audit_cbuff (logger_at 0 0)"
proof -
  have l: "hardlog_active (logger_at 0 0)" "hardlog_microlog_active (logger_at 0 0) = False" by (simp_all add: logger_at_def)
  have "\<exists>ab1 ab2 b2 s'. audit_log_start sample_kaudit (Some (syscall_context 2)) AUDIT_SYSCALL (logger_at 0 0) = Inr (Some ab1, logger_at 0 0)
    \<and> syscall_body sample_kaudit (syscall_context 2) sample_task (Some ab1, logger_at 0 0) = Inr (Some ab2, logger_at 0 0)
    \<and> event_text ab2 = stamp_text (hardlog_microlog_active (logger_at 0 0)) (get_stamp (sample_kaudit :: logger kaudit) (Some (syscall_context 2)) (logger_at 0 0))
        @ body_text (sample_kaudit :: logger kaudit) (hardlog_microlog_active (logger_at 0 0)) (syscall_context 2) sample_task
    \<and> hardlog_event_buffer ab2 = Some b2 \<and> live b2
    \<and> audit_log_end sample_kaudit False 0 [] (Some ab2, (logger_at 0 0)\<lparr>hardlog_active := False\<rparr>) = Inr (s', [])
    \<and> audit_cbuff s' = audit_cbuff (logger_at 0 0)"
    by (rule deactivation_mid_record [where b = "\<lparr>cells = (\<lambda>_. NUL), bsize = 512, live = True\<rparr>", OF sample_kaudit_facts(2,1) l(1) sample_kaudit_facts(5) _ _ _ _ refl])
       (simp_all add: sample_kaudit_facts(3,6,7) l(2) sample_body sample_stamp)
  then show ?thesis by blast
qed

end
