(* ===== verification/GD_Flush.thy ===== *)
theory GD_Flush
  imports HL_Bio "HOL-Library.Sublist"
begin

text \<open>
  The audit device's kernel side, a USB mass-storage gadget whose writes to the log are redirected
  (\<open>src/device/module/linux-4.4.213-usb-gadget.diff\<close>): the state of the patch (\<open>hardlog.h\<close>), its
  circular buffer with the geometry of \<open>HL_Ring\<close>, and the flusher (\<open>hardlog-bio-fs.c\<close>,
  \<open>hardlog-flush.c\<close>) that moves the buffer to the file behind the exported disk.

  The parameter \<open>vfs_write\<close> is the kernel's; the backing file's contents have an arbitrary type,
  read as bytes by a function \<open>data\<close>. The flusher thread is a program counter with one step per access
  to the shared state; \<open>flush_turn\<close> is a whole turn. The debug output, the flag \<open>O_SYNC\<close> and the
  length of the sleep have no effect on this state.
\<close>

section \<open>The buffer\<close>

definition HARDLOG_DATA_CBUFFSIZE :: nat where
  "HARDLOG_DATA_CBUFFSIZE = 512 * 1024 * 1024"

text \<open>The allocation has 2 MB more than the capacity.\<close>

definition DATA_SLACK :: nat where
  "DATA_SLACK = 2 * 1024 * 1024"

abbreviation DBUFF :: nat where "DBUFF \<equiv> HARDLOG_DATA_CBUFFSIZE"

lemma DBUFF_eq: "HARDLOG_DATA_CBUFFSIZE = 536870912"
  by (simp add: HARDLOG_DATA_CBUFFSIZE_def)

lemma DATA_SLACK_eq: "DATA_SLACK = 2097152"
  by (simp add: DATA_SLACK_def)

interpretation dev_ring: ring_geometry HARDLOG_DATA_CBUFFSIZE DATA_SLACK
  by unfold_locales (auto simp: DBUFF_eq DATA_SLACK_eq)

record circ_buffer =
  cbuffer :: "block option"
  chead :: u64
  ctail :: u64

section \<open>The disks and the state of the gadget\<close>

datatype sense = SS_NO_SENSE | SS_WRITE_PROTECTED | SS_INVALID_FIELD_IN_CDB
  | SS_LOGICAL_BLOCK_ADDRESS_OUT_OF_RANGE | SS_COMMUNICATION_FAILURE | SS_WRITE_ERROR

text \<open>The open file behind a disk: its position and its contents.\<close>

record 'f backing_file = struct_file +
  contents :: 'f

record 'f fsg_lun =
  lun_name :: string
  filp :: "'f backing_file kptr"
  ro :: bool
  file_length :: int
  num_sectors :: int
  blkbits :: nat
  blksize :: u32
  sense_data :: sense
  sense_data_info :: int
  info_valid :: bool

datatype buf_state = BUF_STATE_EMPTY | BUF_STATE_FULL | BUF_STATE_BUSY

text \<open>A transfer buffer with its outgoing request: state, bytes, status, number of bytes received.\<close>

record fsg_buffhd =
  bh_state :: buf_state
  bh_buf :: "char list"
  outreq_status :: int
  outreq_actual :: u32
  bulk_out_intended_length :: u32

text \<open>
  The disks are numbered; \<open>curlun\<close> is the one that the present command addresses (none if the host
  names one that does not exist), \<open>device_lun\<close> the one that holds the log.
\<close>

record 'f gadget =
  luns :: "'f fsg_lun list"
  curlun :: "nat option"
  cmnd :: "8 word list"
  data_size_from_cmnd :: u32
  usb_amount_left :: u32
  residue :: u32
  short_packet_received :: bool
  buffhds :: "fsg_buffhd list"
  next_buffhd_to_fill :: nat
  next_buffhd_to_drain :: nat
  device_filp :: "unit kptr"
  device_lun :: "nat option"
  data_cbuff :: circ_buffer
  file_start_offset :: u64
  file_end_offset :: u64
  server_request_flag :: bool
  faststorage :: bool

definition get_lun :: "nat option \<Rightarrow> 'f gadget \<Rightarrow> 'f fsg_lun res" where
  "get_lun p g = (case p of None \<Rightarrow> Inl NullDeref
     | Some i \<Rightarrow> if i < length (luns g) then Inr (luns g ! i) else Inl NullDeref)"

definition set_lun :: "nat option \<Rightarrow> 'f fsg_lun \<Rightarrow> 'f gadget \<Rightarrow> 'f gadget" where
  "set_lun p l g = (case p of None \<Rightarrow> g | Some i \<Rightarrow> g\<lparr>luns := (luns g)[i := l]\<rparr>)"

section \<open>The flusher\<close>

text \<open>\<open>vfs_write\<close> at the position of the open file, which moves it.\<close>

definition fs_write_dev :: "'f kwrite \<Rightarrow> u64 \<Rightarrow> u64 \<Rightarrow> 'f gadget \<Rightarrow> (int \<times> 'f gadget) res" where
  "fs_write_dev vfs_write end start g =
     (let remaining = end - start in
      if remaining \<le> 0 then Inr (0, g)
      else if is_err (device_filp g) \<or> is_null (device_filp g) then Inr (- 1, g)
      else
        rbind (get_lun (device_lun g) g) (\<lambda>l.
        rbind (deref (filp l)) (\<lambda>f.
        rbind (load_at (cbuffer (data_cbuff g)) (unat start) (unat (end - start))) (\<lambda>bs.
        case vfs_write bs (f_pos f) (contents f) of (len, pos, c) \<Rightarrow>
          let g' = set_lun (device_lun g) (l\<lparr>filp := Ptr (f\<lparr>f_pos := pos, contents := c\<rparr>)\<rparr>) g in
          if len \<le> 0 then Inr (len, g') else Inr (len, g'\<lparr>file_end_offset := pos\<rparr>)))))"

text \<open>
  The writes of one turn, as pairs of an end and a start: one when the head lies ahead of the tail,
  two when it has wrapped, none when both are at the same place.
\<close>

definition flush_ranges :: "u64 \<Rightarrow> u64 \<Rightarrow> (u64 \<times> u64) list" where
  "flush_ranges real_end t =
     (let cbuff_size = of_nat HARDLOG_DATA_CBUFFSIZE;
          end = real_end mod cbuff_size;
          start = t mod cbuff_size;
          special = (end < start);
          size = end - start
      in if size > 0 \<and> \<not> special then [(end, start)]
         else if special then [(cbuff_size, start), (end, 0)] else [])"

fun fs_writes :: "'f kwrite \<Rightarrow> (u64 \<times> u64) list \<Rightarrow> 'f gadget \<Rightarrow> 'f gadget res" where
  "fs_writes vfs_write [] g = Inr g"
| "fs_writes vfs_write ((end, start) # rs) g =
     rbind (fs_write_dev vfs_write end start g) (\<lambda>(_, g'). fs_writes vfs_write rs g')"

definition set_tail :: "u64 \<Rightarrow> 'f gadget \<Rightarrow> 'f gadget" where
  "set_tail t g = g\<lparr>data_cbuff := (data_cbuff g)\<lparr>ctail := t\<rparr>\<rparr>"

definition flush_turn :: "'f kwrite \<Rightarrow> 'f gadget \<Rightarrow> 'f gadget res" where
  "flush_turn vfs_write g =
     (let real_end = chead (data_cbuff g); rs = flush_ranges real_end (ctail (data_cbuff g))
      in if rs = [] then Inr g
         else rbind (fs_writes vfs_write rs g) (\<lambda>g'. Inr (set_tail real_end g')))"

text \<open>
  The thread: between turns, or with the head it has read and the writes it has still to do. Any
  thread may run between two steps.
\<close>

datatype flush_pc = FIdle | FWriting u64 "(u64 \<times> u64) list"

fun flush_step :: "'f kwrite \<Rightarrow> flush_pc \<Rightarrow> 'f gadget \<Rightarrow> (flush_pc \<times> 'f gadget) res" where
  "flush_step vfs_write FIdle g =
     (let real_end = chead (data_cbuff g); rs = flush_ranges real_end (ctail (data_cbuff g))
      in Inr (if rs = [] then FIdle else FWriting real_end rs, g))"
| "flush_step vfs_write (FWriting real_end []) g = Inr (FIdle, set_tail real_end g)"
| "flush_step vfs_write (FWriting real_end ((end, start) # rs)) g =
     rbind (fs_write_dev vfs_write end start g) (\<lambda>(_, g'). Inr (FWriting real_end rs, g'))"

section \<open>What is relied on\<close>

text \<open>
  \<open>vfs_write\<close>: what it reports written is at the position it was given, the position moves by as much,
  and nothing before the position changes, whether it succeeds or not.
\<close>

definition stores_at :: "('f \<Rightarrow> char list) \<Rightarrow> 'f kwrite \<Rightarrow> bool" where
  "stores_at data w \<longleftrightarrow> (\<forall>bs pos c len pos' c'. w bs pos c = (len, pos', c') \<longrightarrow> unat pos \<le> length (data c) \<longrightarrow>
     take (unat pos) (data c') = take (unat pos) (data c) \<and>
     (if 0 < len then nat len \<le> length bs \<and> unat pos' = unat pos + nat len \<and>
         take (nat len) (drop (unat pos) (data c')) = take (nat len) bs
      else pos' = pos))"

text \<open>A file system with room for a file of \<open>lim\<close> bytes writes all it is given up to there.\<close>

definition writes_upto :: "nat \<Rightarrow> 'f kwrite \<Rightarrow> bool" where
  "writes_upto lim w \<longleftrightarrow> (\<forall>bs pos c. bs \<noteq> [] \<longrightarrow> unat pos + length bs \<le> lim \<longrightarrow> fst (w bs pos c) = int (length bs))"

text \<open>The gadget after its set-up: the buffer is allocated, the log's file open.\<close>

definition log_backing :: "'f gadget \<Rightarrow> 'f backing_file res" where
  "log_backing g = rbind (get_lun (device_lun g) g) (\<lambda>l. deref (filp l))"

definition dev_mem :: "'f gadget \<Rightarrow> mem" where
  "dev_mem g = (case cbuffer (data_cbuff g) of None \<Rightarrow> (\<lambda>_. NUL) | Some b \<Rightarrow> cells b)"

definition databuf_ok :: "'f gadget \<Rightarrow> bool" where
  "databuf_ok g \<longleftrightarrow> (case cbuffer (data_cbuff g) of None \<Rightarrow> False | Some b \<Rightarrow> live b \<and> bsize b = DBUFF + DATA_SLACK)"

definition gadget_ready :: "('f \<Rightarrow> char list) \<Rightarrow> 'f gadget \<Rightarrow> bool" where
  "gadget_ready data g \<longleftrightarrow> databuf_ok g \<and> device_filp g = Ptr () \<and>
     (\<exists>f. log_backing g = Inr f \<and> unat (f_pos f) \<le> length (data (contents f)))"

text \<open>The log: the file up to the position of the flusher. The queue: what it has still to move.\<close>

definition log_of :: "('f \<Rightarrow> char list) \<Rightarrow> 'f gadget \<Rightarrow> char list" where
  "log_of data g = (case log_backing g of Inl _ \<Rightarrow> [] | Inr f \<Rightarrow> take (unat (f_pos f)) (data (contents f)))"

definition dev_used :: "'f gadget \<Rightarrow> nat" where
  "dev_used g = unat (chead (data_cbuff g) - ctail (data_cbuff g))"

definition dev_pending :: "'f gadget \<Rightarrow> char list" where
  "dev_pending g = ring_bytes DBUFF (dev_mem g) (unat (ctail (data_cbuff g))) (dev_used g)"

definition range_bytes :: "mem \<Rightarrow> u64 \<times> u64 \<Rightarrow> char list" where
  "range_bytes m r = read_mem m (unat (snd r)) (unat (fst r - snd r))"

definition range_fits :: "u64 \<times> u64 \<Rightarrow> bool" where
  "range_fits r \<longleftrightarrow> snd r \<le> fst r \<and> unat (fst r) \<le> DBUFF"

text \<open>What a write of the flusher may change.\<close>

definition same_but_file :: "'f gadget \<Rightarrow> 'f gadget \<Rightarrow> bool" where
  "same_but_file g g' \<longleftrightarrow> (\<exists>p e. g' = (case get_lun (device_lun g) g of Inl _ \<Rightarrow> g
     | Inr l \<Rightarrow> set_lun (device_lun g) (l\<lparr>filp := p\<rparr>) g)\<lparr>file_end_offset := e\<rparr>)"

section \<open>Facts\<close>

lemma deref_Inr: "deref p = Inr x \<longleftrightarrow> p = Ptr x"
  by (cases p) (auto simp: deref_def)

lemma load_at_Some:
  assumes "live b" and "off + n \<le> bsize b"
  shows "load_at (Some b) off n = Inr (read_mem (cells b) off n)"
proof -
  have "int off + int n \<le> int (bsize b)" using assms(2) by linarith
  then show ?thesis using assms(1) by (simp add: load_at_def load_def)
qed

lemma get_lun_Inr: "get_lun p g = Inr l \<longleftrightarrow> (\<exists>i. p = Some i \<and> i < length (luns g) \<and> l = luns g ! i)"
  by (auto simp: get_lun_def split: option.splits)

lemma get_set_lun [simp]:
  assumes "get_lun p g = Inr l"
  shows "get_lun p (set_lun p l' g) = Inr l'"
  using assms by (auto simp: get_lun_def set_lun_def split: option.splits if_splits)

lemma set_lun_fields [simp]:
  "data_cbuff (set_lun p l g) = data_cbuff g" "device_lun (set_lun p l g) = device_lun g"
  "device_filp (set_lun p l g) = device_filp g" "curlun (set_lun p l g) = curlun g"
  "file_start_offset (set_lun p l g) = file_start_offset g"
  "server_request_flag (set_lun p l g) = server_request_flag g" "faststorage (set_lun p l g) = faststorage g"
  by (simp_all add: set_lun_def split: option.splits)

lemma log_backing_cong:
  "device_lun g' = device_lun g \<Longrightarrow> luns g' = luns g \<Longrightarrow> log_backing g' = log_backing g"
  by (simp add: log_backing_def get_lun_def split: option.splits)

lemma databuf_okE:
  assumes "databuf_ok g"
  obtains b where "cbuffer (data_cbuff g) = Some b" "live b" "bsize b = DBUFF + DATA_SLACK" "dev_mem g = cells b"
  using assms by (auto simp: databuf_ok_def dev_mem_def split: option.splits)

lemma unat_diff_le: "(s :: u64) \<le> e \<Longrightarrow> unat (e - s) = unat e - unat s"
  by (rule unat_sub)

text \<open>A write of a range of the buffer extends the log by a prefix of the range, or not at all.\<close>

lemma fs_write_dev_extends:
  assumes "stores_at data w" and "gadget_ready data g" and "range_fits (e, s)"
  shows "\<exists>len g' k. fs_write_dev w e s g = Inr (len, g') \<and> gadget_ready data g' \<and> same_but_file g g'
    \<and> log_of data g' = log_of data g @ take k (range_bytes (dev_mem g) (e, s))
    \<and> (\<forall>lim. writes_upto lim w \<longrightarrow> length (log_of data g) + length (range_bytes (dev_mem g) (e, s)) \<le> lim
         \<longrightarrow> length (range_bytes (dev_mem g) (e, s)) \<le> k)"
proof -
  obtain b where b: "cbuffer (data_cbuff g) = Some b" "live b" "bsize b = DBUFF + DATA_SLACK" "dev_mem g = cells b"
    using assms(2) by (auto simp: gadget_ready_def elim: databuf_okE)
  obtain f where f: "log_backing g = Inr f" "unat (f_pos f) \<le> length (data (contents f))" and d: "device_filp g = Ptr ()"
    using assms(2) by (auto simp: gadget_ready_def)
  obtain l where l: "get_lun (device_lun g) g = Inr l" "filp l = Ptr f"
    using f(1) by (auto simp: log_backing_def deref_Inr)
  have same: "same_but_file g g"
    unfolding same_but_file_def using l(1)
    by (intro exI [of _ "filp l"] exI [of _ "file_end_offset g"]) (auto simp: set_lun_def get_lun_def split: option.splits if_splits)
  show ?thesis
  proof (cases "e - s \<le> 0")
    case True
    then have "fs_write_dev w e s g = Inr (0, g)" by (simp add: fs_write_dev_def)
    with True assms(2) same show ?thesis by (intro exI [of _ 0] exI [of _ g]) (auto simp: range_bytes_def)
  next
    case False
    let ?n = "unat (e - s)" and ?bs = "read_mem (cells b) (unat s) (unat (e - s))"
    have n: "0 < ?n" using False by (simp add: word_neq_0_conv unat_gt_0)
    have fit: "unat s + ?n \<le> DBUFF" using assms(3) by (simp add: range_fits_def unat_diff_le word_le_nat_alt)
    obtain len pos c where w: "w ?bs (f_pos f) (contents f) = (len, pos, c)" by (metis prod_cases3)
    let ?f = "f\<lparr>f_pos := pos, contents := c\<rparr>"
    let ?g = "set_lun (device_lun g) (l\<lparr>filp := Ptr ?f\<rparr>) g"
    let ?g' = "if len \<le> 0 then ?g else ?g\<lparr>file_end_offset := pos\<rparr>"
    have ld: "load_at (Some b) (unat s) ?n = Inr ?bs" using b(2,3) fit by (intro load_at_Some) simp_all
    have r: "fs_write_dev w e s g = Inr (len, ?g')"
      using False d l b(1) w ld by (simp add: fs_write_dev_def Let_def)
    have s: "take (unat (f_pos f)) (data c) = take (unat (f_pos f)) (data (contents f))"
        "0 < len \<Longrightarrow> nat len \<le> length ?bs \<and> unat pos = unat (f_pos f) + nat len
           \<and> take (nat len) (drop (unat (f_pos f)) (data c)) = take (nat len) ?bs"
        "\<not> 0 < len \<Longrightarrow> pos = f_pos f"
      using assms(1) w f(2) unfolding stores_at_def by metis+
    have bk: "log_backing ?g' = Inr ?f" using l by (simp add: log_backing_def get_lun_def set_lun_def split: option.splits if_splits)
    have len: "length (take (unat (f_pos f)) (data c)) = unat (f_pos f)" using s(1) f(2) by simp
    have pos: "unat pos \<le> length (data c)"
    proof (cases "0 < len")
      case True
      have "length (take (nat len) (drop (unat (f_pos f)) (data c))) = length (take (nat len) ?bs)" using s(2) True by metis
      moreover have "nat len \<le> length ?bs" using s(2) True by blast
      ultimately have "nat len \<le> length (data c) - unat (f_pos f)" by simp
      then show ?thesis using s(2) True by simp
    next
      case False
      then show ?thesis using s(3) len by simp
    qed
    have "log_of data ?g' = log_of data g @ take (nat len) ?bs"
    proof (cases "0 < len")
      case True
      then have "take (unat pos) (data c) = take (unat (f_pos f)) (data c) @ take (nat len) ?bs"
        using s(2) by (simp add: take_add)
      then show ?thesis using bk f(1) s(1) by (simp add: log_of_def)
    next
      case False
      then show ?thesis using bk f(1) s(1,3) by (simp add: log_of_def)
    qed
    moreover have "gadget_ready data ?g'"
      using assms(2) bk pos unfolding gadget_ready_def by (auto simp: databuf_ok_def)
    moreover have "same_but_file g ?g'"
      unfolding same_but_file_def using l
      by (intro exI [of _ "Ptr ?f"] exI [of _ "if len \<le> 0 then file_end_offset g else pos"]) (simp add: set_lun_def split: option.splits)
    moreover have "\<forall>lim. writes_upto lim w \<longrightarrow> length (log_of data g) + length ?bs \<le> lim \<longrightarrow> length ?bs \<le> nat len"
    proof (intro allI impI)
      fix lim assume "writes_upto lim w" "length (log_of data g) + length ?bs \<le> lim"
      moreover have "length (log_of data g) = unat (f_pos f)" using f by (simp add: log_of_def)
      moreover have "?bs \<noteq> []" using n by (metis length_read_mem length_0_conv less_not_refl)
      ultimately have "fst (w ?bs (f_pos f) (contents f)) = int (length ?bs)" unfolding writes_upto_def by metis
      with w show "length ?bs \<le> nat len" by simp
    qed
    ultimately show ?thesis using r b by (intro exI [of _ len] exI [of _ ?g'] exI [of _ "nat len"]) (simp add: range_bytes_def)
  qed
qed

text \<open>The ranges of a turn are inside the buffer, and hold the queue unless the buffer is exactly full.\<close>

lemma flush_ranges_nat:
  "flush_ranges h t =
     (let e = h mod of_nat DBUFF; s = t mod of_nat DBUFF in
      if unat h mod DBUFF = unat t mod DBUFF then []
      else if unat t mod DBUFF < unat h mod DBUFF then [(e, s)]
      else [(of_nat DBUFF, s), (e, 0)])"
proof -
  let ?e = "h mod of_nat DBUFF :: u64" and ?s = "t mod of_nat DBUFF :: u64"
  have u: "unat ?e = unat h mod DBUFF" "unat ?s = unat t mod DBUFF" by (simp_all only: dev_ring.unat_mod_cap)
  have eq: "?e = ?s \<longleftrightarrow> unat h mod DBUFF = unat t mod DBUFF" and lt: "?e < ?s \<longleftrightarrow> unat h mod DBUFF < unat t mod DBUFF"
    by (simp_all only: word_unat_eq_iff word_less_nat_alt u)
  have z: "0 < ?e - ?s \<longleftrightarrow> ?e \<noteq> ?s" by (simp add: word_neq_0_conv [symmetric])
  show ?thesis
    unfolding flush_ranges_def Let_def z lt eq
    by (cases rule: linorder_cases [of "unat h mod DBUFF" "unat t mod DBUFF"]) simp_all
qed

lemma flush_ranges_fit: "r \<in> set (flush_ranges h t) \<Longrightarrow> range_fits r"
  by (auto simp: flush_ranges_nat range_fits_def Let_def word_le_nat_alt dev_ring.unat_mod_cap dev_ring.unat_cap
      less_imp_le_nat dev_ring.cap_pos split: if_splits)

lemma range_bytes_linear:
  assumes "unat e = s + n" and "unat st = s"
  shows "range_bytes m (e, st) = read_mem m s n"
proof -
  have "unat (e - st) = n" using assms by (subst unat_diff_le) (simp_all add: word_le_nat_alt)
  then show ?thesis using assms(2) by (simp add: range_bytes_def)
qed

lemma flush_ranges_bytes:
  assumes "unat (h - t) < DBUFF"
  shows "concat (map (range_bytes m) (flush_ranges h t)) = ring_bytes DBUFF m (unat t) (unat (h - t))"
proof -
  let ?u = "unat (h - t)" and ?e = "unat h mod DBUFF" and ?s = "unat t mod DBUFF"
  let ?ew = "h mod of_nat DBUFF :: u64" and ?sw = "t mod of_nat DBUFF :: u64"
  have pos: "0 < DBUFF" by (rule dev_ring.cap_pos)
  have s: "?s < DBUFF" using pos by simp
  have e: "?e = (?s + ?u) mod DBUFF" using dev_ring.head_position [of h t] by (simp add: mod_add_left_eq)
  have w: "unat ?ew = ?e" "unat ?sw = ?s" "unat (of_nat DBUFF :: u64) = DBUFF"
    by (simp_all only: dev_ring.unat_mod_cap dev_ring.unat_cap)
  have ring: "ring_bytes DBUFF m (unat t) ?u = ring_bytes DBUFF m ?s ?u" by (simp only: ring_bytes_mod)
  consider "?s + ?u < DBUFF" | "DBUFF \<le> ?s + ?u" by linarith
  then show ?thesis
  proof cases
    case 1
    then have e': "?e = ?s + ?u" using e by simp
    have "ring_bytes DBUFF m ?s ?u = read_mem m ?s ?u" using 1 by (subst ring_bytes_linear) simp_all
    moreover have "range_bytes m (?ew, ?sw) = read_mem m ?s ?u" using w e' by (intro range_bytes_linear) simp_all
    ultimately show ?thesis using e' by (auto simp: flush_ranges_nat Let_def ring)
  next
    case 2
    then have e': "?e = ?s + ?u - DBUFF" using e s assms by (simp add: mod_if [of "?s + ?u"])
    then have lt: "?e < ?s" using 2 assms s by linarith
    have "?u = (DBUFF - ?s) + ?e" using e' 2 s by linarith
    then have "ring_bytes DBUFF m ?s ?u = ring_bytes DBUFF m ?s (DBUFF - ?s) @ ring_bytes DBUFF m (?s + (DBUFF - ?s)) ?e"
      by (simp only: ring_bytes_add)
    also have "ring_bytes DBUFF m ?s (DBUFF - ?s) = read_mem m ?s (DBUFF - ?s)" using s by (subst ring_bytes_linear) simp_all
    also have "ring_bytes DBUFF m (?s + (DBUFF - ?s)) ?e = ring_bytes DBUFF m 0 ?e"
      using s ring_bytes_mod [of DBUFF m DBUFF ?e] by simp
    also have "\<dots> = read_mem m 0 ?e" using s lt by (subst ring_bytes_linear) simp_all
    finally have "ring_bytes DBUFF m ?s ?u = read_mem m ?s (DBUFF - ?s) @ read_mem m 0 ?e" .
    moreover have "range_bytes m (of_nat DBUFF, ?sw) = read_mem m ?s (DBUFF - ?s)" using w s by (intro range_bytes_linear) simp_all
    moreover have "range_bytes m (?ew, 0) = read_mem m 0 ?e" using w by (intro range_bytes_linear) simp_all
    ultimately show ?thesis using lt by (simp add: flush_ranges_nat Let_def ring)
  qed
qed

lemma flush_ranges_full: "unat (h - t) = DBUFF \<Longrightarrow> flush_ranges h t = []"
  using dev_ring.head_position [of h t] by (simp add: flush_ranges_nat Let_def)

lemma same_but_file_refl: "same_but_file g g"
proof (cases "get_lun (device_lun g) g")
  case (Inr l)
  then show ?thesis
    unfolding same_but_file_def
    by (intro exI [of _ "filp l"] exI [of _ "file_end_offset g"]) (auto simp: set_lun_def get_lun_def split: option.splits if_splits)
qed (auto simp: same_but_file_def intro: exI [of _ "file_end_offset g"])

lemma same_but_file_trans: "same_but_file g h \<Longrightarrow> same_but_file h k \<Longrightarrow> same_but_file g k"
  unfolding same_but_file_def
  by (cases "get_lun (device_lun g) g") (auto simp: set_lun_def get_lun_def split: option.splits if_splits)

lemma same_but_file_frame:
  assumes "same_but_file g g'"
  shows "data_cbuff g' = data_cbuff g" "dev_mem g' = dev_mem g" "device_lun g' = device_lun g" "length (luns g') = length (luns g)"
    "map lun_name (luns g') = map lun_name (luns g)" "curlun g' = curlun g" "server_request_flag g' = server_request_flag g"
    "buffhds g' = buffhds g" "next_buffhd_to_fill g' = next_buffhd_to_fill g" "next_buffhd_to_drain g' = next_buffhd_to_drain g"
    "faststorage g' = faststorage g" "device_filp g' = device_filp g"
  using assms
  by (auto simp: same_but_file_def set_lun_def get_lun_def dev_mem_def map_update list_update_same_conv split: sum.splits option.splits if_splits)

lemma fs_writes_extend:
  assumes "stores_at data w" and "gadget_ready data g" and "\<forall>r \<in> set rs. range_fits r"
  shows "\<exists>g'. fs_writes w rs g = Inr g' \<and> gadget_ready data g' \<and> same_but_file g g' \<and> prefix (log_of data g) (log_of data g')
    \<and> (\<forall>lim. writes_upto lim w \<longrightarrow> length (log_of data g) + length (concat (map (range_bytes (dev_mem g)) rs)) \<le> lim
         \<longrightarrow> log_of data g' = log_of data g @ concat (map (range_bytes (dev_mem g)) rs))"
  using assms(2,3)
proof (induction rs arbitrary: g)
  case Nil
  then show ?case by (simp add: same_but_file_refl)
next
  case (Cons r rs)
  obtain e s where r: "r = (e, s)" by (cases r)
  let ?b = "range_bytes (dev_mem g) r" and ?bs = "concat (map (range_bytes (dev_mem g)) rs)"
  obtain len g1 k where 1: "fs_write_dev w e s g = Inr (len, g1)" "gadget_ready data g1" "same_but_file g g1"
      "log_of data g1 = log_of data g @ take k ?b"
      "\<forall>lim. writes_upto lim w \<longrightarrow> length (log_of data g) + length ?b \<le> lim \<longrightarrow> length ?b \<le> k"
    using fs_write_dev_extends [OF assms(1) "Cons.prems"(1), of e s] "Cons.prems"(2) r by auto
  have mem: "dev_mem g1 = dev_mem g" by (rule same_but_file_frame(2) [OF 1(3)])
  obtain g2 where 2: "fs_writes w rs g1 = Inr g2" "gadget_ready data g2" "same_but_file g1 g2" "prefix (log_of data g1) (log_of data g2)"
      "\<forall>lim. writes_upto lim w \<longrightarrow> length (log_of data g1) + length ?bs \<le> lim \<longrightarrow> log_of data g2 = log_of data g1 @ ?bs"
    using "Cons.IH" [OF 1(2)] "Cons.prems"(2) mem by auto
  have "prefix (log_of data g) (log_of data g2)" using 1(4) 2(4) by (metis prefix_order.trans prefixI)
  moreover have "log_of data g2 = log_of data g @ ?b @ ?bs" if "writes_upto lim w" "length (log_of data g) + length (?b @ ?bs) \<le> lim" for lim
  proof -
    have "length ?b \<le> k" using 1(5) that by auto
    then have "log_of data g1 = log_of data g @ ?b" using 1(4) by simp
    then show ?thesis using 2(5) that by auto
  qed
  ultimately show ?case using 1(1,3) 2(1,2,3) r by (auto intro: same_but_file_trans)
qed

text \<open>A turn moves the queue to the end of the log.\<close>

lemma log_backing_set_tail [simp]: "log_backing (set_tail t g) = log_backing g"
  by (rule log_backing_cong) (simp_all add: set_tail_def)

lemma log_of_set_tail [simp]: "log_of data (set_tail t g) = log_of data g"
  by (simp add: log_of_def)

lemma ready_set_tail [simp]: "gadget_ready data (set_tail t g) = gadget_ready data g"
  by (simp add: gadget_ready_def) (simp add: set_tail_def databuf_ok_def)

lemma flush_turn_extends:
  assumes "stores_at data w" and "gadget_ready data g"
  shows "\<exists>g'. flush_turn w g = Inr g' \<and> gadget_ready data g' \<and> prefix (log_of data g) (log_of data g')
    \<and> chead (data_cbuff g') = chead (data_cbuff g)
    \<and> (\<forall>lim. writes_upto lim w \<and> dev_used g < DBUFF \<and> length (log_of data g) + dev_used g \<le> lim
         \<longrightarrow> log_of data g' = log_of data g @ dev_pending g \<and> dev_used g' = 0)"
proof -
  let ?h = "chead (data_cbuff g)" and ?t = "ctail (data_cbuff g)"
  let ?rs = "flush_ranges ?h ?t"
  obtain g1 where g1: "fs_writes w ?rs g = Inr g1" "gadget_ready data g1" "same_but_file g g1" "prefix (log_of data g) (log_of data g1)"
      "\<forall>lim. writes_upto lim w \<longrightarrow> length (log_of data g) + length (concat (map (range_bytes (dev_mem g)) ?rs)) \<le> lim
         \<longrightarrow> log_of data g1 = log_of data g @ concat (map (range_bytes (dev_mem g)) ?rs)"
    using fs_writes_extend [OF assms, of ?rs] flush_ranges_fit by blast
  show ?thesis
  proof (cases "?rs = []")
    case True
    have "dev_used g = 0" if "dev_used g < DBUFF"
      using flush_ranges_bytes [of ?h ?t "dev_mem g"] that True
      by (simp add: dev_used_def) (metis length_0_conv length_ring_bytes)
    with True assms(2) show ?thesis by (auto simp: flush_turn_def dev_pending_def)
  next
    case False
    have "log_of data g1 = log_of data g @ dev_pending g" if "writes_upto lim w" "dev_used g < DBUFF"
        "length (log_of data g) + dev_used g \<le> lim" for lim
      using g1(5) that flush_ranges_bytes [of ?h ?t "dev_mem g"] by (auto simp: dev_pending_def dev_used_def)
    moreover have "dev_used (set_tail ?h g1) = 0" using same_but_file_frame(1) [OF g1(3)] by (simp add: dev_used_def set_tail_def)
    ultimately show ?thesis
      using g1 False same_but_file_frame(1) [OF g1(3)]
      by (intro exI [of _ "set_tail ?h g1"]) (simp add: flush_turn_def Let_def, auto simp: set_tail_def)
  qed
qed

lemma full_flush_turn: "dev_used g = DBUFF \<Longrightarrow> flush_turn w g = Inr g"
  by (simp add: flush_turn_def dev_used_def flush_ranges_full)

end
