(* ===== verification/GD_Write.thy ===== *)
theory GD_Write
  imports GD_Flush
begin

text \<open>
  \<open>hardlog-main.c\<close> of the gadget: \<open>do_hardlog_write\<close>, to which the SCSI writes on the first disk are
  redirected. The loop of the function queues transfer buffers and copies the received ones to the
  circular buffer. It is a program counter here, with a step for one turn of its loop, one for each
  look at the room of the buffer and one for the copy, so that the flusher and the USB controller may act in between.

  Parameters, from the mass-storage driver that is patched: the size of a transfer buffer, what
  \<open>set_bulk_out_req_length\<close> and \<open>start_out_transfer\<close> do to a buffer, the result of \<open>sleep_thread\<close>,
  whether a signal is pending.
\<close>

section \<open>Constants and parameters\<close>

definition EINTR :: int where "EINTR = 4"
definition EIO :: int where "EIO = 5"
definition EINVAL :: int where "EINVAL = 22"

definition WRITE_6 :: "8 word" where "WRITE_6 = 0x0a"
definition WRITE_10 :: "8 word" where "WRITE_10 = 0x2a"

record usb_ops =
  FSG_BUFLEN :: u32
  set_bulk_out_req_length :: "fsg_buffhd \<Rightarrow> u32 \<Rightarrow> fsg_buffhd"
  start_out_transfer :: "fsg_buffhd \<Rightarrow> fsg_buffhd option"

text \<open>Numbers of 24 and 32 bits in a command, the most significant byte first.\<close>

definition get_unaligned_be24 :: "8 word list \<Rightarrow> u32" where
  "get_unaligned_be24 p = of_nat (unat (p ! 0) * 2 ^ 16 + unat (p ! 1) * 2 ^ 8 + unat (p ! 2))"

definition get_unaligned_be32 :: "8 word list \<Rightarrow> u32" where
  "get_unaligned_be32 p = of_nat (unat (p ! 0) * 2 ^ 24 + unat (p ! 1) * 2 ^ 16 + unat (p ! 2) * 2 ^ 8 + unat (p ! 3))"

text \<open>\<open>round_down\<close> to a power of two.\<close>

unbundle bit_operations_syntax

definition round_down :: "u32 \<Rightarrow> u32 \<Rightarrow> u32" where
  "round_down x y = x AND NOT (y - 1)"

definition reserved_bits :: "8 word \<Rightarrow> 8 word" where
  "reserved_bits b = b AND NOT 0x18"

section \<open>The program counter\<close>

text \<open>The variables of the function that live across turns of its loop.\<close>

record write_locals =
  get_some_more :: bool
  usb_offset :: int
  file_offset :: int
  amount_left_to_req :: u32
  amount_left_to_write :: u32

text \<open>
  Between commands, with the last reply; at the head of the loop; waiting for room for the given
  number of bytes of the given transfer buffer; at the copy, with the head that \<open>make_space_in_cbuff\<close> returned.
\<close>

datatype writer_pc = WReply int
  | WLoop write_locals
  | WSpace write_locals nat u32
  | WCopy write_locals nat u32 u64

definition get_bh :: "nat \<Rightarrow> 'f gadget \<Rightarrow> fsg_buffhd res" where
  "get_bh i g = (if i < length (buffhds g) then Inr (buffhds g ! i) else Inl NullDeref)"

definition set_bh :: "nat \<Rightarrow> fsg_buffhd \<Rightarrow> 'f gadget \<Rightarrow> 'f gadget" where
  "set_bh i bh g = g\<lparr>buffhds := (buffhds g)[i := bh]\<rparr>"

text \<open>The transfer buffers are linked to a ring.\<close>

definition next_bh :: "nat \<Rightarrow> 'f gadget \<Rightarrow> nat" where
  "next_bh i g = (if Suc i < length (buffhds g) then Suc i else 0)"

definition sense :: "sense \<Rightarrow> 'f fsg_lun \<Rightarrow> 'f fsg_lun" where
  "sense d l = l\<lparr>sense_data := d\<rparr>"

definition sense_at :: "sense \<Rightarrow> int \<Rightarrow> 'f fsg_lun \<Rightarrow> 'f fsg_lun" where
  "sense_at d off l = l\<lparr>sense_data := d, sense_data_info := off div 2 ^ blkbits l, info_valid := True\<rparr>"

section \<open>The steps of \<open>do_hardlog_write\<close>\<close>

text \<open>Up to the loop: the checks of the command.\<close>

definition hardlog_write_start :: "'f gadget \<Rightarrow> (writer_pc \<times> 'f gadget) res" where
  "hardlog_write_start g =
     (if cbuffer (data_cbuff g) = None then Inr (WReply (- EINVAL), g)
      else rbind (get_lun (curlun g) g) (\<lambda>l.
        if ro l then Inr (WReply (- EINVAL), set_lun (curlun g) (sense SS_WRITE_PROTECTED l) g)
        else
          let six = (cmnd g ! 0 = WRITE_6);
              lba = (if six then get_unaligned_be24 (drop 1 (cmnd g)) else get_unaligned_be32 (drop 2 (cmnd g)))
          in if \<not> six \<and> reserved_bits (cmnd g ! 1) \<noteq> 0
             then Inr (WReply (- EINVAL), set_lun (curlun g) (sense SS_INVALID_FIELD_IN_CDB l) g)
          else if uint lba \<ge> num_sectors l
             then Inr (WReply (- EINVAL), set_lun (curlun g) (sense SS_LOGICAL_BLOCK_ADDRESS_OUT_OF_RANGE l) g)
          else Inr (WLoop \<lparr>get_some_more = True, usb_offset = uint lba * 2 ^ blkbits l, file_offset = uint lba * 2 ^ blkbits l,
                     amount_left_to_req = data_size_from_cmnd g, amount_left_to_write = data_size_from_cmnd g\<rparr>, g)))"

text \<open>A turn that asks the host for the next transfer.\<close>

definition queue_request :: "usb_ops \<Rightarrow> write_locals \<Rightarrow> fsg_buffhd \<Rightarrow> 'f gadget \<Rightarrow> (writer_pc \<times> 'f gadget) res" where
  "queue_request ops v bh g =
     rbind (get_lun (curlun g) g) (\<lambda>l.
       let amount = min (amount_left_to_req v) (FSG_BUFLEN ops) in
       if usb_offset v \<ge> file_length l
       then Inr (WLoop (v\<lparr>get_some_more := False\<rparr>),
              set_lun (curlun g) (sense_at SS_LOGICAL_BLOCK_ADDRESS_OUT_OF_RANGE (usb_offset v) l) g)
       else
         let left = amount_left_to_req v - amount;
             v' = v\<lparr>usb_offset := usb_offset v + uint amount, amount_left_to_req := left,
                    get_some_more := (get_some_more v \<and> left \<noteq> 0)\<rparr>;
             g' = g\<lparr>usb_amount_left := usb_amount_left g - amount\<rparr>;
             i = next_buffhd_to_fill g;
             bh' = set_bulk_out_req_length ops bh amount
         in case start_out_transfer ops bh' of
              None \<Rightarrow> Inr (WReply (- EIO), set_bh i bh' g')
            | Some bh'' \<Rightarrow> Inr (WLoop v', (set_bh i bh'' g')\<lparr>next_buffhd_to_fill := next_bh i g\<rparr>))"

text \<open>The label \<open>empty_write\<close>: a transfer shorter than asked for ends the command.\<close>

definition empty_write :: "write_locals \<Rightarrow> fsg_buffhd \<Rightarrow> 'f gadget \<Rightarrow> writer_pc \<times> 'f gadget" where
  "empty_write v bh g =
     (if outreq_actual bh < bulk_out_intended_length bh
      then (WReply (- EIO), g\<lparr>short_packet_received := True\<rparr>) else (WLoop v, g))"

text \<open>The number of bytes of a received transfer that are stored: whole blocks, within the disk.\<close>

definition clipped_amount :: "'f fsg_lun \<Rightarrow> write_locals \<Rightarrow> fsg_buffhd \<Rightarrow> u32" where
  "clipped_amount l v bh =
     (let room = file_length l - file_offset v;
          amount = (if room < uint (outreq_actual bh) then word_of_int room else outreq_actual bh)
      in round_down (min amount (bulk_out_intended_length bh)) (blksize l))"

text \<open>A turn that looks at the next transfer to store, or sleeps until something happens.\<close>

definition drain_buffer :: "int \<Rightarrow> write_locals \<Rightarrow> 'f gadget \<Rightarrow> (writer_pc \<times> 'f gadget) res" where
  "drain_buffer rc v g =
     (let i = next_buffhd_to_drain g in
      rbind (get_bh i g) (\<lambda>bh.
        if bh_state bh = BUF_STATE_EMPTY \<and> \<not> get_some_more v then Inr (WReply (- EIO), g)
        else if bh_state bh = BUF_STATE_FULL
        then
          let g1 = (set_bh i (bh\<lparr>bh_state := BUF_STATE_EMPTY\<rparr>) g)\<lparr>next_buffhd_to_drain := next_bh i g\<rparr> in
          rbind (get_lun (curlun g) g) (\<lambda>l.
            if outreq_status bh \<noteq> 0
            then Inr (WReply (- EIO), set_lun (curlun g) (sense_at SS_COMMUNICATION_FAILURE (file_offset v) l) g1)
            else if clipped_amount l v bh = 0 then Inr (empty_write v bh g1)
            else Inr (WSpace v i (clipped_amount l v bh), g1))
        else if rc \<noteq> 0 then Inr (WReply rc, g) else Inr (WLoop v, g)))"

definition write_turn :: "usb_ops \<Rightarrow> int \<Rightarrow> write_locals \<Rightarrow> 'f gadget \<Rightarrow> (writer_pc \<times> 'f gadget) res" where
  "write_turn ops rc v g =
     (if amount_left_to_write v = 0 then Inr (WReply (- EIO), g)
      else rbind (get_bh (next_buffhd_to_fill g) g) (\<lambda>bh.
        if bh_state bh = BUF_STATE_EMPTY \<and> get_some_more v then queue_request ops v bh g
        else drain_buffer rc v g))"

text \<open>One look at the room: none while the buffer is full, otherwise the head.\<close>

definition make_space_in_cbuff_dev :: "'f gadget \<Rightarrow> u64 option" where
  "make_space_in_cbuff_dev g =
     (if chead (data_cbuff g) - ctail (data_cbuff g) \<ge> of_nat HARDLOG_DATA_CBUFFSIZE then None
      else Some (chead (data_cbuff g)))"

text \<open>The copy, the new head, the pending signal, and the accounts of the command.\<close>

definition copy_data :: "bool \<Rightarrow> write_locals \<Rightarrow> nat \<Rightarrow> u32 \<Rightarrow> u64 \<Rightarrow> 'f gadget \<Rightarrow> (writer_pc \<times> 'f gadget) res" where
  "copy_data signal v i amount h g =
     rbind (get_bh i g) (\<lambda>bh.
     rbind (if unat amount \<le> length (bh_buf bh) then Inr (take (unat amount) (bh_buf bh)) else Inl OutOfBounds) (\<lambda>bs.
     case cbuffer (data_cbuff g) of None \<Rightarrow> Inl NullDeref
     | Some b \<Rightarrow>
         rbind (store b (uint (h mod of_nat HARDLOG_DATA_CBUFFSIZE)) bs) (\<lambda>b'.
         let g1 = g\<lparr>data_cbuff := (data_cbuff g)\<lparr>cbuffer := Some b', chead := chead (data_cbuff g) + ucast amount\<rparr>\<rparr> in
         if signal then Inr (WReply (- EINTR), g1)
         else Inr (empty_write (v\<lparr>file_offset := file_offset v + uint amount,
                                  amount_left_to_write := amount_left_to_write v - amount\<rparr>) bh
                (g1\<lparr>residue := residue g1 - amount\<rparr>)))))"

text \<open>
  A step of the gadget's thread, given what \<open>sleep_thread\<close> returns and whether a signal is pending.
  Between commands it does nothing.
\<close>

fun writer_step :: "usb_ops \<Rightarrow> int \<Rightarrow> bool \<Rightarrow> writer_pc \<Rightarrow> 'f gadget \<Rightarrow> (writer_pc \<times> 'f gadget) res" where
  "writer_step ops rc signal (WReply r) g = Inr (WReply r, g)"
| "writer_step ops rc signal (WLoop v) g = write_turn ops rc v g"
| "writer_step ops rc signal (WSpace v i amount) g =
     Inr (case make_space_in_cbuff_dev g of None \<Rightarrow> WSpace v i amount | Some h \<Rightarrow> WCopy v i amount h, g)"
| "writer_step ops rc signal (WCopy v i amount h) g = copy_data signal v i amount h g"

section \<open>Facts\<close>

text \<open>What a step of the writer leaves alone: the disks but for their sense data, the tail, the handles.\<close>

definition lun_core :: "'f fsg_lun \<Rightarrow> string \<times> 'f backing_file kptr \<times> bool \<times> int \<times> int \<times> nat \<times> u32" where
  "lun_core l = (lun_name l, filp l, ro l, file_length l, num_sectors l, blkbits l, blksize l)"

definition writer_frame :: "'f gadget \<Rightarrow> 'f gadget \<Rightarrow> bool" where
  "writer_frame g g' \<longleftrightarrow> map lun_core (luns g') = map lun_core (luns g) \<and> device_lun g' = device_lun g \<and> device_filp g' = device_filp g
     \<and> curlun g' = curlun g \<and> cmnd g' = cmnd g \<and> faststorage g' = faststorage g \<and> file_start_offset g' = file_start_offset g
     \<and> file_end_offset g' = file_end_offset g \<and> server_request_flag g' = server_request_flag g
     \<and> ctail (data_cbuff g') = ctail (data_cbuff g) \<and> databuf_ok g' = databuf_ok g"

lemma writer_frame_refl [simp]: "writer_frame g g"
  by (simp add: writer_frame_def)

lemma writer_frame_trans: "writer_frame g h \<Longrightarrow> writer_frame h k \<Longrightarrow> writer_frame g k"
  by (simp add: writer_frame_def)

lemma lun_core_filp: "lun_core l = lun_core l' \<Longrightarrow> filp l = filp l' \<and> lun_name l = lun_name l'"
  by (simp add: lun_core_def)

lemma cores_nth:
  assumes "map lun_core ls' = map lun_core ls"
  shows "length ls' = length ls" "i < length ls \<Longrightarrow> lun_core (ls' ! i) = lun_core (ls ! i)"
  using assms by (auto dest: map_eq_imp_length_eq) (metis length_map nth_map)

lemma writer_frame_log:
  assumes "writer_frame g g'"
  shows "log_backing g' = log_backing g" "gadget_ready data g' = gadget_ready data g" "log_of data g' = log_of data g"
proof -
  have c: "map lun_core (luns g') = map lun_core (luns g)" "device_lun g' = device_lun g" using assms by (simp_all add: writer_frame_def)
  show l: "log_backing g' = log_backing g"
    using cores_nth(1) [OF c(1)] lun_core_filp [OF cores_nth(2) [OF c(1)]] c(2)
    by (simp add: log_backing_def get_lun_def split: option.splits)
  show "gadget_ready data g' = gadget_ready data g" "log_of data g' = log_of data g"
    using assms by (auto simp: gadget_ready_def log_of_def l writer_frame_def)
qed

lemma set_lun_frame [intro]:
  assumes "get_lun p g = Inr l" and "lun_core l' = lun_core l"
  shows "writer_frame g (set_lun p l' g)"
  using assms by (auto simp: writer_frame_def get_lun_Inr set_lun_def map_update databuf_ok_def list_update_same_conv)

lemma sense_core [simp]: "lun_core (sense d l) = lun_core l" "lun_core (sense_at d off l) = lun_core l"
  by (simp_all add: sense_def sense_at_def lun_core_def)

lemma hardlog_write_start_frame: "hardlog_write_start g = Inr (pc, g') \<Longrightarrow> writer_frame g g'"
  by (auto simp: hardlog_write_start_def Let_def split: if_splits intro!: set_lun_frame)

text \<open>Fields of the transfer are outside the frame.\<close>

lemma transfer_frame:
  "writer_frame g (set_bh i bh h) = writer_frame g h"
  "writer_frame g (h\<lparr>next_buffhd_to_fill := n\<rparr>) = writer_frame g h"
  "writer_frame g (h\<lparr>next_buffhd_to_drain := n\<rparr>) = writer_frame g h"
  "writer_frame g (h\<lparr>usb_amount_left := u\<rparr>) = writer_frame g h"
  "writer_frame g (h\<lparr>residue := u\<rparr>) = writer_frame g h"
  "writer_frame g (h\<lparr>short_packet_received := b\<rparr>) = writer_frame g h"
  by (simp_all add: writer_frame_def set_bh_def databuf_ok_def)

lemma queue_request_frame: "queue_request ops v bh g = Inr (pc, g') \<Longrightarrow> writer_frame g g'"
  by (auto simp: queue_request_def Let_def transfer_frame split: if_splits option.splits intro!: set_lun_frame)

lemma empty_write_frame: "empty_write v bh g = (pc, g') \<Longrightarrow> writer_frame g g'"
  by (auto simp: empty_write_def transfer_frame split: if_splits)

lemma drain_buffer_frame: "drain_buffer rc v g = Inr (pc, g') \<Longrightarrow> writer_frame g g'"
proof -
  assume "drain_buffer rc v g = Inr (pc, g')"
  moreover have "writer_frame g (set_lun (curlun g) (sense_at d off l) ((set_bh i bh g)\<lparr>next_buffhd_to_drain := n\<rparr>))"
    if "get_lun (curlun g) g = Inr l" for d off l i bh n
    by (rule writer_frame_trans [of _ "(set_bh i bh g)\<lparr>next_buffhd_to_drain := n\<rparr>"], simp add: transfer_frame, rule set_lun_frame)
       (use that in \<open>simp_all add: get_lun_def set_bh_def split: option.splits\<close>)
  ultimately show ?thesis
    by (auto simp: drain_buffer_def Let_def empty_write_def transfer_frame split: if_splits)
qed

lemma write_turn_frame: "write_turn ops rc v g = Inr (pc, g') \<Longrightarrow> writer_frame g g'"
  by (auto simp: write_turn_def dest: queue_request_frame drain_buffer_frame split: if_splits)

lemma copy_data_frame:
  assumes "copy_data signal v i amount h g = Inr (pc, g')"
  shows "writer_frame g g'"
proof -
  have "writer_frame g (g\<lparr>data_cbuff := (data_cbuff g)\<lparr>cbuffer := Some b', chead := hd'\<rparr>\<rparr>)"
    if "cbuffer (data_cbuff g) = Some b" "store b off bs = Inr b'" for b b' off bs hd'
    using that store_frame [of b off bs b'] by (simp add: writer_frame_def databuf_ok_def)
  then show ?thesis
    using assms by (auto simp: copy_data_def Let_def empty_write_def transfer_frame split: if_splits option.splits)
qed

lemma writer_step_frame: "writer_step ops rc signal pc g = Inr (pc', g') \<Longrightarrow> writer_frame g g'"
  by (cases pc) (auto dest: write_turn_frame copy_data_frame split: option.splits)

end
