(* ===== verification/GD_Gadget.thy ===== *)
theory GD_Gadget
  imports GD_Write DL_Decode HL_Ioctl
begin

text \<open>
  The gadget as a whole: the dispatch of SCSI writes (\<open>f_mass_storage.c\<close> as patched), the character
  device that the library of \<open>DL_Decode\<close> polls (\<open>hardlog-ioctl.c\<close>), set-up and teardown
  (\<open>hardlog-main.c\<close>), and the machine in which the gadget's thread, the flusher, the USB controller
  and the library's calls interleave.

  Parameters besides those of \<open>GD_Write\<close>: the write function of the unpatched driver, \<open>vfs_write\<close>,
  what \<open>vfs_stat\<close>, \<open>vmalloc\<close> and the creation of the thread return. What the USB
  controller does to the transfer buffers is arbitrary.
\<close>

section \<open>Dispatch\<close>

text \<open>
  The original \<open>do_write\<close>: the reply of an early return, or none when it reaches its end, where the
  patch notes a request of the administrator.
\<close>

record 'f kernel =
  usb_ops_of :: usb_ops
  vfs_write :: "'f kwrite"
  do_write_orig :: "'f gadget \<Rightarrow> int option \<times> 'f gadget"

definition do_write :: "'f kernel \<Rightarrow> 'f gadget \<Rightarrow> (int \<times> 'f gadget) res" where
  "do_write k g =
     (case do_write_orig k g of
        (Some rc, g') \<Rightarrow> Inr (rc, g')
      | (None, g') \<Rightarrow> rbind (get_lun (curlun g') g') (\<lambda>l.
          Inr (- EIO, if lun_name l = ''lun1'' then g'\<lparr>server_request_flag := True\<rparr> else g')))"

text \<open>
  A WRITE command: \<open>checked\<close> is the reply of the driver's \<open>check_command\<close>. The name of the addressed
  disk is looked at before that reply.
\<close>

definition scsi_write :: "'f kernel \<Rightarrow> int \<Rightarrow> 'f gadget \<Rightarrow> (writer_pc \<times> 'f gadget) res" where
  "scsi_write k checked g =
     rbind (get_lun (curlun g) g) (\<lambda>l.
       let logdata = (lun_name l = ''lun0'') in
       if checked = 0
       then (if faststorage g \<and> logdata then hardlog_write_start g
             else rbind (do_write k g) (\<lambda>(rc, g'). Inr (WReply rc, g')))
       else Inr (WReply checked, g))"

section \<open>The character device\<close>

datatype gadget_cmd = DELETELOG | REQUEST | OtherGadgetCommand

text \<open>The first half of a REQUEST: the answer as it is copied out; the second half clears the flag.\<close>

definition request_answer :: "'f gadget \<Rightarrow> hardlog_ioctl_request" where
  "request_answer g = \<lparr>server_request = server_request_flag g,
     req_start_offset = file_start_offset g, req_end_offset = file_end_offset g\<rparr>"

definition request_clear :: "'f gadget \<Rightarrow> 'f gadget" where
  "request_clear g = (if server_request_flag g then g\<lparr>server_request_flag := False\<rparr> else g)"

text \<open>The whole call: \<open>copied\<close> says whether \<open>copy_to_user\<close> succeeds.\<close>

definition hardlog_ioctl_dev :: "bool \<Rightarrow> gadget_cmd \<Rightarrow> 'f gadget \<Rightarrow> int \<times> hardlog_ioctl_request option \<times> 'f gadget" where
  "hardlog_ioctl_dev copied cmd g =
     (case cmd of
        REQUEST \<Rightarrow> if copied then (0, Some (request_answer g), request_clear g) else (- 1, None, g)
      | _ \<Rightarrow> (0, None, g))"

section \<open>Set-up and teardown\<close>

record gadget_env =
  vfs_stat :: int
  gvmalloc :: "nat \<Rightarrow> block option"
  kthread_run :: "unit kptr"
  chr_env :: chrdev_env

text \<open>The trim buffer is never allocated.\<close>

record 'f gadget_module =
  shared :: "'f gadget"
  hardlog_flushd_task :: "unit kptr"
  trim_buffer :: "block option"
  ioctl_on :: bool
  gchrdev :: chrdev

definition hardlog_flush_setup :: "gadget_env \<Rightarrow> 'f gadget_module \<Rightarrow> bool \<times> 'f gadget_module" where
  "hardlog_flush_setup e m = (\<not> is_err (kthread_run e), m\<lparr>hardlog_flushd_task := kthread_run e\<rparr>)"

text \<open>\<open>kthread_stop\<close> follows the pointer to the thread.\<close>

definition hardlog_flush_teardown :: "'f gadget_module \<Rightarrow> 'f gadget_module res" where
  "hardlog_flush_teardown m = rbind (deref (hardlog_flushd_task m)) (\<lambda>_. Inr m)"

definition hardlog_ioctl_teardown_dev :: "chrdev \<Rightarrow> chrdev res" where
  "hardlog_ioctl_teardown_dev c =
     rbind (if \<not> is_null (hardlog_class c)
            then rbind (deref (hardlog_class c)) (\<lambda>_.
                 if class_live c then Inr (c\<lparr>node := False, class_live := False\<rparr>) else Inl UseAfterFree)
            else Inr c) (\<lambda>c1. Inr (c1\<lparr>hardlog_cdev := False, region := False\<rparr>))"

definition free_opt :: "block option \<Rightarrow> block option res" where
  "free_opt p = (case p of None \<Rightarrow> Inr None | Some b \<Rightarrow> rbind (free_block b) (\<lambda>b'. Inr (Some b')))"

definition hardlog_teardown :: "'f gadget_module \<Rightarrow> 'f gadget_module res" where
  "hardlog_teardown m0 =
     rbind (hardlog_flush_teardown m0) (\<lambda>m.
     rbind (free_opt (cbuffer (data_cbuff (shared m)))) (\<lambda>b.
     rbind (free_opt (trim_buffer m)) (\<lambda>t.
     let m1 = m\<lparr>shared := (shared m)\<lparr>data_cbuff := (data_cbuff (shared m))\<lparr>cbuffer := b\<rparr>\<rparr>, trim_buffer := t\<rparr> in
     if ioctl_on m1 then rbind (hardlog_ioctl_teardown_dev (gchrdev m1)) (\<lambda>c. Inr (m1\<lparr>gchrdev := c\<rparr>)) else Inr m1)))"

text \<open>The file is the one that the driver has opened for the disk \<open>i\<close>.\<close>

definition hardlog_setup :: "gadget_env \<Rightarrow> string \<Rightarrow> nat \<Rightarrow> 'f gadget_module \<Rightarrow> (bool \<times> 'f gadget_module) res" where
  "hardlog_setup e filename i m =
     rbind (get_lun (Some i) (shared m)) (\<lambda>l.
     if filename = [] then Inr (False, m)
     else if is_null (filp l) then Inr (False, m)
     else
       let fp = (case filp l of NullPtr \<Rightarrow> NullPtr | ErrPtr x \<Rightarrow> ErrPtr x | Ptr _ \<Rightarrow> Ptr ());
           g1 = (shared m)\<lparr>device_filp := fp, device_lun := Some i\<rparr>
       in if vfs_stat e = 0 then Inr (False, m\<lparr>shared := g1\<rparr>)
       else
         let g2 = g1\<lparr>data_cbuff := (data_cbuff g1)\<lparr>cbuffer := gvmalloc e (HARDLOG_DATA_CBUFFSIZE + DATA_SLACK)\<rparr>\<rparr> in
         if cbuffer (data_cbuff g2) = None then Inr (False, m\<lparr>shared := g2\<rparr>)
         else
           let g3 = g2\<lparr>data_cbuff := (data_cbuff g2)\<lparr>chead := 0, ctail := 0\<rparr>\<rparr> in
           case hardlog_flush_setup e (m\<lparr>shared := g3\<rparr>) of (started, m1) \<Rightarrow>
             if \<not> started then rbind (hardlog_teardown m1) (\<lambda>m2. Inr (False, m2))
             else if ioctl_on m1
             then rbind (hardlog_ioctl_init (chr_env e) (gchrdev m1)) (\<lambda>(_, c). Inr (True, m1\<lparr>gchrdev := c\<rparr>))
             else Inr (True, m1))"

section \<open>The machine\<close>

text \<open>
  The library's call is between its two halves, or not running. \<open>taken\<close> is a record of every byte
  that was copied to the buffer, kept for the theorems only.
\<close>

datatype request_pc = RIdle | RCopied

record 'f device =
  gad :: "'f gadget"
  flushd :: flush_pc
  writer :: writer_pc
  caller :: request_pc
  answers :: "hardlog_ioctl_request list"
  taken :: "char list"

text \<open>
  What can happen next: the host sends a WRITE command (the bytes of the command, the size of its
  data, the disk that it addresses, the reply of \<open>check_command\<close>); a step of the gadget's thread
  (what \<open>sleep_thread\<close> returns, whether a signal is pending); a step of the flusher; the USB controller
  leaves the transfer buffers in some state (the accounts of a transfer, which the driver also resets, are
  only written by the modelled code); a step of the library's REQUEST (whether the answer can be copied out).
\<close>

datatype event = Command "8 word list" u32 "nat option" int
  | Writer int bool
  | Flusher
  | Usb "fsg_buffhd list"
  | Request bool

definition copied_bytes :: "writer_pc \<Rightarrow> 'f gadget \<Rightarrow> char list" where
  "copied_bytes pc g = (case pc of WCopy v i amount h \<Rightarrow>
     if i < length (buffhds g) then take (unat amount) (bh_buf (buffhds g ! i)) else [] | _ \<Rightarrow> [])"

fun device_step :: "'f kernel \<Rightarrow> event \<Rightarrow> 'f device \<Rightarrow> 'f device res" where
  "device_step k (Command cdb n cur checked) d =
     (case writer d of
        WReply _ \<Rightarrow>
          rbind (scsi_write k checked ((gad d)\<lparr>cmnd := cdb, data_size_from_cmnd := n, curlun := cur\<rparr>)) (\<lambda>(pc, g).
          Inr (d\<lparr>gad := g, writer := pc\<rparr>))
      | _ \<Rightarrow> Inr d)"
| "device_step k (Writer rc signal) d =
     rbind (writer_step (usb_ops_of k) rc signal (writer d) (gad d)) (\<lambda>(pc, g).
       Inr (d\<lparr>gad := g, writer := pc, taken := taken d @ copied_bytes (writer d) (gad d)\<rparr>))"
| "device_step k Flusher d =
     rbind (flush_step (vfs_write k) (flushd d) (gad d)) (\<lambda>(pc, g). Inr (d\<lparr>gad := g, flushd := pc\<rparr>))"
| "device_step k (Usb bhs) d = Inr (d\<lparr>gad := (gad d)\<lparr>buffhds := bhs\<rparr>\<rparr>)"
| "device_step k (Request copied) d =
     Inr (case caller d of
        RIdle \<Rightarrow> if copied then d\<lparr>caller := RCopied, answers := answers d @ [request_answer (gad d)]\<rparr> else d
      | RCopied \<Rightarrow> d\<lparr>caller := RIdle, gad := request_clear (gad d)\<rparr>)"

fun device_run :: "'f kernel \<Rightarrow> event list \<Rightarrow> 'f device \<Rightarrow> 'f device res" where
  "device_run k [] d = Inr d"
| "device_run k (e # es) d = rbind (device_step k e d) (device_run k es)"

section \<open>What is relied on\<close>

text \<open>The log's disk is the one named \<open>lun0\<close>.\<close>

definition log_disk_named :: "'f gadget \<Rightarrow> bool" where
  "log_disk_named g \<longleftrightarrow> (\<forall>i < length (luns g). lun_name (luns g ! i) = ''lun0'' \<longleftrightarrow> device_lun g = Some i)"

text \<open>The driver's own write leaves the disks alone that the command does not address.\<close>

definition log_frame :: "'f gadget \<Rightarrow> 'f gadget \<Rightarrow> bool" where
  "log_frame g g' \<longleftrightarrow> device_lun g' = device_lun g \<and> device_filp g' = device_filp g \<and> data_cbuff g' = data_cbuff g
     \<and> faststorage g' = faststorage g \<and> curlun g' = curlun g \<and> map lun_name (luns g') = map lun_name (luns g)
     \<and> (\<forall>i < length (luns g). device_lun g = Some i \<longrightarrow> luns g' ! i = luns g ! i)"

definition writes_own_disk :: "'f kernel \<Rightarrow> bool" where
  "writes_own_disk k \<longleftrightarrow> (\<forall>g. curlun g \<noteq> device_lun g \<longrightarrow> log_frame g (snd (do_write_orig k g)))"

definition flush_pc_ok :: "flush_pc \<Rightarrow> bool" where
  "flush_pc_ok pc = (case pc of FIdle \<Rightarrow> True | FWriting re rs \<Rightarrow> list_all range_fits rs)"

definition device_ok :: "('f \<Rightarrow> char list) \<Rightarrow> 'f device \<Rightarrow> bool" where
  "device_ok data d \<longleftrightarrow> gadget_ready data (gad d) \<and> faststorage (gad d) \<and> log_disk_named (gad d) \<and> flush_pc_ok (flushd d)"

section \<open>Facts\<close>

lemma log_frame_refl: "log_frame g g"
  by (simp add: log_frame_def)

lemma names_length: "map lun_name ls' = map lun_name ls \<Longrightarrow> length ls' = length ls"
  by (rule map_eq_imp_length_eq)

lemma log_disk_named_cong:
  assumes "log_disk_named g" and "map lun_name (luns g') = map lun_name (luns g)" and "device_lun g' = device_lun g"
  shows "log_disk_named g'"
  using assms names_length [OF assms(2)] unfolding log_disk_named_def by (metis length_map nth_map)

lemma log_frame_log:
  assumes "log_frame g g'"
  shows "log_backing g' = log_backing g" "gadget_ready data g' = gadget_ready data g" "log_of data g' = log_of data g"
proof -
  have n: "map lun_name (luns g') = map lun_name (luns g)" using assms by (simp add: log_frame_def)
  show l: "log_backing g' = log_backing g"
    using assms names_length [OF n] by (auto simp: log_backing_def get_lun_def log_frame_def split: option.splits)
  show "gadget_ready data g' = gadget_ready data g" "log_of data g' = log_of data g"
    using assms by (auto simp: gadget_ready_def log_of_def l log_frame_def databuf_ok_def)
qed

lemma writer_frame_named: "writer_frame g g' \<Longrightarrow> log_disk_named g \<Longrightarrow> log_disk_named g'"
proof -
  assume f: "writer_frame g g'" and n: "log_disk_named g"
  from f have c: "map lun_core (luns g') = map lun_core (luns g)" by (simp add: writer_frame_def)
  have "map lun_name (luns g') = map (fst \<circ> lun_core) (luns g')" by (simp add: lun_core_def)
  also have "\<dots> = map (fst \<circ> lun_core) (luns g)" using c by (metis map_map)
  also have "\<dots> = map lun_name (luns g)" by (simp add: lun_core_def)
  finally show ?thesis using n f by (auto intro: log_disk_named_cong simp: writer_frame_def)
qed

lemma log_frame_flag [simp]: "log_frame g (h\<lparr>server_request_flag := b\<rparr>) = log_frame g h"
  by (simp add: log_frame_def)

text \<open>The two ways a write command can go.\<close>

lemma scsi_write_frame:
  assumes "scsi_write k checked g = Inr (pc, g')" and "faststorage g" and "log_disk_named g" and "writes_own_disk k"
  shows "writer_frame g g' \<or> log_frame g g'"
proof -
  obtain l where l: "get_lun (curlun g) g = Inr l" using assms(1) by (auto simp: scsi_write_def)
  show ?thesis
  proof (cases "checked = 0 \<and> lun_name l \<noteq> ''lun0''")
    case True
    then have "curlun g \<noteq> device_lun g" using l assms(3) by (auto simp: get_lun_Inr log_disk_named_def)
    then have "log_frame g (snd (do_write_orig k g))" using assms(4) by (simp add: writes_own_disk_def)
    then show ?thesis
      using assms(1) True l by (auto simp: scsi_write_def do_write_def split: prod.splits option.splits)
  next
    case False
    then show ?thesis
      using assms(1,2) l by (auto simp: scsi_write_def Let_def dest: hardlog_write_start_frame split: if_splits)
  qed
qed

lemma command_fields:
  "gadget_ready data (g\<lparr>cmnd := cdb, data_size_from_cmnd := n, curlun := cur\<rparr>) = gadget_ready data g"
  "log_of data (g\<lparr>cmnd := cdb, data_size_from_cmnd := n, curlun := cur\<rparr>) = log_of data g"
  "log_disk_named (g\<lparr>cmnd := cdb, data_size_from_cmnd := n, curlun := cur\<rparr>) = log_disk_named g"
proof -
  let ?g = "g\<lparr>cmnd := cdb, data_size_from_cmnd := n, curlun := cur\<rparr>"
  have l: "log_backing ?g = log_backing g" by (rule log_backing_cong) simp_all
  show "gadget_ready data ?g = gadget_ready data g" by (simp add: gadget_ready_def l) (simp add: databuf_ok_def)
  show "log_of data ?g = log_of data g" by (simp add: log_of_def l)
  show "log_disk_named ?g = log_disk_named g" by (simp add: log_disk_named_def)
qed

lemma flag_fields [simp]:
  "gadget_ready data (g\<lparr>server_request_flag := b\<rparr>) = gadget_ready data g"
  "log_of data (g\<lparr>server_request_flag := b\<rparr>) = log_of data g"
  "log_disk_named (g\<lparr>server_request_flag := b\<rparr>) = log_disk_named g"
proof -
  let ?g = "g\<lparr>server_request_flag := b\<rparr>"
  have l: "log_backing ?g = log_backing g" by (rule log_backing_cong) simp_all
  show "gadget_ready data ?g = gadget_ready data g" by (simp add: gadget_ready_def l) (simp add: databuf_ok_def)
  show "log_of data ?g = log_of data g" by (simp add: log_of_def l)
  show "log_disk_named ?g = log_disk_named g" by (simp add: log_disk_named_def)
qed

lemma bufs_fields [simp]:
  "gadget_ready data (g\<lparr>buffhds := bhs\<rparr>) = gadget_ready data g"
  "log_of data (g\<lparr>buffhds := bhs\<rparr>) = log_of data g"
  "log_disk_named (g\<lparr>buffhds := bhs\<rparr>) = log_disk_named g"
proof -
  let ?g = "g\<lparr>buffhds := bhs\<rparr>"
  have l: "log_backing ?g = log_backing g" by (rule log_backing_cong) simp_all
  show "gadget_ready data ?g = gadget_ready data g" by (simp add: gadget_ready_def l) (simp add: databuf_ok_def)
  show "log_of data ?g = log_of data g" by (simp add: log_of_def l)
  show "log_disk_named ?g = log_disk_named g" by (simp add: log_disk_named_def)
qed

lemma set_tail_named [simp]: "log_disk_named (set_tail t g) = log_disk_named g"
  by (simp add: log_disk_named_def set_tail_def)

text \<open>A step of the flusher extends the log, keeping everything else that matters.\<close>

lemma flush_step_extends:
  assumes "stores_at data (vfs_write k)" and "gadget_ready data g" and "flush_pc_ok pc"
  shows "\<exists>pc' g'. flush_step (vfs_write k) pc g = Inr (pc', g') \<and> gadget_ready data g' \<and> flush_pc_ok pc'
    \<and> faststorage g' = faststorage g \<and> (log_disk_named g \<longrightarrow> log_disk_named g') \<and> prefix (log_of data g) (log_of data g')"
proof (cases pc)
  case FIdle
  then show ?thesis
    using assms(2) flush_ranges_fit by (auto simp: flush_pc_ok_def list_all_iff Let_def)
next
  case (FWriting re rs)
  show ?thesis
  proof (cases rs)
    case Nil
    then show ?thesis using FWriting assms(2) by (simp add: flush_pc_ok_def) (simp add: set_tail_def)
  next
    case (Cons r rs')
    obtain e s where r: "r = (e, s)" by (cases r)
    with Cons FWriting assms(3) have fit: "range_fits (e, s)" "list_all range_fits rs'" by (simp_all add: flush_pc_ok_def)
    obtain len g' n where g': "fs_write_dev (vfs_write k) e s g = Inr (len, g')" "gadget_ready data g'" "same_but_file g g'"
        "log_of data g' = log_of data g @ take n (range_bytes (dev_mem g) (e, s))"
      using fs_write_dev_extends [OF assms(1,2) fit(1)] by blast
    then show ?thesis
      using FWriting Cons r fit(2) same_but_file_frame [OF g'(3)] log_disk_named_cong [of g g']
      by (simp add: flush_pc_ok_def)
  qed
qed

lemma device_step_extends:
  assumes "stores_at data (vfs_write k)" and "writes_own_disk k" and "device_ok data d" and "device_step k e d = Inr d'"
  shows "device_ok data d' \<and> prefix (log_of data (gad d)) (log_of data (gad d'))"
proof (cases e)
  case (Command cdb n cur checked)
  let ?g = "(gad d)\<lparr>cmnd := cdb, data_size_from_cmnd := n, curlun := cur\<rparr>"
  show ?thesis
  proof (cases "\<exists>r. writer d = WReply r")
    case True
    then obtain pc g where g: "scsi_write k checked ?g = Inr (pc, g)" "d' = d\<lparr>gad := g, writer := pc\<rparr>"
      using assms(4) Command by auto
    have ok: "faststorage ?g" "log_disk_named ?g" "gadget_ready data ?g"
      using assms(3) by (simp_all add: device_ok_def command_fields)
    from scsi_write_frame [OF g(1) ok(1,2) assms(2)]
    have "gadget_ready data g \<and> faststorage g \<and> log_disk_named g \<and> log_of data g = log_of data ?g"
    proof
      assume f: "writer_frame ?g g"
      then show ?thesis using ok writer_frame_log [OF f] writer_frame_named [OF f] by (simp add: writer_frame_def)
    next
      assume f: "log_frame ?g g"
      then show ?thesis using ok log_frame_log [OF f] log_disk_named_cong [OF ok(2), of g] by (simp add: log_frame_def)
    qed
    then show ?thesis using assms(3) g(2) by (simp add: device_ok_def command_fields)
  next
    case False
    then have "d' = d" using assms(4) Command by (cases "writer d") auto
    then show ?thesis using assms(3) by simp
  qed
next
  case (Writer rc signal)
  then obtain pc g where g: "writer_step (usb_ops_of k) rc signal (writer d) (gad d) = Inr (pc, g)"
      "d' = d\<lparr>gad := g, writer := pc, taken := taken d @ copied_bytes (writer d) (gad d)\<rparr>"
    using assms(4) by auto
  note f = writer_step_frame [OF g(1)]
  show ?thesis
    using assms(3) g(2) writer_frame_log [OF f] writer_frame_named [OF f] f by (simp add: device_ok_def writer_frame_def)
next
  case Flusher
  then show ?thesis
    using assms(3,4) flush_step_extends [OF assms(1), of "gad d" "flushd d"] by (auto simp: device_ok_def)
next
  case (Usb bhs)
  then show ?thesis using assms(3,4) by (auto simp: device_ok_def)
next
  case (Request copied)
  then show ?thesis
    using assms(3,4) by (auto simp: device_ok_def request_clear_def split: request_pc.splits if_splits)
qed

lemma device_run_extends:
  assumes "stores_at data (vfs_write k)" and "writes_own_disk k" and "device_ok data d" and "device_run k es d = Inr d'"
  shows "device_ok data d' \<and> prefix (log_of data (gad d)) (log_of data (gad d'))"
  using assms(3,4)
proof (induction es arbitrary: d)
  case (Cons e es)
  then obtain d1 where d1: "device_step k e d = Inr d1" "device_run k es d1 = Inr d'" by auto
  with device_step_extends [OF assms(1,2) "Cons.prems"(1)] "Cons.IH" show ?case by (metis prefix_order.trans)
qed simp

section \<open>The stream of bytes\<close>

text \<open>Only the copy touches the circular buffer.\<close>

lemma hardlog_write_start_cbuff:
  "hardlog_write_start g = Inr (pc, g') \<Longrightarrow> data_cbuff g' = data_cbuff g \<and> (\<forall>v i a h. pc \<noteq> WCopy v i a h)"
  by (auto simp: hardlog_write_start_def Let_def split: if_splits)

lemma empty_write_cbuff:
  "empty_write v bh g = (pc, g') \<Longrightarrow> data_cbuff g' = data_cbuff g \<and> (\<forall>v i a h. pc \<noteq> WCopy v i a h)"
  by (auto simp: empty_write_def split: if_splits)

lemma write_turn_cbuff:
  assumes "write_turn ops rc v g = Inr (pc, g')"
  shows "data_cbuff g' = data_cbuff g \<and> (\<forall>v i a h. pc \<noteq> WCopy v i a h)"
  using assms
  by (auto simp: write_turn_def queue_request_def drain_buffer_def Let_def set_bh_def
      split: if_splits option.splits dest: empty_write_cbuff)

lemma copy_data_effect:
  assumes "copy_data signal v i amount h g = Inr (pc, g')"
  defines "bs \<equiv> copied_bytes (WCopy v i amount h) g"
  shows "length bs = unat amount" "dev_mem g' = write_mem (dev_mem g) (unat h mod DBUFF) bs"
    "chead (data_cbuff g') = chead (data_cbuff g) + of_nat (length bs)" "ctail (data_cbuff g') = ctail (data_cbuff g)"
    "\<forall>v i a h. pc \<noteq> WCopy v i a h"
proof -
  from assms(1) obtain b b' where b: "i < length (buffhds g)" "unat amount \<le> length (bh_buf (buffhds g ! i))"
      "cbuffer (data_cbuff g) = Some b" "store b (uint (h mod of_nat DBUFF)) bs = Inr b'"
    by (auto simp: copy_data_def get_bh_def bs_def copied_bytes_def split: if_splits option.splits)
  show l: "length bs = unat amount" using b(1,2) by (simp add: bs_def copied_bytes_def)
  have "cells b' = write_mem (cells b) (unat (h mod of_nat DBUFF)) bs"
    using b(4) by (auto simp: store_def split: if_splits)
  then have c: "cells b' = write_mem (cells b) (unat h mod DBUFF) bs" by (simp only: dev_ring.unat_mod_cap)
  have g: "data_cbuff g' = (data_cbuff g)\<lparr>cbuffer := Some b', chead := chead (data_cbuff g) + ucast amount\<rparr> \<and> (\<forall>v i a h. pc \<noteq> WCopy v i a h)"
    using assms(1) b by (auto simp: copy_data_def get_bh_def bs_def copied_bytes_def Let_def split: if_splits dest: empty_write_cbuff)
  then show "dev_mem g' = write_mem (dev_mem g) (unat h mod DBUFF) bs" "ctail (data_cbuff g') = ctail (data_cbuff g)"
    "\<forall>v i a h. pc \<noteq> WCopy v i a h" "chead (data_cbuff g') = chead (data_cbuff g) + of_nat (length bs)"
    using b(3) c l by (simp_all add: dev_mem_def)
qed

lemma copied_bytes_Nil [simp]: "(\<forall>v i a h. pc \<noteq> WCopy v i a h) \<Longrightarrow> copied_bytes pc g = []"
  by (cases pc) (auto simp: copied_bytes_def)

text \<open>At the copy, the head is the one that was returned, and there still is room.\<close>

definition head_seen :: "writer_pc \<Rightarrow> 'f gadget \<Rightarrow> bool" where
  "head_seen pc g = (case pc of WCopy v i a h \<Rightarrow> h = chead (data_cbuff g) \<and> dev_used g < DBUFF | _ \<Rightarrow> True)"

lemma head_seen_cong: "head_seen pc g \<Longrightarrow> chead (data_cbuff g') = chead (data_cbuff g) \<Longrightarrow> dev_used g' \<le> dev_used g \<Longrightarrow> head_seen pc g'"
  by (simp add: head_seen_def split: writer_pc.splits)

lemma writer_step_other:
  assumes "writer_step ops rc signal pc g = Inr (pc', g')" and "\<forall>v i a h. pc \<noteq> WCopy v i a h"
  shows "data_cbuff g' = data_cbuff g" "head_seen pc' g'"
proof -
  have room: "dev_used g < DBUFF \<longleftrightarrow> \<not> of_nat DBUFF \<le> chead (data_cbuff g) - ctail (data_cbuff g)"
    by (simp add: dev_used_def word_le_nat_alt dev_ring.unat_cap not_le)
  show "data_cbuff g' = data_cbuff g"
    using assms by (cases pc) (auto dest: write_turn_cbuff)
  show "head_seen pc' g'"
  proof (cases pc)
    case (WReply r)
    then show ?thesis using assms(1) by (auto simp: head_seen_def)
  next
    case (WLoop v)
    then have "\<forall>v i a h. pc' \<noteq> WCopy v i a h" using assms(1) write_turn_cbuff [of ops rc v g pc' g'] by simp
    then show ?thesis by (simp add: head_seen_def split: writer_pc.splits)
  next
    case (WSpace v i a)
    then show ?thesis using assms(1) room by (auto simp: head_seen_def make_space_in_cbuff_dev_def)
  next
    case (WCopy v i a h)
    then show ?thesis using assms(2) by blast
  qed
qed

text \<open>
  The byte that the flusher will write next: the tail, or inside a turn a position ahead of it, from
  which the remaining writes are the queue up to the head that the turn read.
\<close>

definition flush_from :: "flush_pc \<Rightarrow> 'f gadget \<Rightarrow> u64 \<Rightarrow> bool" where
  "flush_from pc g t = (case pc of FIdle \<Rightarrow> t = ctail (data_cbuff g)
     | FWriting re rs \<Rightarrow> (\<forall>m. concat (map (range_bytes m) rs) = ring_bytes DBUFF m (unat t) (unat (re - t)))
         \<and> unat (re - t) \<le> unat (chead (data_cbuff g) - t))"

definition stream_ok :: "('f \<Rightarrow> char list) \<Rightarrow> char list \<Rightarrow> 'f device \<Rightarrow> bool" where
  "stream_ok data base d \<longleftrightarrow> head_seen (writer d) (gad d) \<and> dev_used (gad d) \<le> DBUFF \<and>
     (\<exists>t. flush_from (flushd d) (gad d) t \<and> unat (chead (data_cbuff (gad d)) - t) \<le> dev_used (gad d)
        \<and> log_of data (gad d) @ ring_bytes DBUFF (dev_mem (gad d)) (unat t) (unat (chead (data_cbuff (gad d)) - t)) = base @ taken d)"

lemma stream_okE:
  assumes "stream_ok data base d"
  obtains t where "head_seen (writer d) (gad d)" "dev_used (gad d) \<le> DBUFF" "flush_from (flushd d) (gad d) t"
    "unat (chead (data_cbuff (gad d)) - t) \<le> dev_used (gad d)"
    "log_of data (gad d) @ ring_bytes DBUFF (dev_mem (gad d)) (unat t) (unat (chead (data_cbuff (gad d)) - t)) = base @ taken d"
  using assms by (auto simp: stream_ok_def)

lemma ring_from:
  assumes "a < 2 ^ 64"
  shows "ring_bytes DBUFF m (unat (t + of_nat a :: u64)) n = ring_bytes DBUFF m (unat t + a) n"
proof -
  have "unat (of_nat a :: u64) = a" using assms by (simp add: unat_of_nat take_bit_eq_mod)
  then have "unat (t + of_nat a) mod DBUFF = (unat t + a) mod DBUFF"
    using dev_ring.index_add [of t "of_nat a"] by (simp only: dev_ring.unat_mod_cap)
  then show ?thesis by (metis ring_bytes_mod)
qed

lemma unat_minus_add: "a \<le> unat (h - t :: u64) \<Longrightarrow> unat (h - (t + of_nat a)) = unat (h - t) - a"
proof -
  assume a: "a \<le> unat (h - t)"
  then have u: "unat (of_nat a :: u64) = a" using u64_bound [of "h - t"] by (simp add: unat_of_nat take_bit_eq_mod)
  have "h - (t + of_nat a) = (h - t) - of_nat a" by simp
  then show ?thesis using a u by (simp only:) (subst unat_sub; simp add: word_le_nat_alt)
qed

text \<open>The next write of a turn is the first part of the queue, and the others the rest.\<close>

lemma flush_from_advance:
  assumes "flush_from (FWriting re (r # rs)) g t"
  defines "n \<equiv> length (range_bytes (dev_mem g) r)"
  shows "flush_from (FWriting re rs) g (t + of_nat n)" "n \<le> unat (chead (data_cbuff g) - t)"
    "range_bytes (dev_mem g) r = ring_bytes DBUFF (dev_mem g) (unat t) n"
proof -
  let ?u = "unat (re - t)"
  have all: "range_bytes m r @ concat (map (range_bytes m) rs) = ring_bytes DBUFF m (unat t) ?u" for m
    using assms(1) by (simp add: flush_from_def)
  have h: "?u \<le> unat (chead (data_cbuff g) - t)" using assms(1) by (simp add: flush_from_def)
  have len: "length (range_bytes m r) = n" for m by (simp add: range_bytes_def n_def)
  have nu: "n \<le> ?u" using arg_cong [OF all [of "dev_mem g"], of length] len by simp
  then show hn: "n \<le> unat (chead (data_cbuff g) - t)" using h by simp
  have "n < 2 ^ 64" using nu u64_bound [of "re - t"] by simp
  note ring = ring_from [OF this]
  have "ring_bytes DBUFF m (unat t) ?u = ring_bytes DBUFF m (unat t) n @ ring_bytes DBUFF m (unat t + n) (?u - n)" for m
    using ring_bytes_add [of DBUFF m "unat t" n "?u - n"] nu by simp
  with all have "range_bytes m r @ concat (map (range_bytes m) rs)
      = ring_bytes DBUFF m (unat t) n @ ring_bytes DBUFF m (unat t + n) (?u - n)" for m by simp
  then have split: "range_bytes m r = ring_bytes DBUFF m (unat t) n \<and> concat (map (range_bytes m) rs) = ring_bytes DBUFF m (unat t + n) (?u - n)" for m
    using len by (metis append_eq_append_conv length_ring_bytes)
  then show "range_bytes (dev_mem g) r = ring_bytes DBUFF (dev_mem g) (unat t) n" by blast
  show "flush_from (FWriting re rs) g (t + of_nat n)"
    unfolding flush_from_def using split ring unat_minus_add [OF nu] unat_minus_add [OF hn] h
    by (simp add: diff_le_mono)
qed

lemma ring_split:
  assumes "n \<le> u" and "n < 2 ^ 64"
  shows "ring_bytes DBUFF m (unat t) u = ring_bytes DBUFF m (unat t) n @ ring_bytes DBUFF m (unat (t + of_nat n :: u64)) (u - n)"
  using ring_bytes_add [of DBUFF m "unat t" n "u - n"] assms by (simp add: ring_from)

lemma flush_from_cong:
  "chead (data_cbuff g') = chead (data_cbuff g) \<Longrightarrow> ctail (data_cbuff g') = ctail (data_cbuff g) \<Longrightarrow> flush_from pc g' t = flush_from pc g t"
  by (simp add: flush_from_def split: flush_pc.splits)

text \<open>A step that leaves the buffer, the log and the record of copied bytes alone keeps the stream.\<close>

lemma stream_ok_frame:
  assumes "stream_ok data base d" and "data_cbuff (gad d') = data_cbuff (gad d)" and "log_of data (gad d') = log_of data (gad d)"
    and "flushd d' = flushd d" and "taken d' = taken d" and "head_seen (writer d') (gad d')"
  shows "stream_ok data base d'"
proof -
  have "dev_mem (gad d') = dev_mem (gad d)" "dev_used (gad d') = dev_used (gad d)" using assms(2) by (simp_all add: dev_mem_def dev_used_def)
  moreover have "flush_from (flushd d) (gad d') = flush_from (flushd d) (gad d)" using assms(2) by (intro ext flush_from_cong) simp_all
  ultimately show ?thesis using assms by (simp add: stream_ok_def)
qed

lemma stream_flush_step:
  assumes "stores_at data w" and "writes_upto lim w" and "gadget_ready data (gad d)" and "flush_pc_ok (flushd d)" and "stream_ok data base d"
    and "length base + length (taken d) \<le> lim" and "flush_step w (flushd d) (gad d) = Inr (pc, g)"
  shows "stream_ok data base (d\<lparr>gad := g, flushd := pc\<rparr>)"
proof -
  let ?h = "chead (data_cbuff (gad d))" and ?tail = "ctail (data_cbuff (gad d))"
  obtain t where s: "head_seen (writer d) (gad d)" "dev_used (gad d) \<le> DBUFF" "flush_from (flushd d) (gad d) t"
      "unat (?h - t) \<le> dev_used (gad d)" "log_of data (gad d) @ ring_bytes DBUFF (dev_mem (gad d)) (unat t) (unat (?h - t)) = base @ taken d"
    using assms(5) by (rule stream_okE)
  show ?thesis
  proof (cases "flushd d")
    case FIdle
    then have t: "t = ?tail" using s(3) by (simp add: flush_from_def)
    have g: "g = gad d" "pc = (if flush_ranges ?h ?tail = [] then FIdle else FWriting ?h (flush_ranges ?h ?tail))"
      using assms(7) FIdle by (auto simp: Let_def)
    have "flush_from pc g t"
    proof (cases "flush_ranges ?h ?tail = []")
      case True
      then show ?thesis using g t by (simp add: flush_from_def)
    next
      case False
      then have "dev_used (gad d) \<noteq> DBUFF" using flush_ranges_full by (auto simp: dev_used_def)
      then have "unat (?h - ?tail) < DBUFF" using s(2) by (simp add: dev_used_def)
      then show ?thesis using False g t flush_ranges_bytes by (simp add: flush_from_def)
    qed
    then show ?thesis using s g by (auto simp: stream_ok_def)
  next
    case (FWriting re rs)
    show ?thesis
    proof (cases rs)
      case Nil
      then have g: "g = set_tail re (gad d)" "pc = FIdle" using assms(7) FWriting by simp_all
      have "ring_bytes DBUFF (dev_mem (gad d)) (unat t) (unat (re - t)) = []" using s(3) FWriting Nil by (simp add: flush_from_def)
      then have "unat (re - t) = 0" using length_ring_bytes by (metis list.size(3))
      then have re: "re = t" by (metis eq_iff_diff_eq_0 unat_eq_zero)
      have f: "chead (data_cbuff g) = ?h" "ctail (data_cbuff g) = t" "dev_mem g = dev_mem (gad d)" "log_of data g = log_of data (gad d)"
        using g re by (simp_all) (simp_all add: set_tail_def dev_mem_def)
      moreover have "dev_used g = unat (?h - t)" using f by (simp add: dev_used_def)
      moreover have "head_seen (writer d) g" by (rule head_seen_cong [OF s(1) f(1)]) (use calculation s(4) in simp)
      ultimately show ?thesis using s g(2) by (auto simp: stream_ok_def flush_from_def dev_used_def)
    next
      case (Cons r rs')
      obtain e st where r: "r = (e, st)" by (cases r)
      have fit: "range_fits (e, st)" using assms(4) FWriting Cons r by (simp add: flush_pc_ok_def)
      obtain len g' n where w: "fs_write_dev w e st (gad d) = Inr (len, g')" "same_but_file (gad d) g'"
          "log_of data g' = log_of data (gad d) @ take n (range_bytes (dev_mem (gad d)) r)"
          "length (log_of data (gad d)) + length (range_bytes (dev_mem (gad d)) r) \<le> lim \<longrightarrow> length (range_bytes (dev_mem (gad d)) r) \<le> n"
        using fs_write_dev_extends [OF assms(1,3) fit] assms(2) r by auto
      then have g: "g = g'" "pc = FWriting re rs'" using assms(7) FWriting Cons r by simp_all
      let ?n = "length (range_bytes (dev_mem (gad d)) r)" and ?t = "t + of_nat (length (range_bytes (dev_mem (gad d)) r))"
      note adv = flush_from_advance [OF s(3) [unfolded FWriting Cons]]
      note frame = same_but_file_frame [OF w(2)]
      have cb: "data_cbuff g = data_cbuff (gad d)" "dev_mem g = dev_mem (gad d)" using frame g by simp_all
      have "length (log_of data (gad d)) + unat (?h - t) \<le> lim" using arg_cong [OF s(5), of length] assms(6) by simp
      then have room: "length (log_of data (gad d)) + ?n \<le> lim" using adv(2) by linarith
      have log: "log_of data g = log_of data (gad d) @ ring_bytes DBUFF (dev_mem (gad d)) (unat t) ?n"
        using w(3,4) g adv(3) room by simp
      have lt: "?n < 2 ^ 64" using adv(2) u64_bound [of "?h - t"] by simp
      have "log_of data g @ ring_bytes DBUFF (dev_mem g) (unat ?t) (unat (?h - ?t)) = base @ taken d"
        using s(5) log cb ring_split [OF adv(2) lt] unat_minus_add [OF adv(2)] by simp
      moreover have "unat (?h - ?t) \<le> dev_used (gad d)" using unat_minus_add [OF adv(2)] s(4) by simp
      moreover have "flush_from pc g ?t" using adv(1) cb g flush_from_cong [of g "gad d"] by simp
      moreover have "head_seen (writer d) g" by (rule head_seen_cong [OF s(1)]) (use cb in \<open>simp_all add: dev_used_def\<close>)
      moreover have "dev_used g = dev_used (gad d)" using cb by (simp add: dev_used_def)
      ultimately show ?thesis using s(2) cb by (auto simp: stream_ok_def)
    qed
  qed
qed

text \<open>A copy is safe if there is room for it and it does not cross the capacity.\<close>

definition copy_fits :: "'f device \<Rightarrow> bool" where
  "copy_fits d = (case writer d of
     WCopy v i a h \<Rightarrow> dev_used (gad d) + unat a \<le> DBUFF \<and> unat h mod DBUFF + unat a \<le> DBUFF | _ \<Rightarrow> True)"

lemma stream_writer_step:
  assumes "stream_ok data base d" and "copy_fits d" and "writer_step ops rc signal (writer d) (gad d) = Inr (pc, g)"
  shows "stream_ok data base (d\<lparr>gad := g, writer := pc, taken := taken d @ copied_bytes (writer d) (gad d)\<rparr>)"
proof (cases "\<exists>v i a h. writer d = WCopy v i a h")
  case False
  note o = writer_step_other [OF assms(3)]
  have "head_seen pc g" using o(2) False by blast
  then show ?thesis
    using assms(1) False o(1) writer_frame_log(3) [OF writer_step_frame [OF assms(3)]] by (auto intro!: stream_ok_frame [of data base d])
next
  case True
  then obtain v i a h where w: "writer d = WCopy v i a h" by blast
  let ?h = "chead (data_cbuff (gad d))" and ?bs = "copied_bytes (writer d) (gad d)"
  obtain t where s: "head_seen (writer d) (gad d)" "dev_used (gad d) \<le> DBUFF" "flush_from (flushd d) (gad d) t"
      "unat (?h - t) \<le> dev_used (gad d)" "log_of data (gad d) @ ring_bytes DBUFF (dev_mem (gad d)) (unat t) (unat (?h - t)) = base @ taken d"
    using assms(1) by (rule stream_okE)
  have h: "h = ?h" using s(1) w by (simp add: head_seen_def)
  have "copy_data signal v i a h (gad d) = Inr (pc, g)" using assms(3) w by simp
  note eff = copy_data_effect [OF this, folded w]
  have fit: "dev_used (gad d) + length ?bs \<le> DBUFF" "unat ?h mod DBUFF + length ?bs \<le> DBUFF"
    using assms(2) w h eff(1) by (simp_all add: copy_fits_def)
  have cap: "DBUFF < 2 ^ 64" by (rule dev_ring.cap_lt)
  have used: "unat (chead (data_cbuff g) - x) = unat (?h - x) + length ?bs" if "unat (?h - x) \<le> dev_used (gad d)" for x
    using dev_ring.used_add [of ?h x "length ?bs"] that fit(1) cap eff(3) by simp
  have "ring_bytes DBUFF (dev_mem g) (unat t) (unat (?h - t) + length ?bs)
      = ring_bytes DBUFF (dev_mem (gad d)) (unat t) (unat (?h - t)) @ ?bs"
    unfolding eff(2) h using s(4) fit by (intro dev_ring.push_appends) simp_all
  moreover have "log_of data g = log_of data (gad d)" by (rule writer_frame_log(3) [OF writer_step_frame [OF assms(3)]])
  ultimately have "log_of data g @ ring_bytes DBUFF (dev_mem g) (unat t) (unat (chead (data_cbuff g) - t)) = base @ taken d @ ?bs"
    using s(5) used [OF s(4)] by simp
  moreover have "dev_used g = dev_used (gad d) + length ?bs" using used [of "ctail (data_cbuff (gad d))"] eff(4) by (simp add: dev_used_def)
  moreover have "flush_from (flushd d) g t" using s(3) used [OF s(4)] eff(4) by (auto simp: flush_from_def split: flush_pc.splits)
  moreover have "head_seen pc g" using eff(5) by (auto simp: head_seen_def split: writer_pc.splits)
  ultimately show ?thesis using s(4) fit(1) used [OF s(4)] by (auto simp: stream_ok_def)
qed

lemma scsi_write_cbuff:
  assumes "scsi_write k checked g = Inr (pc, g')" and "faststorage g" and "log_disk_named g" and "writes_own_disk k"
  shows "data_cbuff g' = data_cbuff g" "\<forall>v i a h. pc \<noteq> WCopy v i a h" "log_of data g' = log_of data g"
proof -
  have f: "log_frame g g' \<or> writer_frame g g'" using scsi_write_frame [OF assms] by blast
  then show "log_of data g' = log_of data g" using writer_frame_log(3) log_frame_log(3) by blast
  obtain l where l: "get_lun (curlun g) g = Inr l" using assms(1) by (auto simp: scsi_write_def)
  show "data_cbuff g' = data_cbuff g" "\<forall>v i a h. pc \<noteq> WCopy v i a h"
  proof -
    have "data_cbuff g' = data_cbuff g \<and> (\<forall>v i a h. pc \<noteq> WCopy v i a h)"
    proof (cases "checked = 0 \<and> lun_name l \<noteq> ''lun0''")
      case True
      then have "curlun g \<noteq> device_lun g" using l assms(3) by (auto simp: get_lun_Inr log_disk_named_def)
      then have "log_frame g (snd (do_write_orig k g))" using assms(4) by (simp add: writes_own_disk_def)
      then show ?thesis
        using assms(1) True l by (auto simp: scsi_write_def do_write_def log_frame_def split: prod.splits option.splits)
    next
      case False
      then show ?thesis
        using assms(1,2) l by (auto simp: scsi_write_def Let_def dest: hardlog_write_start_cbuff split: if_splits)
    qed
    then show "data_cbuff g' = data_cbuff g" "\<forall>v i a h. pc \<noteq> WCopy v i a h" by blast+
  qed
qed

lemma log_of_command_cbuff [simp]: "data_cbuff (g\<lparr>cmnd := cdb, data_size_from_cmnd := n, curlun := cur\<rparr>) = data_cbuff g"
  by simp

text \<open>What a step does to the counters: nothing, a copy, or the end of a turn of the flusher.\<close>

lemma device_step_counters:
  assumes "stores_at data (vfs_write k)" and "writes_own_disk k" and "device_ok data d" and "device_step k e d = Inr d'"
  shows "(case e of Writer rc signal \<Rightarrow> data_cbuff (gad d') = data_cbuff (gad d) \<and> taken d' = taken d
            \<or> (\<exists>v i a h. writer d = WCopy v i a h \<and> chead (data_cbuff (gad d')) = chead (data_cbuff (gad d)) + of_nat (unat a)
                  \<and> ctail (data_cbuff (gad d')) = ctail (data_cbuff (gad d)) \<and> length (taken d') = length (taken d) + unat a)
          | Flusher \<Rightarrow> chead (data_cbuff (gad d')) = chead (data_cbuff (gad d)) \<and> taken d' = taken d
              \<and> (ctail (data_cbuff (gad d')) = ctail (data_cbuff (gad d)) \<or> (\<exists>re. flushd d = FWriting re [] \<and> ctail (data_cbuff (gad d')) = re))
              \<and> (\<forall>re rs. flushd d' = FWriting re rs \<longrightarrow> re = chead (data_cbuff (gad d)) \<or> (\<exists>rs'. flushd d = FWriting re rs'))
          | _ \<Rightarrow> data_cbuff (gad d') = data_cbuff (gad d) \<and> taken d' = taken d)
    \<and> prefix (taken d) (taken d') \<and> (e \<noteq> Flusher \<longrightarrow> flushd d' = flushd d)"
proof (cases e)
  case (Command cdb n cur checked)
  show ?thesis
  proof (cases "\<exists>r. writer d = WReply r")
    case True
    then obtain pc g where g: "scsi_write k checked ((gad d)\<lparr>cmnd := cdb, data_size_from_cmnd := n, curlun := cur\<rparr>) = Inr (pc, g)"
        "d' = d\<lparr>gad := g, writer := pc\<rparr>"
      using assms(4) Command by auto
    then show ?thesis using scsi_write_cbuff(1) [OF g(1)] assms(2,3) Command by (simp add: device_ok_def command_fields)
  next
    case False
    then have "d' = d" using assms(4) Command by (cases "writer d") auto
    then show ?thesis using Command by simp
  qed
next
  case (Writer rc signal)
  then obtain pc g where g: "writer_step (usb_ops_of k) rc signal (writer d) (gad d) = Inr (pc, g)"
      "d' = d\<lparr>gad := g, writer := pc, taken := taken d @ copied_bytes (writer d) (gad d)\<rparr>"
    using assms(4) by auto
  show ?thesis
  proof (cases "\<exists>v i a h. writer d = WCopy v i a h")
    case True
    then obtain v i a h where w: "writer d = WCopy v i a h" by blast
    then have "copy_data signal v i a h (gad d) = Inr (pc, g)" using g(1) by simp
    from copy_data_effect [OF this] show ?thesis using w g(2) Writer by auto
  next
    case False
    then show ?thesis using writer_step_other(1) [OF g(1)] g(2) Writer by simp
  qed
next
  case Flusher
  then obtain pc g where g: "flush_step (vfs_write k) (flushd d) (gad d) = Inr (pc, g)" "d' = d\<lparr>gad := g, flushd := pc\<rparr>"
    using assms(4) by auto
  show ?thesis
  proof (cases "flushd d")
    case FIdle
    then show ?thesis using g Flusher by (auto simp: Let_def split: if_splits)
  next
    case (FWriting re rs)
    show ?thesis
    proof (cases rs)
      case Nil
      then show ?thesis using g FWriting Flusher by (auto simp: set_tail_def)
    next
      case (Cons r rs')
      obtain e st where r: "r = (e, st)" by (cases r)
      have fit: "range_fits (e, st)" using assms(3) FWriting Cons r by (simp add: device_ok_def flush_pc_ok_def)
      obtain len g' where w: "fs_write_dev (vfs_write k) e st (gad d) = Inr (len, g')" "same_but_file (gad d) g'"
        using fs_write_dev_extends [OF assms(1) _ fit, of "gad d"] assms(3) by (auto simp: device_ok_def)
      then show ?thesis using g FWriting Cons r Flusher same_but_file_frame(1) [OF w(2)] by auto
    qed
  qed
next
  case (Usb bhs)
  then show ?thesis using assms(4) by auto
next
  case (Request copied)
  then show ?thesis using assms(4) by (auto simp: request_clear_def split: request_pc.splits if_splits)
qed

lemma device_step_stream:
  assumes "stores_at data (vfs_write k)" and "writes_upto lim (vfs_write k)" and "writes_own_disk k" and "device_ok data d" and "stream_ok data base d"
    and "\<forall>rc signal. e = Writer rc signal \<longrightarrow> copy_fits d" and "device_step k e d = Inr d'"
    and "length base + length (taken d) \<le> lim"
  shows "stream_ok data base d'"
proof (cases e)
  case (Command cdb n cur checked)
  let ?g = "(gad d)\<lparr>cmnd := cdb, data_size_from_cmnd := n, curlun := cur\<rparr>"
  show ?thesis
  proof (cases "\<exists>r. writer d = WReply r")
    case True
    then obtain pc g where g: "scsi_write k checked ?g = Inr (pc, g)" "d' = d\<lparr>gad := g, writer := pc\<rparr>"
      using assms(7) Command by auto
    have ok: "faststorage ?g" "log_disk_named ?g" using assms(4) by (simp_all add: device_ok_def command_fields)
    note c = scsi_write_cbuff [OF g(1) ok assms(3)]
    have "head_seen pc g" using c(2) by (simp add: head_seen_def split: writer_pc.splits)
    moreover have "data_cbuff g = data_cbuff (gad d)" "log_of data g = log_of data (gad d)"
      using c(1) c(3) [of data] by (simp_all only: log_of_command_cbuff command_fields)
    ultimately show ?thesis
      unfolding g(2) by (intro stream_ok_frame [OF assms(5)]) simp_all
  next
    case False
    then have "d' = d" using assms(7) Command by (cases "writer d") auto
    then show ?thesis using assms(5) by simp
  qed
next
  case (Writer rc signal)
  then show ?thesis using assms(5-7) stream_writer_step [of data base d "usb_ops_of k" rc signal] by auto
next
  case Flusher
  then show ?thesis using stream_flush_step [OF assms(1,2) _ _ assms(5,8)] assms(4,7) by (auto simp: device_ok_def)
next
  case (Usb bhs)
  then have d': "d' = d\<lparr>gad := (gad d)\<lparr>buffhds := bhs\<rparr>\<rparr>" using assms(7) by simp
  have "head_seen (writer d) (gad d)" using assms(5) by (simp add: stream_ok_def)
  then have "head_seen (writer d) ((gad d)\<lparr>buffhds := bhs\<rparr>)" by (rule head_seen_cong) (simp_all add: dev_used_def)
  then show ?thesis unfolding d' by (intro stream_ok_frame [OF assms(5)]) simp_all
next
  case (Request copied)
  then have c: "data_cbuff (gad d') = data_cbuff (gad d)" "writer d' = writer d" "log_of data (gad d') = log_of data (gad d)"
      "flushd d' = flushd d" "taken d' = taken d"
    using assms(7) by (auto simp: request_clear_def split: request_pc.splits if_splits)
  have "head_seen (writer d) (gad d)" using assms(5) by (simp add: stream_ok_def)
  then have "head_seen (writer d) (gad d')" by (rule head_seen_cong) (simp_all add: c dev_used_def)
  then show ?thesis using c by (intro stream_ok_frame [OF assms(5)]) simp_all
qed

section \<open>Runs\<close>

text \<open>A condition at every copy of a run.\<close>

fun at_copies :: "('f device \<Rightarrow> bool) \<Rightarrow> 'f kernel \<Rightarrow> event list \<Rightarrow> 'f device \<Rightarrow> bool" where
  "at_copies P k [] d = True"
| "at_copies P k (e # es) d =
     ((case e of Writer rc signal \<Rightarrow> (case writer d of WCopy v i a h \<Rightarrow> P d | _ \<Rightarrow> True) | _ \<Rightarrow> True)
      \<and> (case device_step k e d of Inl _ \<Rightarrow> True | Inr d' \<Rightarrow> at_copies P k es d'))"

lemma device_run_prefix:
  assumes "stores_at data (vfs_write k)" and "writes_own_disk k" and "device_ok data d" and "device_run k es d = Inr d'"
  shows "prefix (taken d) (taken d')"
  using assms(3,4)
proof (induction es arbitrary: d)
  case (Cons e es)
  then obtain d1 where d1: "device_step k e d = Inr d1" "device_run k es d1 = Inr d'" by auto
  have "device_ok data d1" "prefix (taken d) (taken d1)"
    using device_step_extends [OF assms(1,2) "Cons.prems"(1) d1(1)] device_step_counters [OF assms(1,2) "Cons.prems"(1) d1(1)] by blast+
  then show ?case using "Cons.IH" d1(2) by (metis prefix_order.trans)
qed simp

text \<open>In the first lap the counters are the numbers of bytes.\<close>

definition first_lap :: "'f device \<Rightarrow> bool" where
  "first_lap d \<longleftrightarrow> chead (data_cbuff (gad d)) = of_nat (length (taken d)) \<and> ctail (data_cbuff (gad d)) \<le> chead (data_cbuff (gad d))
     \<and> (\<forall>re rs. flushd d = FWriting re rs \<longrightarrow> re \<le> chead (data_cbuff (gad d)))"

lemma first_lap_step:
  assumes "stores_at data (vfs_write k)" and "writes_own_disk k" and "device_ok data d" and "first_lap d" and "device_step k e d = Inr d'"
    and "length (taken d') \<le> DBUFF"
  shows "first_lap d'"
proof -
  let ?h = "chead (data_cbuff (gad d))" and ?h' = "chead (data_cbuff (gad d'))"
  note c = device_step_counters [OF assms(1-3,5)]
  have cap: "DBUFF < 2 ^ 64" by (rule dev_ring.cap_lt)
  have len: "length (taken d) \<le> length (taken d')" using c prefix_length_le by blast
  have small: "unat (of_nat n :: u64) = n" if "n \<le> DBUFF" for n using that cap by (simp add: unat_of_nat take_bit_eq_mod)
  have h: "unat ?h = length (taken d)" using assms(4,6) len small by (simp add: first_lap_def)
  have eq: "?h' = of_nat (length (taken d'))" using c assms(4) by (cases e) (auto simp: first_lap_def)
  have le: "?h \<le> ?h'" using eq small [OF assms(6)] h len by (simp add: word_le_nat_alt)
  have ct: "ctail (data_cbuff (gad d')) \<le> ?h"
    using c assms(4) by (cases e) (auto simp: first_lap_def)
  have fl: "\<forall>re rs. flushd d' = FWriting re rs \<longrightarrow> re \<le> ?h"
    using c assms(4) by (cases e) (auto simp: first_lap_def)
  show ?thesis unfolding first_lap_def using eq ct fl le by (meson order_trans)
qed

lemma first_lap_fits:
  assumes "stores_at data (vfs_write k)" and "writes_own_disk k" and "device_ok data d" and "first_lap d" and "stream_ok data base d"
    and "device_step k (Writer rc signal) d = Inr d'" and "length (taken d') \<le> DBUFF"
  shows "copy_fits d"
proof (cases "writer d")
  case (WCopy v i a h)
  let ?h = "chead (data_cbuff (gad d))"
  obtain pc g where "copy_data signal v i a h (gad d) = Inr (pc, g)"
      "d' = d\<lparr>gad := g, writer := pc, taken := taken d @ copied_bytes (writer d) (gad d)\<rparr>"
    using assms(6) WCopy by auto
  then have len: "length (taken d) + unat a \<le> DBUFF" using copy_data_effect(1) assms(7) WCopy by fastforce
  have cap: "DBUFF < 2 ^ 64" by (rule dev_ring.cap_lt)
  have h: "unat ?h = length (taken d)" "h = ?h" "ctail (data_cbuff (gad d)) \<le> ?h"
    using assms(4,5) len cap WCopy by (auto simp: first_lap_def stream_ok_def head_seen_def unat_of_nat take_bit_eq_mod)
  have "dev_used (gad d) \<le> unat ?h" using h(3) by (simp add: dev_used_def unat_sub)
  moreover have "unat ?h mod DBUFF \<le> unat ?h" by (rule mod_less_eq_dividend)
  then have "unat ?h mod DBUFF + unat a \<le> DBUFF" using h(1) len by linarith
  ultimately show ?thesis using h(1,2) len WCopy by (simp add: copy_fits_def)
qed (simp_all add: copy_fits_def)

lemma first_lap_run:
  assumes "stores_at data (vfs_write k)" and "writes_upto lim (vfs_write k)" and "writes_own_disk k" and "device_ok data d" and "first_lap d"
    and "stream_ok data base d" and "device_run k es d = Inr d'" and "length (taken d') \<le> DBUFF"
    and "length base + length (taken d') \<le> lim"
  shows "stream_ok data base d'"
  using assms(4-7)
proof (induction es arbitrary: d)
  case (Cons e es)
  then obtain d1 where d1: "device_step k e d = Inr d1" "device_run k es d1 = Inr d'" by auto
  have ok: "device_ok data d1" using device_step_extends [OF assms(1,3) "Cons.prems"(1) d1(1)] by blast
  have "length (taken d1) \<le> length (taken d')"
    using device_run_prefix [OF assms(1,3) ok d1(2)] prefix_length_le by blast
  then have len: "length (taken d1) \<le> DBUFF" using assms(8) by linarith
  have room: "length base + length (taken d) \<le> lim"
    using device_run_prefix [OF assms(1,3) "Cons.prems"(1,4)] prefix_length_le assms(9) by fastforce
  have fit: "\<forall>rc signal. e = Writer rc signal \<longrightarrow> copy_fits d"
    using first_lap_fits [OF assms(1,3) "Cons.prems"(1-3) _ len] d1(1) by blast
  show ?case
    by (rule "Cons.IH" [OF ok first_lap_step [OF assms(1,3) "Cons.prems"(1,2) d1(1) len]
          device_step_stream [OF assms(1-3) "Cons.prems"(1,3) fit d1(1) room] d1(2)])
qed simp

text \<open>With transfers of one length that divides the capacity, no copy ever crosses it or overruns.\<close>

definition copies_of :: "nat \<Rightarrow> 'f device \<Rightarrow> bool" where
  "copies_of b d = (case writer d of WCopy v i a h \<Rightarrow> unat a = b | _ \<Rightarrow> True)"

definition in_units :: "nat \<Rightarrow> 'f device \<Rightarrow> bool" where
  "in_units b d \<longleftrightarrow> b dvd unat (chead (data_cbuff (gad d))) \<and> b dvd unat (ctail (data_cbuff (gad d)))
     \<and> (\<forall>re rs. flushd d = FWriting re rs \<longrightarrow> b dvd unat re)"

lemma dvd_unat_add:
  assumes "b dvd DBUFF" and "b dvd unat (x :: u64)" and "b dvd n"
  shows "b dvd unat (x + of_nat n)"
proof -
  have b: "b dvd 2 ^ 64" using assms(1) dev_ring.cap_dvd by (rule dvd_trans)
  have "unat (x + of_nat n) = (unat x + n) mod 2 ^ 64"
    by (simp add: unat_word_ariths unat_of_nat take_bit_eq_mod mod_add_right_eq)
  then show ?thesis using b assms(2,3) by (simp only: dvd_mod_iff dvd_add)
qed

lemma dvd_unat_sub:
  assumes "b dvd DBUFF" and "b dvd unat (x :: u64)" and "b dvd unat y"
  shows "b dvd unat (x - y)"
proof -
  have b: "b dvd 2 ^ 64" using assms(1) dev_ring.cap_dvd by (rule dvd_trans)
  have "unat ((x - y) + y) = (unat (x - y) + unat y) mod 2 ^ 64" by (simp only: unat_word_ariths) simp
  then have "b dvd (unat (x - y) + unat y) mod 2 ^ 64" using assms(2) by simp
  then have "b dvd unat (x - y) + unat y" using b by (simp only: dvd_mod_iff)
  then show ?thesis using assms(3) by (simp only: dvd_add_left_iff)
qed

lemma multiple_room: "b dvd c \<Longrightarrow> b dvd x \<Longrightarrow> x < c \<Longrightarrow> x + b \<le> (c :: nat)"
proof (elim dvdE)
  fix k j assume "x < c" "c = b * k" "x = b * j"
  then have "b * Suc j \<le> b * k" by (intro mult_le_mono2) simp
  then show ?thesis using \<open>c = b * k\<close> \<open>x = b * j\<close> by simp
qed

lemma units_fits:
  assumes "b dvd DBUFF" and "in_units b d" and "copies_of b d" and "stream_ok data base d"
  shows "copy_fits d"
proof (cases "writer d")
  case (WCopy v i a h)
  have u: "b dvd dev_used (gad d)" unfolding dev_used_def using assms(1,2) by (intro dvd_unat_sub) (simp_all add: in_units_def)
  have h: "h = chead (data_cbuff (gad d))" "dev_used (gad d) < DBUFF" using assms(4) WCopy by (auto simp: stream_ok_def head_seen_def)
  have "b dvd unat h mod DBUFF" using assms(1,2) h(1) by (simp add: in_units_def dvd_mod)
  moreover have "unat h mod DBUFF < DBUFF" using dev_ring.cap_pos by simp
  ultimately show ?thesis using multiple_room [OF assms(1) u h(2)] multiple_room [OF assms(1)] assms(3) WCopy
    by (simp add: copy_fits_def copies_of_def)
qed (simp_all add: copy_fits_def)

lemma units_step:
  assumes "stores_at data (vfs_write k)" and "writes_own_disk k" and "device_ok data d" and "b dvd DBUFF" and "in_units b d"
    and "\<forall>rc signal. e = Writer rc signal \<longrightarrow> copies_of b d" and "device_step k e d = Inr d'"
  shows "in_units b d'"
proof -
  note c = device_step_counters [OF assms(1-3,7)]
  have add: "b dvd unat (chead (data_cbuff (gad d)) + of_nat b)"
    using assms(4,5) by (intro dvd_unat_add) (simp_all add: in_units_def)
  show ?thesis
    using c assms(5,6) add by (cases e) (auto simp: in_units_def copies_of_def)
qed

lemma units_run:
  assumes "stores_at data (vfs_write k)" and "writes_upto lim (vfs_write k)" and "writes_own_disk k" and "b dvd DBUFF"
    and "device_ok data d" and "in_units b d" and "stream_ok data base d" and "at_copies (copies_of b) k es d" and "device_run k es d = Inr d'"
    and "length base + length (taken d') \<le> lim"
  shows "stream_ok data base d'"
  using assms(5-9)
proof (induction es arbitrary: d)
  case (Cons e es)
  then obtain d1 where d1: "device_step k e d = Inr d1" "device_run k es d1 = Inr d'" by auto
  have ok: "device_ok data d1" using device_step_extends [OF assms(1,3) "Cons.prems"(1) d1(1)] by blast
  have cb: "\<forall>rc signal. e = Writer rc signal \<longrightarrow> copies_of b d"
    using "Cons.prems"(4) by (auto simp: copies_of_def split: writer_pc.splits)
  then have fit: "\<forall>rc signal. e = Writer rc signal \<longrightarrow> copy_fits d"
    using units_fits [OF assms(4) "Cons.prems"(2) _ "Cons.prems"(3)] by blast
  have room: "length base + length (taken d) \<le> lim"
    using device_run_prefix [OF assms(1,3) "Cons.prems"(1,5)] prefix_length_le assms(10) by fastforce
  have at: "at_copies (copies_of b) k es d1" using "Cons.prems"(4) d1(1) by simp
  show ?case
    by (rule "Cons.IH" [OF ok units_step [OF assms(1,3) "Cons.prems"(1) assms(4) "Cons.prems"(2) cb d1(1)]
          device_step_stream [OF assms(1-3) "Cons.prems"(1,3) fit d1(1) room] at d1(2)])
qed simp

section \<open>More facts\<close>

text \<open>The end offset that the library is given is the flusher's position in the file.\<close>

definition end_offset_ok :: "'f gadget \<Rightarrow> bool" where
  "end_offset_ok g \<longleftrightarrow> (\<exists>f. log_backing g = Inr f \<and> file_end_offset g = f_pos f)"

lemma end_offset_cong:
  "log_backing g' = log_backing g \<Longrightarrow> file_end_offset g' = file_end_offset g \<Longrightarrow> end_offset_ok g' = end_offset_ok g"
  by (simp add: end_offset_ok_def)

lemma fs_write_dev_end_offset:
  assumes "stores_at data w" and "gadget_ready data g" and "end_offset_ok g" and "fs_write_dev w e s g = Inr (len, g')"
  shows "end_offset_ok g'"
proof (cases "e - s \<le> 0")
  case True
  then show ?thesis using assms(3,4) by (simp add: fs_write_dev_def)
next
  case False
  have d: "device_filp g = Ptr ()" using assms(2) by (simp add: gadget_ready_def)
  from assms(4) False d obtain l f bs where l: "get_lun (device_lun g) g = Inr l" "filp l = Ptr f"
      "load_at (cbuffer (data_cbuff g)) (unat s) (unat (e - s)) = Inr bs"
    by (auto simp: fs_write_dev_def Let_def deref_Inr)
  obtain n pos c where w: "w bs (f_pos f) (contents f) = (n, pos, c)" by (metis prod_cases3)
  let ?g = "set_lun (device_lun g) (l\<lparr>filp := Ptr (f\<lparr>f_pos := pos, contents := c\<rparr>)\<rparr>) g"
  have g': "g' = (if n \<le> 0 then ?g else ?g\<lparr>file_end_offset := pos\<rparr>)"
    using assms(4) False d l w by (auto simp: fs_write_dev_def Let_def)
  have bk: "log_backing g = Inr f" "log_backing ?g = Inr (f\<lparr>f_pos := pos, contents := c\<rparr>)" using l by (simp_all add: log_backing_def)
  have bk': "log_backing (?g\<lparr>file_end_offset := pos\<rparr>) = log_backing ?g" by (rule log_backing_cong) simp_all
  have "unat (f_pos f) \<le> length (data (contents f))" using assms(2) bk(1) by (simp add: gadget_ready_def)
  then have "n \<le> 0 \<Longrightarrow> pos = f_pos f" using assms(1) w unfolding stores_at_def by (metis not_less)
  moreover have "file_end_offset ?g = file_end_offset g" by (simp add: set_lun_def split: option.splits)
  moreover have "file_end_offset g = f_pos f" using assms(3) bk(1) by (simp add: end_offset_ok_def)
  ultimately show ?thesis using g' bk(2) bk' by (cases "n \<le> 0") (auto simp: end_offset_ok_def)
qed

lemma device_step_end_offset:
  assumes "stores_at data (vfs_write k)" and "writes_own_disk k" and "\<forall>g. file_end_offset (snd (do_write_orig k g)) = file_end_offset g"
    and "device_ok data d" and "end_offset_ok (gad d)" and "device_step k e d = Inr d'"
  shows "end_offset_ok (gad d')"
proof (cases e)
  case (Command cdb n cur checked)
  let ?g = "(gad d)\<lparr>cmnd := cdb, data_size_from_cmnd := n, curlun := cur\<rparr>"
  show ?thesis
  proof (cases "\<exists>r. writer d = WReply r")
    case True
    then obtain pc g where g: "scsi_write k checked ?g = Inr (pc, g)" "d' = d\<lparr>gad := g, writer := pc\<rparr>"
      using assms(6) Command by auto
    have ok: "faststorage ?g" "log_disk_named ?g" using assms(4) by (simp_all add: device_ok_def command_fields)
    have "log_backing g = log_backing ?g" using scsi_write_frame [OF g(1) ok assms(2)] writer_frame_log(1) log_frame_log(1) by blast
    moreover have "log_backing ?g = log_backing (gad d)" by (rule log_backing_cong) simp_all
    moreover have "file_end_offset g = file_end_offset ?g"
    proof -
      obtain l where l: "get_lun (curlun ?g) ?g = Inr l" using g(1) by (auto simp: scsi_write_def)
      have o: "file_end_offset h = file_end_offset ?g" if "do_write_orig k ?g = (r, h)" for r h
        using assms(3) that by (metis snd_conv)
      show ?thesis
        using g(1) l o hardlog_write_start_frame [of ?g pc g]
        by (auto simp: scsi_write_def do_write_def Let_def writer_frame_def split: if_splits prod.splits option.splits)
    qed
    ultimately have "end_offset_ok g = end_offset_ok (gad d)" by (intro end_offset_cong) simp_all
    then show ?thesis using assms(5) g(2) by simp
  next
    case False
    then have "d' = d" using assms(6) Command by (cases "writer d") auto
    then show ?thesis using assms(5) by simp
  qed
next
  case (Writer rc signal)
  then obtain pc g where g: "writer_step (usb_ops_of k) rc signal (writer d) (gad d) = Inr (pc, g)" "gad d' = g"
    using assms(6) by auto
  note f = writer_step_frame [OF g(1)]
  have "end_offset_ok g = end_offset_ok (gad d)"
    by (rule end_offset_cong [OF writer_frame_log(1) [OF f]]) (use f in \<open>simp add: writer_frame_def\<close>)
  then show ?thesis using g(2) assms(5) by simp
next
  case Flusher
  then obtain pc g where g: "flush_step (vfs_write k) (flushd d) (gad d) = Inr (pc, g)" "gad d' = g"
    using assms(6) by auto
  show ?thesis
  proof (cases "flushd d")
    case FIdle
    then show ?thesis using g assms(5) by (auto simp: Let_def)
  next
    case (FWriting re rs)
    show ?thesis
    proof (cases rs)
      case Nil
      have "end_offset_ok (set_tail re (gad d)) = end_offset_ok (gad d)" by (rule end_offset_cong) (simp_all, simp add: set_tail_def)
      then show ?thesis using g FWriting Nil assms(5) by simp
    next
      case (Cons r rs')
      obtain b s where r: "r = (b, s)" by (cases r)
      then obtain len where "fs_write_dev (vfs_write k) b s (gad d) = Inr (len, g)" using g(1) FWriting Cons by auto
      then show ?thesis using fs_write_dev_end_offset [OF assms(1) _ assms(5)] assms(4) g(2) by (simp add: device_ok_def)
    qed
  qed
next
  case (Usb bhs)
  have "end_offset_ok ((gad d)\<lparr>buffhds := bhs\<rparr>) = end_offset_ok (gad d)" by (rule end_offset_cong [OF log_backing_cong]) simp_all
  then show ?thesis using assms(5,6) Usb by auto
next
  case (Request copied)
  have "end_offset_ok (request_clear (gad d)) = end_offset_ok (gad d)"
    by (rule end_offset_cong [OF log_backing_cong]) (simp_all add: request_clear_def)
  then show ?thesis using assms(5,6) Request by (auto split: request_pc.splits if_splits)
qed

lemma device_run_end_offset:
  assumes "stores_at data (vfs_write k)" and "writes_own_disk k" and "\<forall>g. file_end_offset (snd (do_write_orig k g)) = file_end_offset g"
    and "device_ok data d" and "end_offset_ok (gad d)" and "device_run k es d = Inr d'"
  shows "end_offset_ok (gad d')"
  using assms(4-6)
proof (induction es arbitrary: d)
  case (Cons e es)
  then obtain d1 where "device_step k e d = Inr d1" "device_run k es d1 = Inr d'" by auto
  then show ?case
    using "Cons.IH" device_step_extends [OF assms(1,2) "Cons.prems"(1)] device_step_end_offset [OF assms(1-3) "Cons.prems"(1,2)] by blast
qed simp

lemma end_offset_length: "end_offset_ok g \<Longrightarrow> gadget_ready data g \<Longrightarrow> unat (file_end_offset g) = length (log_of data g)"
  by (auto simp: end_offset_ok_def gadget_ready_def log_of_def)

text \<open>A full buffer between two turns stays full.\<close>

definition stuck :: "write_locals \<Rightarrow> nat \<Rightarrow> u32 \<Rightarrow> 'f device \<Rightarrow> bool" where
  "stuck v i a d \<longleftrightarrow> dev_used (gad d) = DBUFF \<and> flushd d = FIdle \<and> writer d = WSpace v i a"

lemma full_no_space: "dev_used g = DBUFF \<Longrightarrow> make_space_in_cbuff_dev g = None"
  by (simp add: dev_used_def make_space_in_cbuff_dev_def word_le_nat_alt dev_ring.unat_cap)

lemma stuck_step:
  assumes "stuck v i a d"
  shows "\<exists>d'. device_step k e d = Inr d' \<and> stuck v i a d' \<and> log_of data (gad d') = log_of data (gad d) \<and> taken d' = taken d"
proof (cases e)
  case (Request copied)
  then show ?thesis using assms
    by (auto simp: stuck_def request_clear_def dev_used_def split: request_pc.splits)
next
  case Flusher
  then show ?thesis using assms flush_ranges_full by (simp add: stuck_def dev_used_def)
next
  case (Writer rc signal)
  then show ?thesis using assms full_no_space [of "gad d"] by (simp add: stuck_def)
qed (use assms in \<open>simp_all add: stuck_def dev_used_def\<close>)

section \<open>A sample device\<close>

text \<open>A file is its bytes; the driver's own write does nothing; the log's disk and the request disk.\<close>

definition list_vfs :: "char list kwrite" where
  "list_vfs bs pos c =
     (if unat pos + length bs < 2 ^ 63
      then (int (length bs), pos + of_nat (length bs), take (unat pos) c @ bs @ drop (unat pos + length bs) c)
      else (- 1, pos, c))"

definition sample_usb :: usb_ops where
  "sample_usb = \<lparr>FSG_BUFLEN = 16384, set_bulk_out_req_length = (\<lambda>bh n. bh\<lparr>bulk_out_intended_length := n\<rparr>),
     start_out_transfer = (\<lambda>bh. Some (bh\<lparr>bh_state := BUF_STATE_BUSY\<rparr>))\<rparr>"

definition sample_kernel :: "char list kernel" where
  "sample_kernel = \<lparr>usb_ops_of = sample_usb, vfs_write = list_vfs, do_write_orig = (\<lambda>g. (None, g))\<rparr>"

definition sample_lun :: "string \<Rightarrow> char list \<Rightarrow> char list fsg_lun" where
  "sample_lun name content = \<lparr>lun_name = name, filp = Ptr \<lparr>f_pos = of_nat (length content), contents = content\<rparr>, ro = False,
     file_length = 2 ^ 40, num_sectors = 2 ^ 31, blkbits = 9, blksize = 512, sense_data = SS_NO_SENSE, sense_data_info = 0, info_valid = False\<rparr>"

definition sample_gadget :: "char list \<Rightarrow> mem \<Rightarrow> u64 \<Rightarrow> u64 \<Rightarrow> char list gadget" where
  "sample_gadget content m h t = \<lparr>luns = [sample_lun ''lun0'' content, sample_lun ''lun1'' []], curlun = None, cmnd = [],
     data_size_from_cmnd = 0, usb_amount_left = 0, residue = 0, short_packet_received = False,
     buffhds = [\<lparr>bh_state = BUF_STATE_EMPTY, bh_buf = [], outreq_status = 0, outreq_actual = 0, bulk_out_intended_length = 0\<rparr>],
     next_buffhd_to_fill = 0, next_buffhd_to_drain = 0, device_filp = Ptr (), device_lun = Some 0,
     data_cbuff = \<lparr>cbuffer = Some \<lparr>cells = m, bsize = DBUFF + DATA_SLACK, live = True\<rparr>, chead = h, ctail = t\<rparr>,
     file_start_offset = 0, file_end_offset = of_nat (length content), server_request_flag = False, faststorage = True\<rparr>"

definition sample_device :: "char list \<Rightarrow> char list device" where
  "sample_device content = \<lparr>gad = sample_gadget content (\<lambda>_. NUL) 0 0, flushd = FIdle, writer = WReply 0, caller = RIdle, answers = [], taken = []\<rparr>"

lemma list_vfs_stores: "stores_at id list_vfs"
proof -
  have u: "unat (pos + of_nat (length bs) :: u64) = unat pos + length bs" if "unat pos + length bs < 2 ^ 63" for pos :: u64 and bs :: "char list"
    using that by (simp add: unat_word_ariths unat_of_nat take_bit_eq_mod)
  show ?thesis by (auto simp: stores_at_def list_vfs_def u split: if_splits)
qed

lemma list_vfs_upto: "lim < 2 ^ 63 \<Longrightarrow> writes_upto lim list_vfs"
  by (auto simp: writes_upto_def list_vfs_def)

lemma sample_kernel_facts:
  "stores_at id (vfs_write sample_kernel)" "writes_own_disk sample_kernel"
  "\<forall>g. file_end_offset (snd (do_write_orig sample_kernel g)) = file_end_offset g" "lim < 2 ^ 63 \<Longrightarrow> writes_upto lim (vfs_write sample_kernel)"
  by (simp_all add: sample_kernel_def list_vfs_stores list_vfs_upto writes_own_disk_def log_frame_refl)

lemma sample_gadget_facts:
  assumes "length content < 2 ^ 64"
  shows "gadget_ready id (sample_gadget content m h t)" "log_of id (sample_gadget content m h t) = content"
    "end_offset_ok (sample_gadget content m h t)" "log_disk_named (sample_gadget content m h t)" "faststorage (sample_gadget content m h t)"
    "data_cbuff (sample_gadget content m h t) = \<lparr>cbuffer = Some \<lparr>cells = m, bsize = DBUFF + DATA_SLACK, live = True\<rparr>, chead = h, ctail = t\<rparr>"
proof -
  have bk: "log_backing (sample_gadget content m h t) = Inr \<lparr>f_pos = of_nat (length content), contents = content\<rparr>"
    by (simp add: log_backing_def get_lun_def sample_gadget_def sample_lun_def)
  have u: "unat (of_nat (length content) :: u64) = length content" using assms by (simp add: unat_of_nat take_bit_eq_mod)
  show "gadget_ready id (sample_gadget content m h t)"
    unfolding gadget_ready_def bk by (simp add: u) (simp add: sample_gadget_def databuf_ok_def)
  show "log_of id (sample_gadget content m h t) = content" by (simp add: log_of_def bk u)
  show "end_offset_ok (sample_gadget content m h t)" by (simp add: end_offset_ok_def bk) (simp add: sample_gadget_def)
  show "log_disk_named (sample_gadget content m h t)"
    by (auto simp: log_disk_named_def sample_gadget_def sample_lun_def less_Suc_eq)
  show "faststorage (sample_gadget content m h t)"
    "data_cbuff (sample_gadget content m h t) = \<lparr>cbuffer = Some \<lparr>cells = m, bsize = DBUFF + DATA_SLACK, live = True\<rparr>, chead = h, ctail = t\<rparr>"
    by (simp_all add: sample_gadget_def)
qed

text \<open>The command \<open>WRITE(10)\<close> of 512 bytes at block 7, its transfer, the copy, and a turn of the flusher.\<close>

definition write10 :: "8 word list" where
  "write10 = [WRITE_10, 0, 0, 0, 0, 7, 0, 0, 1, 0]"

definition received :: "char list \<Rightarrow> fsg_buffhd" where
  "received bs = \<lparr>bh_state = BUF_STATE_FULL, bh_buf = bs, outreq_status = 0, outreq_actual = of_nat (length bs),
     bulk_out_intended_length = of_nat (length bs)\<rparr>"

definition sample_events :: "char list \<Rightarrow> event list" where
  "sample_events bs = [Command write10 512 (Some 0) 0, Writer 0 False, Usb [received bs], Writer 0 False, Writer 0 False, Writer 0 False,
     Writer 0 False, Flusher, Flusher, Flusher]"

lemma sample_run:
  "\<exists>d. device_run sample_kernel (sample_events (replicate 512 CHR ''x'')) (sample_device []) = Inr d
     \<and> taken d = replicate 512 CHR ''x'' \<and> flushd d = FIdle \<and> writer d = WReply (- EIO)"
  by (simp add: sample_events_def sample_device_def sample_gadget_def sample_kernel_def sample_usb_def sample_lun_def write10_def received_def
      scsi_write_def hardlog_write_start_def get_lun_def get_unaligned_be32_def WRITE_6_def WRITE_10_def reserved_bits_def Let_def
      write_turn_def queue_request_def drain_buffer_def get_bh_def set_bh_def next_bh_def clipped_amount_def round_down_def empty_write_def
      make_space_in_cbuff_dev_def copy_data_def copied_bytes_def flush_ranges_def fs_write_dev_def list_vfs_def set_lun_def set_tail_def
      DBUFF_eq DATA_SLACK_eq store_def load_at_def load_def)

lemma sample_device_ok: "device_ok id (sample_device [])"
  using sample_gadget_facts [of "[]"] by (simp add: device_ok_def sample_device_def flush_pc_ok_def)

lemma fresh_stream:
  assumes "chead (data_cbuff (gad d)) = 0" and "ctail (data_cbuff (gad d)) = 0" and "flushd d = FIdle" and "taken d = []" and "writer d = WReply r"
  shows "first_lap d" "stream_ok data (log_of data (gad d)) d"
  using assms by (simp_all add: first_lap_def stream_ok_def head_seen_def dev_used_def flush_from_def)

section \<open>Properties\<close>

text \<open>
  C10: the log is append-only. Whatever commands the host sends, to whatever blocks and with
  whatever data, whatever the USB controller does to the transfer buffers, whether the
  writes of the file system succeed or not, and however the threads interleave: the bytes that
  the flusher has written stay as they are, and new ones only follow them.
\<close>

theorem log_append_only:
  assumes "stores_at data (vfs_write k)" and "writes_own_disk k" and "device_ok data d" and "device_run k es d = Inr d'"
  shows "prefix (log_of data (gad d)) (log_of data (gad d'))"
  using device_run_extends [OF assms] by blast

theorem log_append_only_witness:
  "\<exists>d'. device_run sample_kernel (sample_events (replicate 512 CHR ''x'')) (sample_device []) = Inr d'
     \<and> prefix (log_of id (gad (sample_device []))) (log_of id (gad d'))"
  using sample_run log_append_only [OF sample_kernel_facts(1,2) sample_device_ok] by blast

text \<open>
  C9: the device loses nothing in the first lap. Starting with an empty buffer, after any
  interleaving in which at most its capacity was taken from the host, and with room in the file
  system, what the flusher has written is a prefix of the old log followed by the taken bytes,
  in order; and between two turns of the flusher, the rest is intact in the buffer.
\<close>

theorem device_stores_stream:
  assumes "stores_at data (vfs_write k)" and "writes_upto lim (vfs_write k)" and "writes_own_disk k" and "device_ok data d"
    and "chead (data_cbuff (gad d)) = 0" and "ctail (data_cbuff (gad d)) = 0" and "flushd d = FIdle" and "taken d = []" and "writer d = WReply r"
    and "device_run k es d = Inr d'" and "length (taken d') \<le> DBUFF" and "length (log_of data (gad d)) + length (taken d') \<le> lim"
  shows "prefix (log_of data (gad d')) (log_of data (gad d) @ taken d')
    \<and> (flushd d' = FIdle \<longrightarrow> log_of data (gad d') @ dev_pending (gad d') = log_of data (gad d) @ taken d')"
proof -
  have "stream_ok data (log_of data (gad d)) d'"
    by (rule first_lap_run [OF assms(1-4) fresh_stream [OF assms(5-9)] assms(10-12)])
  then show ?thesis
    by (elim stream_okE) (auto simp: flush_from_def dev_pending_def dev_used_def intro: prefixI [OF sym])
qed

theorem device_stores_stream_witness:
  "\<exists>d'. device_run sample_kernel (sample_events (replicate 512 CHR ''x'')) (sample_device []) = Inr d'
     \<and> log_of id (gad d') @ dev_pending (gad d') = replicate 512 CHR ''x''"
proof -
  obtain d' where d': "device_run sample_kernel (sample_events (replicate 512 CHR ''x'')) (sample_device []) = Inr d'"
      "taken d' = replicate 512 CHR ''x''" "flushd d' = FIdle"
    using sample_run by blast
  have s: "chead (data_cbuff (gad (sample_device []))) = 0" "ctail (data_cbuff (gad (sample_device []))) = 0"
      "flushd (sample_device []) = FIdle" "taken (sample_device []) = []" "writer (sample_device []) = WReply 0"
      "log_of id (gad (sample_device [])) = []"
    using sample_gadget_facts [of "[]"] by (simp_all add: sample_device_def)
  show ?thesis
    using device_stores_stream [OF sample_kernel_facts(1) sample_kernel_facts(4) [of "2 ^ 62"] sample_kernel_facts(2) sample_device_ok s(1-5) d'(1)]
      d' s(6) by (simp add: DBUFF_eq)
qed

text \<open>
  C19: with transfers of one length that divides the capacity, the device never loses anything.
  For any number of laps, if every copy takes the same number of bytes, a divisor of the
  capacity (such as a full transfer buffer of 16384 bytes), the written log is a prefix of the old log and the taken bytes.
\<close>

theorem unit_transfers_stored:
  assumes "stores_at data (vfs_write k)" and "writes_upto lim (vfs_write k)" and "writes_own_disk k" and "device_ok data d"
    and "b dvd DBUFF" and "chead (data_cbuff (gad d)) = 0" and "ctail (data_cbuff (gad d)) = 0" and "flushd d = FIdle" and "taken d = []"
    and "writer d = WReply r" and "at_copies (copies_of b) k es d" and "device_run k es d = Inr d'" and "length (log_of data (gad d)) + length (taken d') \<le> lim"
  shows "prefix (log_of data (gad d')) (log_of data (gad d) @ taken d')"
proof -
  have u: "in_units b d" using assms(6-8) by (simp add: in_units_def)
  have "stream_ok data (log_of data (gad d)) d'"
    by (rule units_run [OF assms(1-3,5,4) u fresh_stream(2) [OF assms(6-10)] assms(11-13)])
  then show ?thesis by (elim stream_okE) (auto intro: prefixI [OF sym])
qed

lemma sample_copies: "at_copies (copies_of 512) sample_kernel (sample_events (replicate 512 CHR ''x'')) (sample_device [])"
  by (simp add: sample_events_def sample_device_def sample_gadget_def sample_kernel_def sample_usb_def sample_lun_def write10_def received_def
      scsi_write_def hardlog_write_start_def get_lun_def get_unaligned_be32_def WRITE_6_def WRITE_10_def reserved_bits_def Let_def
      write_turn_def queue_request_def drain_buffer_def get_bh_def set_bh_def next_bh_def clipped_amount_def round_down_def empty_write_def
      make_space_in_cbuff_dev_def copy_data_def copied_bytes_def flush_ranges_def fs_write_dev_def list_vfs_def set_lun_def set_tail_def
      DBUFF_eq DATA_SLACK_eq store_def load_at_def load_def copies_of_def)

theorem unit_transfers_stored_witness:
  "\<exists>d'. device_run sample_kernel (sample_events (replicate 512 CHR ''x'')) (sample_device []) = Inr d'
     \<and> prefix (log_of id (gad d')) (replicate 512 CHR ''x'')"
proof -
  obtain d' where d': "device_run sample_kernel (sample_events (replicate 512 CHR ''x'')) (sample_device []) = Inr d'"
      "taken d' = replicate 512 CHR ''x''" "flushd d' = FIdle"
    using sample_run by blast
  have s: "chead (data_cbuff (gad (sample_device []))) = 0" "ctail (data_cbuff (gad (sample_device []))) = 0"
      "flushd (sample_device []) = FIdle" "taken (sample_device []) = []" "writer (sample_device []) = WReply 0"
      "log_of id (gad (sample_device [])) = []"
    using sample_gadget_facts [of "[]"] by (simp_all add: sample_device_def)
  have b: "512 dvd DBUFF" by (simp add: DBUFF_eq)
  show ?thesis
    using unit_transfers_stored [OF sample_kernel_facts(1) sample_kernel_facts(4) [of "2 ^ 62"] sample_kernel_facts(2) sample_device_ok b s(1-5)
        sample_copies d'(1)] d' s(6) by simp
qed





text \<open>
  C38: a full buffer is never flushed. When the circular buffer is exactly full between two
  turns of the flusher, and the gadget waits for room, then whatever happens afterwards, the
  gadget waits and the log and the buffer stay as they are: head and tail are at the same index,
  which the flusher takes for an empty buffer.
\<close>

theorem full_buffer_stuck:
  assumes "dev_used (gad d) = DBUFF" and "flushd d = FIdle" and "writer d = WSpace v i a"
  shows "\<exists>d'. device_run k es d = Inr d' \<and> writer d' = WSpace v i a \<and> log_of data (gad d') = log_of data (gad d)
    \<and> dev_used (gad d') = DBUFF \<and> taken d' = taken d"
proof -
  have "stuck v i a d" using assms by (simp add: stuck_def)
  then have "\<exists>d'. device_run k es d = Inr d' \<and> stuck v i a d' \<and> log_of data (gad d') = log_of data (gad d) \<and> taken d' = taken d"
  proof (induction es arbitrary: d)
    case (Cons e es)
    obtain d1 where d1: "device_step k e d = Inr d1" "stuck v i a d1" "log_of data (gad d1) = log_of data (gad d)" "taken d1 = taken d"
      using stuck_step [OF "Cons.prems"] by blast
    then show ?case using "Cons.IH" [OF d1(2)] by auto
  qed simp
  then show ?thesis by (auto simp: stuck_def)
qed

definition full_device :: "char list device" where
  "full_device = \<lparr>gad = sample_gadget ''old'' (\<lambda>_. CHR ''x'') 536870912 0, flushd = FIdle,
     writer = WSpace \<lparr>get_some_more = False, usb_offset = 512, file_offset = 0, amount_left_to_req = 0, amount_left_to_write = 512\<rparr> 0 512,
     caller = RIdle, answers = [], taken = []\<rparr>"

theorem full_buffer_stuck_witness:
  "\<exists>d'. device_run sample_kernel [Flusher, Writer 0 False, Flusher, Flusher, Writer 0 False] full_device = Inr d' \<and> log_of id (gad d') = ''old''"
proof -
  have "dev_used (gad full_device) = DBUFF" "log_of id (gad full_device) = ''old''"
    using sample_gadget_facts [of "''old''"] by (simp_all add: full_device_def dev_used_def DBUFF_eq)
  then show ?thesis
    using full_buffer_stuck [of full_device _ 0 512 sample_kernel "[Flusher, Writer 0 False, Flusher, Flusher, Writer 0 False]" id]
    by (auto simp: full_device_def)
qed

text \<open>
  A transfer that crosses the capacity is lost behind it. Its rest goes to the slack of the
  allocation; the queue continues with what the start of the buffer held before.
\<close>

theorem straddling_transfer_lost:
  assumes "writer d = WCopy v i a h" and "head_seen (writer d) (gad d)" and "device_step k (Writer rc signal) d = Inr d'"
    and "dev_used (gad d) + unat a \<le> DBUFF" and "DBUFF < unat h mod DBUFF + unat a"
  defines "r \<equiv> DBUFF - unat h mod DBUFF" and "bs \<equiv> copied_bytes (writer d) (gad d)"
  shows "dev_pending (gad d') = dev_pending (gad d) @ take r bs @ read_mem (dev_mem (gad d)) 0 (unat a - r)"
proof -
  let ?h = "chead (data_cbuff (gad d))" and ?t = "ctail (data_cbuff (gad d))"
  have h: "h = ?h" using assms(1,2) by (simp add: head_seen_def)
  obtain pc g where g: "copy_data signal v i a h (gad d) = Inr (pc, g)" "gad d' = g" using assms(1,3) by auto
  note eff = copy_data_effect [OF g(1), folded assms(1), folded bs_def]
  have used: "dev_used (gad d') = dev_used (gad d) + length bs"
    using dev_ring.used_add [of ?h ?t "length bs"] assms(4) dev_ring.cap_lt eff(1,3,4) g(2) by (simp add: dev_used_def)
  have "ring_bytes DBUFF (write_mem (dev_mem (gad d)) (unat ?h mod DBUFF) bs) (unat ?t) (unat (?h - ?t) + length bs)
      = ring_bytes DBUFF (dev_mem (gad d)) (unat ?t) (unat (?h - ?t)) @ take r bs @ read_mem (dev_mem (gad d)) 0 (length bs - r)"
    unfolding r_def h using assms(4,5) eff(1) h by (intro dev_ring.push_straddles) (simp_all add: dev_used_def)
  then show ?thesis using used eff(1,2,4) g(2) h by (simp add: dev_pending_def dev_used_def)
qed

definition straddling_device :: "char list device" where
  "straddling_device = \<lparr>gad = (sample_gadget ''old'' (\<lambda>_. CHR ''s'') 536870400 536870400)\<lparr>buffhds := [received (replicate 1024 CHR ''x'')], curlun := Some 0\<rparr>,
     flushd = FIdle, writer = WCopy \<lparr>get_some_more = False, usb_offset = 1024, file_offset = 0, amount_left_to_req = 0, amount_left_to_write = 1024\<rparr> 0 1024 536870400,
     caller = RIdle, answers = [], taken = []\<rparr>"

theorem straddling_transfer_lost_witness:
  "\<exists>d'. device_step sample_kernel (Writer 0 False) straddling_device = Inr d'
     \<and> dev_pending (gad d') = replicate 512 CHR ''x'' @ replicate 512 CHR ''s''"
proof -
  have c: "copied_bytes (writer straddling_device) (gad straddling_device) = replicate 1024 CHR ''x''"
    by (simp add: straddling_device_def copied_bytes_def received_def)
  have f: "dev_used (gad straddling_device) = 0" "dev_pending (gad straddling_device) = []" "dev_mem (gad straddling_device) = (\<lambda>_. CHR ''s'')"
    "head_seen (writer straddling_device) (gad straddling_device)"
    by (simp_all add: straddling_device_def dev_used_def dev_pending_def dev_mem_def head_seen_def sample_gadget_def DBUFF_eq)
  have w: "writer straddling_device = WCopy \<lparr>get_some_more = False, usb_offset = 1024, file_offset = 0, amount_left_to_req = 0, amount_left_to_write = 1024\<rparr> 0 1024 536870400"
    by (simp add: straddling_device_def)
  obtain d' where d': "device_step sample_kernel (Writer 0 False) straddling_device = Inr d'"
    by (simp add: straddling_device_def sample_gadget_def received_def copy_data_def get_bh_def DBUFF_eq DATA_SLACK_eq store_def Let_def empty_write_def)
  have m: "(536870400 :: nat) mod DBUFF = 536870400" by (simp add: DBUFF_eq)
  have "read_mem (\<lambda>_. CHR ''s'') 0 512 = replicate 512 CHR ''s''" by (rule nth_equalityI) simp_all
  then have "dev_pending (gad d') = replicate 512 CHR ''x'' @ replicate 512 CHR ''s''"
    using straddling_transfer_lost [OF w f(4) d'] c f m by (simp add: DBUFF_eq)
  with d' show ?thesis by blast
qed




text \<open>
  A request that arrives during a poll is lost. When the library's call has copied its answer
  out but not yet cleared the flag, a write to the request disk sets the flag, and the call clears it: no answer ever reports it.
\<close>

theorem request_lost_in_poll:
  assumes "caller d = RCopied" and "writer d = WReply r" and "lun_name (luns (gad d) ! i) = ''lun1''" and "i < length (luns (gad d))"
    and "do_write_orig k ((gad d)\<lparr>cmnd := cdb, data_size_from_cmnd := n, curlun := Some i\<rparr>) = (None, (gad d)\<lparr>cmnd := cdb, data_size_from_cmnd := n, curlun := Some i\<rparr>)"
  shows "\<exists>d1 d2. device_step k (Command cdb n (Some i) 0) d = Inr d1 \<and> server_request_flag (gad d1)
    \<and> device_step k (Request copied) d1 = Inr d2 \<and> \<not> server_request_flag (gad d2) \<and> answers d2 = answers d \<and> caller d2 = RIdle"
  using assms by (simp add: scsi_write_def get_lun_def do_write_def request_clear_def)

theorem request_lost_in_poll_witness:
  "\<exists>d1 d2. device_step sample_kernel (Command write10 512 (Some 1) 0) ((sample_device [])\<lparr>caller := RCopied\<rparr>) = Inr d1 \<and> server_request_flag (gad d1)
    \<and> device_step sample_kernel (Request True) d1 = Inr d2 \<and> \<not> server_request_flag (gad d2) \<and> answers d2 = [] \<and> caller d2 = RIdle"
  using request_lost_in_poll [where d = "(sample_device [])\<lparr>caller := RCopied\<rparr>" and r = 0 and i = 1 and k = sample_kernel
      and cdb = write10 and n = 512 and copied = True]
  by (simp add: sample_device_def sample_gadget_def sample_lun_def sample_kernel_def)

text \<open>
  A write to a disk that does not exist stops the device. The name of the addressed disk is
  looked at before the reply of \<open>check_command\<close>, through a pointer that is NULL then.
\<close>

theorem missing_disk_faults:
  assumes "writer d = WReply r"
  shows "device_step k (Command cdb n None checked) d = Inl NullDeref"
  using assms by (simp add: scsi_write_def get_lun_def)

theorem missing_disk_faults_witness:
  "device_step sample_kernel (Command write10 512 None (- EINVAL)) (sample_device []) = Inl NullDeref"
  by (rule missing_disk_faults [of _ 0]) (simp add: sample_device_def)

lemma ioctl_init_returns:
  assumes "\<not> is_err (class_create e)"
  shows "\<exists>r c. hardlog_ioctl_init e c0 = Inr (r, c)"
  using assms by (cases "class_create e") (auto simp: hardlog_ioctl_init_def Let_def)

text \<open>
  C37: the set-up succeeds only when \<open>vfs_stat\<close> fails. With the log's file open, memory, a thread and the
  character device available, a set-up whose \<open>vfs_stat\<close> returns 0, which is success, gives up before it
  allocates the buffer; otherwise it leaves the gadget ready, with an empty buffer.
\<close>

theorem gadget_setup_outcome:
  assumes "filename \<noteq> []" and "i < length (luns (shared m))" and "filp (luns (shared m) ! i) = Ptr f"
    and "unat (f_pos f) \<le> length (data (contents f))"
    and "gvmalloc e (DBUFF + DATA_SLACK) = Some b" and "live b" and "bsize b = DBUFF + DATA_SLACK"
    and "kthread_run e = Ptr ()" and "\<not> is_err (class_create (chr_env e))"
  shows "\<exists>ok m'. hardlog_setup e filename i m = Inr (ok, m') \<and> ok = (vfs_stat e \<noteq> 0)
    \<and> (if ok then gadget_ready data (shared m') \<and> dev_used (shared m') = 0 else data_cbuff (shared m') = data_cbuff (shared m))"
proof (cases "vfs_stat e = 0")
  case True
  then show ?thesis using assms(1-3) by (auto simp: hardlog_setup_def get_lun_def Let_def)
next
  case False
  let ?g = "(shared m)\<lparr>device_filp := Ptr (), device_lun := Some i, data_cbuff := \<lparr>cbuffer = Some b, chead = 0, ctail = 0\<rparr>\<rparr>"
  let ?m = "m\<lparr>shared := ?g, hardlog_flushd_task := Ptr ()\<rparr>"
  obtain r c where c: "hardlog_ioctl_init (chr_env e) (gchrdev m) = Inr (r, c)"
    using ioctl_init_returns [OF assms(9)] by blast
  have cb: "(data_cbuff (shared m))\<lparr>cbuffer := Some b, chead := 0, ctail := 0\<rparr> = \<lparr>cbuffer = Some b, chead = 0, ctail = 0\<rparr>" by simp
  have "hardlog_setup e filename i m = Inr (True, if ioctl_on m then ?m\<lparr>gchrdev := c\<rparr> else ?m)"
    using assms(1-3,5,8) False c by (simp add: hardlog_setup_def get_lun_def Let_def hardlog_flush_setup_def cb)
  moreover have "gadget_ready data ?g"
    using assms(2-4,6,7) by (simp add: gadget_ready_def databuf_ok_def log_backing_def get_lun_def)
  ultimately show ?thesis using False by (auto simp: dev_used_def)
qed

definition sample_setup_env :: "int \<Rightarrow> gadget_env" where
  "sample_setup_env st = \<lparr>vfs_stat = st, gvmalloc = (\<lambda>n. Some \<lparr>cells = (\<lambda>_. NUL), bsize = n, live = True\<rparr>), kthread_run = Ptr (),
     chr_env = \<lparr>alloc_chrdev_region = 0, cdev_add = 0, class_create = Ptr (), device_create = Ptr ()\<rparr>\<rparr>"

definition sample_module :: "char list gadget_module" where
  "sample_module = \<lparr>shared = (sample_gadget ''old'' (\<lambda>_. NUL) 0 0)\<lparr>device_lun := None, data_cbuff := \<lparr>cbuffer = None, chead = 0, ctail = 0\<rparr>\<rparr>,
     hardlog_flushd_task = NullPtr, trim_buffer = None, ioctl_on = True,
     gchrdev = \<lparr>region = False, hardlog_cdev = False, hardlog_class = NullPtr, class_live = False, node = False\<rparr>\<rparr>"

theorem gadget_setup_outcome_witness:
  "(\<exists>m'. hardlog_setup (sample_setup_env 0) ''log'' 0 sample_module = Inr (False, m'))
   \<and> (\<exists>m'. hardlog_setup (sample_setup_env (- 2)) ''log'' 0 sample_module = Inr (True, m') \<and> gadget_ready id (shared m'))"
proof -
  have f: "filp (luns (shared sample_module) ! 0) = Ptr \<lparr>f_pos = 3, contents = ''old''\<rparr>" "0 < length (luns (shared sample_module))"
    by (simp_all add: sample_module_def sample_gadget_def sample_lun_def)
  have e: "gvmalloc (sample_setup_env st) (DBUFF + DATA_SLACK) = Some \<lparr>cells = (\<lambda>_. NUL), bsize = DBUFF + DATA_SLACK, live = True\<rparr>"
    "kthread_run (sample_setup_env st) = Ptr ()" "\<not> is_err (class_create (chr_env (sample_setup_env st)))" "vfs_stat (sample_setup_env st) = st" for st
    by (simp_all add: sample_setup_env_def)
  have s: "\<exists>ok m'. hardlog_setup (sample_setup_env st) ''log'' 0 sample_module = Inr (ok, m') \<and> ok = (st \<noteq> 0) \<and> (ok \<longrightarrow> gadget_ready id (shared m'))" for st
    using gadget_setup_outcome [of "''log''" 0 sample_module _ id "sample_setup_env st", OF _ f(2,1) _ e(1) _ _ e(2,3)] unfolding e(4) by fastforce
  show ?thesis using s [of 0] s [of "- 2"] by auto
qed

text \<open>A flusher that cannot be started: the clean-up follows the error pointer.\<close>

theorem failed_flusher_faults:
  assumes "filename \<noteq> []" and "i < length (luns (shared m))" and "filp (luns (shared m) ! i) = Ptr f" and "vfs_stat e \<noteq> 0"
    and "gvmalloc e (DBUFF + DATA_SLACK) = Some b" and "kthread_run e = ErrPtr x"
  shows "hardlog_setup e filename i m = Inl NullDeref"
  using assms by (simp add: hardlog_setup_def get_lun_def Let_def hardlog_flush_setup_def hardlog_teardown_def hardlog_flush_teardown_def deref_def)

end
