(* ===== verification/GD_Transfer.thy ===== *)
theory GD_Transfer
  imports GD_Gadget
begin

text \<open>
  One write command of the host, under every schedule: the transfer buffers form a ring in which the
  driver queues requests, the USB controller fills them in any order of completion with the host's data, and
  \<open>do_hardlog_write\<close> copies them out. The theory shows that what is copied is the host's data, whole and in order.

  A \<open>transfer\<close> is the data of the command cut into pieces of the size of a transfer buffer; the
  piece \<open>j\<close> goes through the buffer \<open>j\<close> places after the one the command starts with. The invariant
  says that \<open>m\<close> pieces were copied, \<open>c\<close> requested, and the buffers of the pieces between hold what they
  should.
\<close>

section \<open>Pieces\<close>

record transfer =
  tr_len :: nat
  tr_data :: "char list"
  tr_slot :: nat
  tr_off :: int

definition piece :: "transfer \<Rightarrow> nat \<Rightarrow> char list" where
  "piece t j = take (tr_len t) (drop (j * tr_len t) (tr_data t))"

text \<open>The number of bytes of the first \<open>j\<close> pieces.\<close>

definition upto_piece :: "transfer \<Rightarrow> nat \<Rightarrow> nat" where
  "upto_piece t j = min (length (tr_data t)) (j * tr_len t)"

text \<open>The number of pieces that hold the first \<open>q\<close> bytes.\<close>

definition pieces_for :: "transfer \<Rightarrow> nat \<Rightarrow> nat" where
  "pieces_for t q = (q + (tr_len t - 1)) div tr_len t"

lemma length_piece: "length (piece t j) = min (tr_len t) (length (tr_data t) - j * tr_len t)"
  by (simp add: piece_def)

lemma upto_piece_0 [simp]: "upto_piece t 0 = 0"
  by (simp add: upto_piece_def)

lemma upto_piece_le [simp]: "upto_piece t j \<le> length (tr_data t)"
  by (simp add: upto_piece_def)

lemma upto_piece_Suc: "upto_piece t (Suc j) = upto_piece t j + length (piece t j)"
  by (auto simp: upto_piece_def length_piece min_def)

lemma upto_piece_less: "upto_piece t j < length (tr_data t) \<longleftrightarrow> j * tr_len t < length (tr_data t)"
  by (auto simp: upto_piece_def)

lemma upto_piece_mono: "i \<le> j \<Longrightarrow> upto_piece t i \<le> upto_piece t j"
  by (simp add: upto_piece_def min.coboundedI2)

lemma take_upto_piece_Suc: "take (upto_piece t (Suc j)) (tr_data t) = take (upto_piece t j) (tr_data t) @ piece t j"
proof (cases "j * tr_len t < length (tr_data t)")
  case True
  then have "upto_piece t j = j * tr_len t" by (simp add: upto_piece_def)
  moreover have "take (upto_piece t (Suc j)) (tr_data t) = take (j * tr_len t + tr_len t) (tr_data t)"
    by (simp add: upto_piece_def min_def add.commute)
  ultimately show ?thesis by (simp add: piece_def take_add)
next
  case False
  then show ?thesis by (simp add: upto_piece_def piece_def)
qed

text \<open>A number of requested pieces is recovered from the number of bytes.\<close>

lemma pieces_for_upto:
  assumes "0 < tr_len t" and "\<forall>j < c. j * tr_len t < length (tr_data t)"
  shows "pieces_for t (upto_piece t c) = c"
proof (cases c)
  case 0
  then show ?thesis using assms(1) by (simp add: pieces_for_def)
next
  case (Suc j)
  then have j: "j * tr_len t < length (tr_data t)" using assms(2) by simp
  let ?B = "tr_len t" and ?q = "upto_piece t c"
  have q: "j * ?B < ?q" "?q \<le> j * ?B + ?B" using j assms(1) Suc by (auto simp: upto_piece_def)
  have "(?q + (?B - 1)) div ?B = Suc j"
  proof (rule div_nat_eqI)
    show "?B * Suc j \<le> ?q + (?B - 1)" using q(1) by (simp add: mult.commute)
    show "?q + (?B - 1) < ?B * Suc (Suc j)" using q(2) assms(1) by (simp add: mult.commute)
  qed
  then show ?thesis using Suc by (simp add: pieces_for_def)
qed

section \<open>The ring of buffers\<close>

definition slot :: "transfer \<Rightarrow> 'f gadget \<Rightarrow> nat \<Rightarrow> nat" where
  "slot t g j = (tr_slot t + j) mod length (buffhds g)"

text \<open>A buffer holds a piece; a buffer is queued for a piece and possibly filled.\<close>

definition holds_piece :: "transfer \<Rightarrow> nat \<Rightarrow> fsg_buffhd \<Rightarrow> bool" where
  "holds_piece t j bh \<longleftrightarrow> bulk_out_intended_length bh = of_nat (length (piece t j))
     \<and> outreq_status bh = 0 \<and> outreq_actual bh = of_nat (length (piece t j)) \<and> prefix (piece t j) (bh_buf bh)"

definition queued_for :: "transfer \<Rightarrow> nat \<Rightarrow> fsg_buffhd \<Rightarrow> bool" where
  "queued_for t j bh \<longleftrightarrow> bulk_out_intended_length bh = of_nat (length (piece t j))
     \<and> (bh_state bh = BUF_STATE_BUSY \<or> bh_state bh = BUF_STATE_FULL \<and> holds_piece t j bh)"

definition outstanding :: "transfer \<Rightarrow> nat \<Rightarrow> nat \<Rightarrow> 'f gadget \<Rightarrow> bool" where
  "outstanding t m c g \<longleftrightarrow> m \<le> c \<and> c \<le> m + length (buffhds g)
     \<and> (\<forall>j. m \<le> j \<and> j < c \<longrightarrow> queued_for t j (buffhds g ! slot t g j))
     \<and> (\<forall>i < length (buffhds g). (\<forall>j. m \<le> j \<and> j < c \<longrightarrow> i \<noteq> slot t g j) \<longrightarrow> bh_state (buffhds g ! i) = BUF_STATE_EMPTY)"

lemma mod_window_eq:
  assumes "(s + i) mod n = (s + j) mod (n :: nat)" and "i \<le> j" and "j < i + n"
  shows "i = j"
proof -
  have "n dvd (s + j) - (s + i)" using assms(1,2) by (metis add_le_cancel_left mod_eq_dvd_iff_nat)
  then have "n dvd j - i" by simp
  then show ?thesis using assms(2,3) by (metis add_less_imp_less_left diff_is_0_eq le_add_diff_inverse le_antisym nat_dvd_not_less neq0_conv)
qed

lemma slot_inj:
  assumes "slot t g i = slot t g j" and "m \<le> i" and "i < m + length (buffhds g)" and "m \<le> j" and "j < m + length (buffhds g)"
  shows "i = j"
  using assms mod_window_eq [of "tr_slot t" i "length (buffhds g)" j] mod_window_eq [of "tr_slot t" j "length (buffhds g)" i]
  by (cases "i \<le> j") (auto simp: slot_def)

lemma slot_less [simp]: "buffhds g \<noteq> [] \<Longrightarrow> slot t g j < length (buffhds g)"
  by (simp add: slot_def)

lemma next_slot: "buffhds g \<noteq> [] \<Longrightarrow> next_bh (slot t g j) g = slot t g (Suc j)"
  using mod_less_divisor [of "length (buffhds g)" "tr_slot t + j"]
  by (auto simp: next_bh_def slot_def mod_Suc simp del: mod_less_divisor)

lemma slot_cong: "length (buffhds g') = length (buffhds g) \<Longrightarrow> slot t g' j = slot t g j"
  by (simp add: slot_def)

text \<open>Whole blocks are not rounded.\<close>

lemma round_down_multiple:
  assumes "k < 32" and "2 ^ k dvd unat x"
  shows "round_down x (2 ^ k) = x"
proof (rule bit_word_eqI)
  fix i assume "i < LENGTH(32)"
  have "unat (take_bit k x) = take_bit k (unat x)" by (rule unsigned_take_bit_eq)
  then have "unat (take_bit k x) = 0" using assms(2) by (simp only: take_bit_eq_mod dvd_eq_mod_eq_0)
  then have "take_bit k x = 0" by (simp only: unat_eq_zero)
  then have "\<not> (bit x i \<and> i < k)" by (metis bit_take_bit_iff bit_0_eq bot_apply bot_bool_def)
  moreover have "round_down x (2 ^ k) = x AND NOT (mask k)" by (simp add: round_down_def mask_eq_exp_minus_1)
  ultimately show "bit (round_down x (2 ^ k)) i = bit x i" using \<open>i < LENGTH(32)\<close> by (auto simp: bit_simps)
qed

section \<open>The invariant of a command\<close>

text \<open>The addressed disk has room for the data, and blocks whose size divides the buffers and the data.\<close>

definition disk_ok :: "transfer \<Rightarrow> 'f gadget \<Rightarrow> bool" where
  "disk_ok t g \<longleftrightarrow> (\<exists>l k. get_lun (curlun g) g = Inr l \<and> tr_off t + int (length (tr_data t)) \<le> file_length l
     \<and> blksize l = 2 ^ k \<and> k < 32 \<and> 2 ^ k dvd tr_len t \<and> 2 ^ k dvd length (tr_data t))"

definition sizes_ok :: "transfer \<Rightarrow> bool" where
  "sizes_ok t \<longleftrightarrow> 0 < tr_len t \<and> tr_len t < 2 ^ 32 \<and> length (tr_data t) < 2 ^ 32"

text \<open>The driver sets the length of a request and starts it.\<close>

definition usb_good :: "usb_ops \<Rightarrow> transfer \<Rightarrow> bool" where
  "usb_good ops t \<longleftrightarrow> FSG_BUFLEN ops = of_nat (tr_len t) \<and>
     (\<forall>bh len. \<exists>bh'. start_out_transfer ops (set_bulk_out_req_length ops bh len) = Some bh'
        \<and> bh_state bh' = BUF_STATE_BUSY \<and> bulk_out_intended_length bh' = len)"

definition locals_ok :: "transfer \<Rightarrow> nat \<Rightarrow> nat \<Rightarrow> write_locals \<Rightarrow> bool" where
  "locals_ok t m c v \<longleftrightarrow> (\<forall>j < c. j * tr_len t < length (tr_data t))
     \<and> amount_left_to_write v = of_nat (length (tr_data t) - upto_piece t m)
     \<and> amount_left_to_req v = of_nat (length (tr_data t) - upto_piece t c)
     \<and> get_some_more v = (upto_piece t c < length (tr_data t))
     \<and> usb_offset v = tr_off t + int (upto_piece t c) \<and> file_offset v = tr_off t + int (upto_piece t m)"

text \<open>The loop copies the piece \<open>m\<close> from its buffer, which is free again for the controller only after the next request.\<close>

definition copying :: "transfer \<Rightarrow> nat \<Rightarrow> nat \<Rightarrow> write_locals \<Rightarrow> nat \<Rightarrow> u32 \<Rightarrow> 'f gadget \<Rightarrow> bool" where
  "copying t m c v i a g \<longleftrightarrow> m < c \<and> locals_ok t m c v \<and> i = slot t g m \<and> a = of_nat (length (piece t m))
     \<and> holds_piece t m (buffhds g ! i) \<and> bh_state (buffhds g ! i) = BUF_STATE_EMPTY \<and> outstanding t (Suc m) c g \<and> c \<le> m + length (buffhds g)
     \<and> next_buffhd_to_fill g = slot t g c \<and> next_buffhd_to_drain g = slot t g (Suc m)"

text \<open>Between commands no buffer is in use.\<close>

definition buffers_free :: "'f gadget \<Rightarrow> bool" where
  "buffers_free g \<longleftrightarrow> buffhds g \<noteq> [] \<and> (\<forall>bh \<in> set (buffhds g). bh_state bh = BUF_STATE_EMPTY)
     \<and> next_buffhd_to_fill g = next_buffhd_to_drain g \<and> next_buffhd_to_fill g < length (buffhds g)"

definition transfer_inv :: "transfer \<Rightarrow> nat \<Rightarrow> nat \<Rightarrow> writer_pc \<Rightarrow> 'f gadget \<Rightarrow> bool" where
  "transfer_inv t m c pc g \<longleftrightarrow> buffhds g \<noteq> [] \<and> (case pc of
       WReply r \<Rightarrow> r = - EIO \<and> upto_piece t m = length (tr_data t) \<and> buffers_free g
     | WLoop v \<Rightarrow> locals_ok t m c v \<and> outstanding t m c g \<and> next_buffhd_to_fill g = slot t g c \<and> next_buffhd_to_drain g = slot t g m
     | WSpace v i a \<Rightarrow> copying t m c v i a g
     | WCopy v i a h \<Rightarrow> copying t m c v i a g)"

lemma disk_ok_frame:
  assumes "disk_ok t g" and "map lun_core (luns g') = map lun_core (luns g)" and "curlun g' = curlun g"
  shows "disk_ok t g'"
proof -
  obtain l k where l: "get_lun (curlun g) g = Inr l" "tr_off t + int (length (tr_data t)) \<le> file_length l"
     "blksize l = 2 ^ k \<and> k < 32 \<and> 2 ^ k dvd tr_len t \<and> 2 ^ k dvd length (tr_data t)"
    using assms(1) unfolding disk_ok_def by blast
  then obtain i where i: "curlun g = Some i" "i < length (luns g)" "l = luns g ! i" by (auto simp: get_lun_Inr)
  have "lun_core (luns g' ! i) = lun_core l" "length (luns g') = length (luns g)"
    using cores_nth [OF assms(2)] i by simp_all
  then show ?thesis unfolding disk_ok_def
    using l(2,3) i assms(3) by (intro exI [of _ "luns g' ! i"] exI [of _ k]) (simp add: get_lun_def lun_core_def)
qed

lemma small_word: "n < 2 ^ 32 \<Longrightarrow> unat (of_nat n :: u32) = n"
  by (simp add: unat_of_nat take_bit_eq_mod)

lemma small_word_eq_0: "n < 2 ^ 32 \<Longrightarrow> (of_nat n :: u32) = 0 \<longleftrightarrow> n = 0"
  using small_word [of n] by (metis unat_eq_zero)

lemma of_nat_minus_word: "m \<le> n \<Longrightarrow> (of_nat n :: u32) - of_nat m = of_nat (n - m)"
  by simp

lemma min_word:
  assumes "m < 2 ^ 32" and "n < 2 ^ 32"
  shows "min (of_nat m :: u32) (of_nat n) = of_nat (min m n)"
  using assms by (simp add: min_def word_le_nat_alt small_word)

text \<open>The next request is for the next piece.\<close>

lemma next_request_length:
  assumes "sizes_ok t" and "locals_ok t m c v" and "usb_good ops t"
  shows "min (amount_left_to_req v) (FSG_BUFLEN ops) = of_nat (length (piece t c))"
    "amount_left_to_req v - of_nat (length (piece t c)) = of_nat (length (tr_data t) - upto_piece t (Suc c))"
proof -
  let ?n = "length (tr_data t)" and ?q = "upto_piece t c"
  have s: "?n - ?q < 2 ^ 32" "tr_len t < 2 ^ 32" using assms(1) by (auto simp: sizes_ok_def)
  have q: "length (piece t c) = min (?n - ?q) (tr_len t)"
    by (auto simp: length_piece upto_piece_def min_def)
  show "min (amount_left_to_req v) (FSG_BUFLEN ops) = of_nat (length (piece t c))"
    using assms(2,3) min_word [OF s] q by (simp add: locals_ok_def usb_good_def)
  have "length (piece t c) \<le> ?n - ?q" using q by simp
  then show "amount_left_to_req v - of_nat (length (piece t c)) = of_nat (?n - upto_piece t (Suc c))"
    using assms(2) of_nat_minus_word [of "length (piece t c)" "?n - ?q"] by (simp add: locals_ok_def upto_piece_Suc)
qed

text \<open>A new request extends the window of outstanding buffers.\<close>

lemma outstanding_request:
  assumes "outstanding t m c g" and "c < m + length (buffhds g)" and "queued_for t c bh" and "buffhds g' = (buffhds g)[slot t g c := bh]"
  shows "outstanding t m (Suc c) g'"
proof -
  have len: "length (buffhds g') = length (buffhds g)" using assms(4) by simp
  note sl = slot_cong [OF len]
  have ne: "slot t g j \<noteq> slot t g c" if "m \<le> j" "j < c" for j
    using slot_inj [of t g j c m] that assms(2) by auto
  have "m \<le> c" using assms(1) by (simp add: outstanding_def)
  then have "buffhds g \<noteq> []" using assms(2) by auto
  then have sc: "slot t g c < length (buffhds g)" by simp
  show ?thesis
    unfolding outstanding_def sl len
  proof (intro conjI allI impI)
    show "m \<le> Suc c" "Suc c \<le> m + length (buffhds g)" using \<open>m \<le> c\<close> assms(2) by simp_all
  next
    fix j assume j: "m \<le> j \<and> j < Suc c"
    show "queued_for t j (buffhds g' ! slot t g j)"
    proof (cases "j = c")
      case True
      then show ?thesis using assms(3,4) sc by simp
    next
      case False
      then have "slot t g c \<noteq> slot t g j" using ne [of j] j by auto
      then show ?thesis using assms(1,4) j False by (simp add: outstanding_def)
    qed
  next
    fix i assume i: "i < length (buffhds g)" "\<forall>j. m \<le> j \<and> j < Suc c \<longrightarrow> i \<noteq> slot t g j"
    then have "slot t g c \<noteq> i" using \<open>m \<le> c\<close> by auto
    then show "bh_state (buffhds g' ! i) = BUF_STATE_EMPTY" using assms(1,4) i by (simp add: outstanding_def)
  qed
qed

text \<open>Taking the oldest buffer shrinks it.\<close>

lemma outstanding_drain:
  assumes "outstanding t m c g" and "m < c" and "bh_state bh = BUF_STATE_EMPTY" and "buffhds g' = (buffhds g)[slot t g m := bh]"
  shows "outstanding t (Suc m) c g'"
proof -
  have len: "length (buffhds g') = length (buffhds g)" using assms(4) by simp
  note sl = slot_cong [OF len]
  have ne: "slot t g j \<noteq> slot t g m" if "Suc m \<le> j" "j < c" for j
  proof
    have "c \<le> m + length (buffhds g)" using assms(1) by (simp add: outstanding_def)
    moreover assume "slot t g j = slot t g m"
    ultimately have "j = m" using that by (intro slot_inj [of t g j m m]) linarith+
    then show False using that by simp
  qed
  have e: "bh_state (buffhds g ! i) = BUF_STATE_EMPTY"
    if "i < length (buffhds g)" "i \<noteq> slot t g m" "\<forall>j. Suc m \<le> j \<and> j < c \<longrightarrow> i \<noteq> slot t g j" for i
  proof -
    have "\<forall>j. m \<le> j \<and> j < c \<longrightarrow> i \<noteq> slot t g j" using that(2,3) by (metis le_neq_implies_less Suc_leI)
    then show ?thesis using assms(1) that(1) by (simp add: outstanding_def)
  qed
  have sm: "slot t g m < length (buffhds g)" using assms(1,2) by (cases "buffhds g = []") (auto simp: outstanding_def)
  show ?thesis
    unfolding outstanding_def sl len
  proof (intro conjI allI impI)
    show "Suc m \<le> c" "c \<le> Suc m + length (buffhds g)" using assms(1,2) by (simp_all add: outstanding_def)
  next
    fix j assume j: "Suc m \<le> j \<and> j < c"
    then have "slot t g m \<noteq> slot t g j" using ne [of j] by auto
    then show "queued_for t j (buffhds g' ! slot t g j)" using assms(1,4) j by (simp add: outstanding_def)
  next
    fix i assume i: "i < length (buffhds g)" "\<forall>j. Suc m \<le> j \<and> j < c \<longrightarrow> i \<noteq> slot t g j"
    show "bh_state (buffhds g' ! i) = BUF_STATE_EMPTY"
      using assms(3,4) sm e [OF i(1) _ i(2)] i(1) by (cases "i = slot t g m") auto
  qed
qed

lemma queued_not_empty: "queued_for t j bh \<Longrightarrow> bh_state bh \<noteq> BUF_STATE_EMPTY"
  by (auto simp: queued_for_def)

lemma loop_left: "sizes_ok t \<Longrightarrow> locals_ok t m c v \<Longrightarrow> amount_left_to_write v = 0 \<longleftrightarrow> upto_piece t m = length (tr_data t)"
proof -
  assume "sizes_ok t" "locals_ok t m c v"
  then have "amount_left_to_write v = of_nat (length (tr_data t) - upto_piece t m)" "length (tr_data t) - upto_piece t m < 2 ^ 32"
    by (auto simp only: locals_ok_def sizes_ok_def intro: le_less_trans [OF diff_le_self])
  then have "amount_left_to_write v = 0 \<longleftrightarrow> length (tr_data t) - upto_piece t m = 0" by (simp only: small_word_eq_0)
  then show ?thesis using upto_piece_le [of t m] by linarith
qed

lemma piece_small: "sizes_ok t \<Longrightarrow> length (piece t j) < 2 ^ 32"
  by (simp add: sizes_ok_def length_piece min_def)

lemma get_slot: "buffhds g \<noteq> [] \<Longrightarrow> get_bh (slot t g j) g = Inr (buffhds g ! slot t g j)"
  by (simp add: get_bh_def)

lemma set_bh_fields [simp]: "curlun (set_bh i bh g) = curlun g" "luns (set_bh i bh g) = luns g" "buffhds (set_bh i bh g) = (buffhds g)[i := bh]"
  by (simp_all add: set_bh_def)

lemma queue_request_inv:
  assumes "transfer_inv t m c (WLoop v) g" and "disk_ok t g" and "sizes_ok t" and "usb_good ops t"
    and "bh_state (buffhds g ! slot t g c) = BUF_STATE_EMPTY" and "get_some_more v"
    and "queue_request ops v (buffhds g ! slot t g c) g = Inr (pc, g')"
  shows "transfer_inv t m (Suc c) pc g'"
proof -
  let ?bh = "buffhds g ! slot t g c" and ?N = "length (buffhds g)" and ?len = "of_nat (length (piece t c)) :: u32"
  have i: "buffhds g \<noteq> []" "locals_ok t m c v" "outstanding t m c g" "next_buffhd_to_fill g = slot t g c" "next_buffhd_to_drain g = slot t g m"
    using assms(1) by (simp_all add: transfer_inv_def)
  have room: "c < m + ?N"
  proof (rule ccontr)
    assume "\<not> c < m + ?N"
    then have c: "c = m + ?N" using i(3) by (simp add: outstanding_def)
    then have "slot t g c = slot t g m" by (simp add: slot_def flip: add.assoc)
    moreover have "queued_for t m (buffhds g ! slot t g m)" using i(1,3) c by (simp add: outstanding_def)
    ultimately show False using queued_not_empty assms(5) by metis
  qed
  obtain l where l: "get_lun (curlun g) g = Inr l" "tr_off t + int (length (tr_data t)) \<le> file_length l"
    using assms(2) unfolding disk_ok_def by blast
  have more: "upto_piece t c < length (tr_data t)" using assms(6) i(2) by (simp add: locals_ok_def)
  then have off: "usb_offset v < file_length l" using l(2) i(2) by (simp add: locals_ok_def)
  note req = next_request_length [OF assms(3) i(2) assms(4)]
  obtain bh' where bh': "start_out_transfer ops (set_bulk_out_req_length ops ?bh ?len) = Some bh'"
      "bh_state bh' = BUF_STATE_BUSY" "bulk_out_intended_length bh' = ?len"
    using assms(4) unfolding usb_good_def by metis
  let ?v = "v\<lparr>usb_offset := usb_offset v + uint ?len, amount_left_to_req := of_nat (length (tr_data t) - upto_piece t (Suc c)),
      get_some_more := (get_some_more v \<and> (of_nat (length (tr_data t) - upto_piece t (Suc c)) :: u32) \<noteq> 0)\<rparr>"
  have r: "pc = WLoop ?v" "g' = (set_bh (slot t g c) bh' (g\<lparr>usb_amount_left := usb_amount_left g - ?len\<rparr>))\<lparr>next_buffhd_to_fill := next_bh (slot t g c) g\<rparr>"
    using assms(7) l(1) off req bh'(1) i(4) by (simp_all add: queue_request_def Let_def not_le [symmetric])
  have b: "buffhds g' = (buffhds g)[slot t g c := bh']" using r by simp
  then have sl: "slot t g' j = slot t g j" for j by (intro slot_cong) simp
  have len: "uint ?len = int (length (piece t c))" using piece_small [OF assms(3), of c] by (simp add: uint_nat small_word)
  have z: "(of_nat (length (tr_data t) - upto_piece t (Suc c)) :: u32) \<noteq> 0 \<longleftrightarrow> upto_piece t (Suc c) < length (tr_data t)"
    using assms(3) upto_piece_le [of t "Suc c"] by (subst small_word_eq_0) (auto simp: sizes_ok_def)
  have "locals_ok t m (Suc c) ?v"
    using i(2) more assms(6) len z by (auto simp: locals_ok_def upto_piece_less less_Suc_eq upto_piece_Suc)
  moreover have "outstanding t m (Suc c) g'"
    by (rule outstanding_request [OF i(3) room _ b]) (simp add: queued_for_def bh')
  moreover have "next_buffhd_to_fill g' = slot t g' (Suc c)" using r next_slot [OF i(1)] sl by simp
  moreover have "next_buffhd_to_drain g' = slot t g' m" using r i(5) sl by (simp add: set_bh_def)
  ultimately show ?thesis using r(1) b i(1) by (simp add: transfer_inv_def)
qed

lemma clipped_amount_piece:
  assumes "disk_ok t g" and "sizes_ok t" and "locals_ok t m c v" and "holds_piece t m bh" and "get_lun (curlun g) g = Inr l"
    and "m * tr_len t < length (tr_data t)"
  shows "clipped_amount l v bh = of_nat (length (piece t m))" "(of_nat (length (piece t m)) :: u32) \<noteq> 0"
proof -
  let ?p = "length (piece t m)"
  obtain k where l: "tr_off t + int (length (tr_data t)) \<le> file_length l" "blksize l = 2 ^ k" "k < 32" "2 ^ k dvd tr_len t" "2 ^ k dvd length (tr_data t)"
    using assms(1,5) unfolding disk_ok_def by auto
  have p: "?p < 2 ^ 32" "0 < ?p" using piece_small [OF assms(2)] assms(2,6) by (auto simp: sizes_ok_def length_piece)
  have u: "upto_piece t m + ?p \<le> length (tr_data t)" using upto_piece_le [of t "Suc m"] by (simp add: upto_piece_Suc)
  have "int ?p \<le> file_length l - file_offset v" using l(1) u assms(3) by (simp add: locals_ok_def)
  moreover have "uint (outreq_actual bh) = int ?p" using assms(4) p(1) by (simp add: holds_piece_def uint_nat small_word)
  ultimately have "clipped_amount l v bh = round_down (of_nat ?p) (2 ^ k)"
    using assms(4) l(2) by (simp add: clipped_amount_def Let_def holds_piece_def)
  moreover have "2 ^ k dvd ?p" using l(4,5) by (simp add: length_piece min_def)
  ultimately show "clipped_amount l v bh = of_nat ?p" using round_down_multiple [OF l(3)] p(1) by (simp add: small_word)
  show "(of_nat ?p :: u32) \<noteq> 0" using p by (simp add: small_word_eq_0)
qed

lemma drain_buffer_inv:
  assumes "transfer_inv t m c (WLoop v) g" and "disk_ok t g" and "sizes_ok t" and "upto_piece t m < length (tr_data t)"
    and "bh_state (buffhds g ! slot t g c) = BUF_STATE_EMPTY \<longrightarrow> \<not> get_some_more v"
    and "drain_buffer 0 v g = Inr (pc, g')"
  shows "transfer_inv t m c pc g'"
proof -
  let ?bh = "buffhds g ! slot t g m"
  have i: "buffhds g \<noteq> []" "locals_ok t m c v" "outstanding t m c g" "next_buffhd_to_fill g = slot t g c" "next_buffhd_to_drain g = slot t g m"
    using assms(1) by (simp_all add: transfer_inv_def)
  have mc: "m < c" if "bh_state ?bh = BUF_STATE_EMPTY \<longrightarrow> \<not> get_some_more v"
  proof (rule ccontr)
    assume "\<not> m < c"
    then have eq: "m = c" using i(3) by (simp add: outstanding_def)
    then have "bh_state ?bh = BUF_STATE_EMPTY" using i(1,3) by (simp add: outstanding_def)
    then have "\<not> get_some_more v" using that by simp
    then show False using i(2) eq assms(4) by (simp add: locals_ok_def)
  qed
  show ?thesis
  proof (cases "bh_state ?bh")
    case BUF_STATE_EMPTY
    have "m = c"
    proof (rule ccontr)
      assume "m \<noteq> c"
      then have "queued_for t m ?bh" using i(3) by (simp add: outstanding_def)
      then show False using BUF_STATE_EMPTY queued_not_empty by blast
    qed
    then show ?thesis using assms(5) BUF_STATE_EMPTY mc by blast
  next
    case BUF_STATE_BUSY
    then show ?thesis using assms(1,6) i(1,5) by (simp add: drain_buffer_def get_slot)
  next
    case BUF_STATE_FULL
    have mlc: "m < c" using mc BUF_STATE_FULL by simp
    then have "queued_for t m ?bh" using i(3) by (simp add: outstanding_def)
    then have h: "holds_piece t m ?bh" using BUF_STATE_FULL by (simp add: queued_for_def)
    obtain l where l: "get_lun (curlun g) g = Inr l" using assms(2) unfolding disk_ok_def by blast
    note cl = clipped_amount_piece [OF assms(2,3) i(2) h l]
    have ml: "m * tr_len t < length (tr_data t)" using assms(4) by (simp add: upto_piece_less)
    let ?e = "?bh\<lparr>bh_state := BUF_STATE_EMPTY\<rparr>"
    let ?g = "(set_bh (slot t g m) ?e g)\<lparr>next_buffhd_to_drain := next_bh (slot t g m) g\<rparr>"
    have "outreq_status ?bh = 0" using h by (simp add: holds_piece_def)
    then have r: "pc = WSpace v (slot t g m) (of_nat (length (piece t m)))" "g' = ?g"
      using assms(6) i(1,5) BUF_STATE_FULL l cl [OF ml] by (simp_all add: drain_buffer_def get_slot Let_def)
    have b: "buffhds g' = (buffhds g)[slot t g m := ?e]" using r by simp
    then have sl: "slot t g' j = slot t g j" for j by (intro slot_cong) simp
    have "outstanding t (Suc m) c g'" by (rule outstanding_drain [OF i(3) mlc _ b]) simp
    moreover have "holds_piece t m ?e" using h by (simp add: holds_piece_def)
    ultimately show ?thesis
      using r(1) b sl i mlc next_slot [OF i(1)] r(2)
      by (simp add: transfer_inv_def copying_def outstanding_def set_bh_def)
  qed
qed

lemma copy_data_inv:
  assumes "copying t m c v i a g" and "buffhds g \<noteq> []" and "sizes_ok t" and "copy_data False v i a h g = Inr (pc, g')"
  shows "transfer_inv t (Suc m) c pc g'" "copied_bytes (WCopy v i a h) g = piece t m"
proof -
  let ?bh = "buffhds g ! i" and ?p = "length (piece t m)"
  have s: "m < c" "locals_ok t m c v" "i = slot t g m" "a = of_nat ?p" "holds_piece t m ?bh" "outstanding t (Suc m) c g"
      "next_buffhd_to_fill g = slot t g c" "next_buffhd_to_drain g = slot t g (Suc m)"
    using assms(1) unfolding copying_def by blast+
  have i: "i < length (buffhds g)" using assms(2) s(3) by simp
  have a: "unat a = ?p" using s(4) piece_small [OF assms(3)] by (simp add: small_word)
  have "prefix (piece t m) (bh_buf ?bh)" using s(5) by (simp add: holds_piece_def)
  then show cb: "copied_bytes (WCopy v i a h) g = piece t m" using i a by (auto simp: copied_bytes_def prefix_def)
  let ?v = "v\<lparr>file_offset := file_offset v + uint a, amount_left_to_write := amount_left_to_write v - a\<rparr>"
  have full: "\<not> outreq_actual ?bh < bulk_out_intended_length ?bh" using s(5) by (simp add: holds_piece_def)
  have r: "pc = WLoop ?v" "buffhds g' = buffhds g" "next_buffhd_to_fill g' = next_buffhd_to_fill g" "next_buffhd_to_drain g' = next_buffhd_to_drain g"
    using assms(4) i full by (auto simp: copy_data_def get_bh_def empty_write_def Let_def split: if_splits option.splits)
  have "length (piece t m) \<le> length (tr_data t) - upto_piece t m" using upto_piece_le [of t "Suc m"] by (simp add: upto_piece_Suc)
  then have "of_nat (length (tr_data t) - upto_piece t m) - of_nat ?p = (of_nat (length (tr_data t) - upto_piece t (Suc m)) :: u32)"
    by (simp only: of_nat_minus_word upto_piece_Suc diff_diff_left)
  moreover have "uint a = int ?p" using a by (simp add: uint_nat)
  ultimately have "locals_ok t (Suc m) c ?v" using s(2,4) unfolding locals_ok_def by (simp add: upto_piece_Suc)
  moreover have "outstanding t (Suc m) c g'" using s(6) r(2) by (simp add: outstanding_def slot_def)
  ultimately show "transfer_inv t (Suc m) c pc g'"
    using r s(7,8) assms(2) by (simp add: transfer_inv_def slot_def)
qed

text \<open>When all pieces are copied, none is outstanding.\<close>

lemma all_pieces_free:
  assumes "buffhds g \<noteq> []" and "locals_ok t m c v" and "outstanding t m c g" and "upto_piece t m = length (tr_data t)"
    and "next_buffhd_to_fill g = slot t g c" and "next_buffhd_to_drain g = slot t g m"
  shows "buffers_free g"
proof -
  have "\<not> m < c"
  proof
    assume "m < c"
    then have "m * tr_len t < length (tr_data t)" using assms(2) by (simp add: locals_ok_def)
    then show False using assms(4) by (simp add: upto_piece_def)
  qed
  then have "m = c" using assms(3) by (simp add: outstanding_def)
  then show ?thesis using assms(1,3,5,6) by (auto simp: buffers_free_def outstanding_def in_set_conv_nth)
qed

text \<open>A step of the gadget's thread keeps the invariant; what it copies continues the data.\<close>

lemma writer_step_inv:
  assumes "transfer_inv t m c pc g" and "disk_ok t g" and "sizes_ok t" and "usb_good ops t" and "writer_step ops 0 False pc g = Inr (pc', g')"
  shows "\<exists>m' c'. transfer_inv t m' c' pc' g' \<and> take (upto_piece t m') (tr_data t) = take (upto_piece t m) (tr_data t) @ copied_bytes pc g"
proof (cases pc)
  case (WReply r)
  then show ?thesis using assms(1,5) by (auto simp: copied_bytes_def)
next
  case (WLoop v)
  have i: "buffhds g \<noteq> []" "locals_ok t m c v" "next_buffhd_to_fill g = slot t g c" using assms(1) WLoop by (simp_all add: transfer_inv_def)
  have "\<exists>c'. transfer_inv t m c' pc' g'"
  proof (cases "upto_piece t m = length (tr_data t)")
    case True
    then have "pc' = WReply (- EIO)" "g' = g" using assms(5) WLoop loop_left [OF assms(3) i(2)] by (simp_all add: write_turn_def)
    moreover have "outstanding t m c g" "next_buffhd_to_drain g = slot t g m" using assms(1) WLoop by (simp_all add: transfer_inv_def)
    then have "buffers_free g" using all_pieces_free [OF i(1,2) _ True i(3)] by blast
    ultimately show ?thesis using True i(1) by (simp add: transfer_inv_def)
  next
    case False
    then have left: "amount_left_to_write v \<noteq> 0" "upto_piece t m < length (tr_data t)"
      using loop_left [OF assms(3) i(2)] upto_piece_le [of t m] by linarith+
    let ?bh = "buffhds g ! slot t g c"
    show ?thesis
    proof (cases "bh_state ?bh = BUF_STATE_EMPTY \<and> get_some_more v")
      case True
      then have "queue_request ops v ?bh g = Inr (pc', g')" using assms(5) WLoop left(1) i by (simp add: write_turn_def get_slot)
      then show ?thesis using queue_request_inv [OF assms(1) [unfolded WLoop] assms(2-4)] True by blast
    next
      case False
      then have "drain_buffer 0 v g = Inr (pc', g')"
        using assms(5) WLoop left(1) i by (auto simp: write_turn_def get_slot split: if_splits)
      then show ?thesis using drain_buffer_inv [OF assms(1) [unfolded WLoop] assms(2,3) left(2)] False by blast
    qed
  qed
  then show ?thesis using WLoop by (auto simp: copied_bytes_def)
next
  case (WSpace v i a)
  then have "transfer_inv t m c pc' g'" using assms(1,5) by (auto simp: transfer_inv_def split: option.splits)
  then show ?thesis using WSpace by (auto simp: copied_bytes_def)
next
  case (WCopy v i a h)
  then have c: "copying t m c v i a g" "buffhds g \<noteq> []" "copy_data False v i a h g = Inr (pc', g')" using assms(1,5) by (simp_all add: transfer_inv_def)
  from copy_data_inv [OF c(1,2) assms(3) c(3)] WCopy show ?thesis
    by (intro exI [of _ "Suc m"] exI [of _ c]) (simp add: take_upto_piece_Suc)
qed

text \<open>The other threads do not touch the transfer.\<close>

lemma transfer_inv_cong:
  assumes "buffhds g' = buffhds g" and "next_buffhd_to_fill g' = next_buffhd_to_fill g" and "next_buffhd_to_drain g' = next_buffhd_to_drain g"
  shows "transfer_inv t m c pc g' = transfer_inv t m c pc g"
  using assms by (simp add: transfer_inv_def copying_def outstanding_def slot_def buffers_free_def split: writer_pc.splits)

lemma disk_ok_file:
  assumes "disk_ok t g" and "same_but_file g g'"
  shows "disk_ok t g'"
proof -
  obtain p e where g': "g' = (case get_lun (device_lun g) g of Inl _ \<Rightarrow> g | Inr l \<Rightarrow> set_lun (device_lun g) (l\<lparr>filp := p\<rparr>) g)\<lparr>file_end_offset := e\<rparr>"
    using assms(2) by (auto simp: same_but_file_def)
  obtain l k where l: "get_lun (curlun g) g = Inr l" "tr_off t + int (length (tr_data t)) \<le> file_length l"
     "blksize l = 2 ^ k \<and> k < 32 \<and> 2 ^ k dvd tr_len t \<and> 2 ^ k dvd length (tr_data t)"
    using assms(1) unfolding disk_ok_def by blast
  then obtain i where i: "curlun g = Some i" "i < length (luns g)" "l = luns g ! i" by (auto simp: get_lun_Inr)
  have c: "curlun g' = curlun g" "length (luns g') = length (luns g)" using same_but_file_frame [OF assms(2)] by simp_all
  have "file_length (luns g' ! i) = file_length l \<and> blksize (luns g' ! i) = blksize l"
    using i g' by (auto simp: set_lun_def get_lun_def nth_list_update split: option.splits if_splits)
  then show ?thesis unfolding disk_ok_def
    using l(2,3) i c by (intro exI [of _ "luns g' ! i"] exI [of _ k]) (simp add: get_lun_def)
qed

section \<open>An honest controller\<close>

text \<open>
  The USB controller fills buffers that are queued, each with the piece it is queued for; the others stay as they are.
  The window of queued pieces is read off the variables of the loop.
\<close>

definition usb_honest :: "transfer \<Rightarrow> nat \<Rightarrow> nat \<Rightarrow> 'f gadget \<Rightarrow> fsg_buffhd list \<Rightarrow> bool" where
  "usb_honest t m c g bhs \<longleftrightarrow> length bhs = length (buffhds g) \<and> (\<forall>i < length bhs. bhs ! i = buffhds g ! i \<or>
     (\<exists>j < c. m \<le> j \<and> i = slot t g j \<and> bh_state (buffhds g ! i) = BUF_STATE_BUSY \<and> bh_state (bhs ! i) = BUF_STATE_FULL \<and> holds_piece t j (bhs ! i)))"

definition window :: "transfer \<Rightarrow> writer_pc \<Rightarrow> nat \<times> nat" where
  "window t pc =
     (let done = (\<lambda>v. pieces_for t (length (tr_data t) - unat (amount_left_to_write v)));
          asked = (\<lambda>v. pieces_for t (length (tr_data t) - unat (amount_left_to_req v)))
      in case pc of WReply r \<Rightarrow> (0, 0) | WLoop v \<Rightarrow> (done v, asked v) | WSpace v i a \<Rightarrow> (Suc (done v), asked v)
         | WCopy v i a h \<Rightarrow> (Suc (done v), asked v))"

fun honest_run :: "transfer \<Rightarrow> 'f kernel \<Rightarrow> event list \<Rightarrow> 'f device \<Rightarrow> bool" where
  "honest_run t k [] d = True"
| "honest_run t k (e # es) d =
     ((case e of
         Command cdb n cur checked \<Rightarrow> False
       | Writer rc signal \<Rightarrow> rc = 0 \<and> \<not> signal
       | Usb bhs \<Rightarrow> (case window t (writer d) of (m, c) \<Rightarrow> usb_honest t m c (gad d) bhs)
       | _ \<Rightarrow> True)
      \<and> (case device_step k e d of Inl _ \<Rightarrow> True | Inr d' \<Rightarrow> honest_run t k es d'))"

lemma outstanding_usb:
  assumes "outstanding t m c g" and "usb_honest t m c g bhs" and "buffhds g' = bhs"
  shows "outstanding t m c g'"
proof -
  have len: "length (buffhds g') = length (buffhds g)" using assms(2,3) by (simp add: usb_honest_def)
  note sl = slot_cong [OF len]
  have w: "m \<le> c" "c \<le> m + length (buffhds g)" using assms(1) by (simp_all add: outstanding_def)
  show ?thesis
    unfolding outstanding_def sl len
  proof (intro conjI allI impI)
    fix j assume j: "m \<le> j \<and> j < c"
    then have ne: "buffhds g \<noteq> []" using w by auto
    have q: "queued_for t j (buffhds g ! slot t g j)" using assms(1) j by (simp add: outstanding_def)
    from assms(2) ne have "bhs ! slot t g j = buffhds g ! slot t g j \<or> (\<exists>j' < c. m \<le> j' \<and> slot t g j = slot t g j'
        \<and> bh_state (bhs ! slot t g j) = BUF_STATE_FULL \<and> holds_piece t j' (bhs ! slot t g j))"
      using slot_less [OF ne] unfolding usb_honest_def by metis
    then show "queued_for t j (buffhds g' ! slot t g j)"
    proof
      assume "\<exists>j' < c. m \<le> j' \<and> slot t g j = slot t g j' \<and> bh_state (bhs ! slot t g j) = BUF_STATE_FULL \<and> holds_piece t j' (bhs ! slot t g j)"
      then obtain j' where j': "j' < c" "m \<le> j'" "slot t g j = slot t g j'" "bh_state (bhs ! slot t g j) = BUF_STATE_FULL" "holds_piece t j' (bhs ! slot t g j)"
        by blast
      have "j = j'" using j' j w by (intro slot_inj [of t g j j' m]) linarith+
      then show ?thesis using j' assms(3) by (simp add: queued_for_def holds_piece_def)
    qed (use q assms(3) in simp)
  next
    fix i assume "i < length (buffhds g)" "\<forall>j. m \<le> j \<and> j < c \<longrightarrow> i \<noteq> slot t g j"
    then show "bh_state (buffhds g' ! i) = BUF_STATE_EMPTY"
      using assms unfolding usb_honest_def outstanding_def by metis
  qed (use w in simp_all)
qed

lemma window_of_inv:
  assumes "transfer_inv t m c pc g" and "sizes_ok t" and "\<forall>r. pc \<noteq> WReply r"
  shows "window t pc = (case pc of WLoop v \<Rightarrow> (m, c) | _ \<Rightarrow> (Suc m, c))"
proof -
  have *: "pieces_for t (length (tr_data t) - unat (amount_left_to_write v)) = m \<and> pieces_for t (length (tr_data t) - unat (amount_left_to_req v)) = c"
    if "locals_ok t m c v" "m \<le> c" for v
  proof -
    have n: "length (tr_data t) - x < 2 ^ 32" for x using assms(2) by (auto simp: sizes_ok_def)
    have "unat (amount_left_to_write v) = length (tr_data t) - upto_piece t m" "unat (amount_left_to_req v) = length (tr_data t) - upto_piece t c"
      using that(1) small_word [OF n] unfolding locals_ok_def by metis+
    then have "length (tr_data t) - unat (amount_left_to_write v) = upto_piece t m" "length (tr_data t) - unat (amount_left_to_req v) = upto_piece t c"
      using upto_piece_le by (simp_all only: diff_diff_cancel)
    moreover have "\<forall>j < c. j * tr_len t < length (tr_data t)" "0 < tr_len t" using that(1) assms(2) by (simp_all add: locals_ok_def sizes_ok_def)
    ultimately show ?thesis using pieces_for_upto [of t] that(2) by simp
  qed
  show ?thesis
    using assms(1,3) * by (cases pc) (auto simp: transfer_inv_def copying_def outstanding_def window_def Let_def)
qed

definition sending :: "transfer \<Rightarrow> nat \<Rightarrow> nat \<Rightarrow> 'f device \<Rightarrow> bool" where
  "sending t m c d \<longleftrightarrow> transfer_inv t m c (writer d) (gad d) \<and> disk_ok t (gad d)"

lemma disk_ok_cong: "luns g' = luns g \<Longrightarrow> curlun g' = curlun g \<Longrightarrow> disk_ok t g' = disk_ok t g"
  by (simp add: disk_ok_def get_lun_def split: option.splits)

lemma sending_usb:
  assumes "sending t m c d" and "sizes_ok t" and "case window t (writer d) of (m, c) \<Rightarrow> usb_honest t m c (gad d) bhs"
  shows "sending t m c (d\<lparr>gad := (gad d)\<lparr>buffhds := bhs\<rparr>\<rparr>)"
proof -
  let ?g = "gad d" and ?g' = "(gad d)\<lparr>buffhds := bhs\<rparr>"
  have inv: "transfer_inv t m c (writer d) ?g" using assms(1) by (simp add: sending_def)
  obtain m' c' where w: "window t (writer d) = (m', c')" "usb_honest t m' c' ?g bhs" using assms(3) by (auto split: prod.splits)
  then have len: "length bhs = length (buffhds ?g)" by (simp add: usb_honest_def)
  then have sl: "slot t ?g' j = slot t ?g j" for j by (intro slot_cong) simp
  have ne: "buffhds ?g \<noteq> []" "buffhds ?g' \<noteq> []" using inv len by (auto simp: transfer_inv_def)
  have copy: "copying t m c v i a ?g'" if "copying t m c v i a ?g" "m' = Suc m" "c' = c" for v i a
  proof -
    have o: "outstanding t (Suc m) c ?g'" using outstanding_usb [of t m' c' ?g bhs ?g'] that w(2) by (simp add: copying_def)
    have "bh_state (buffhds ?g ! i) = BUF_STATE_EMPTY" "i = slot t ?g m" using that(1) unfolding copying_def by blast+
    then have "bh_state (buffhds ?g ! i) = BUF_STATE_EMPTY" "i < length bhs" using ne(1) len by simp_all
    then have "bhs ! i = buffhds ?g ! i" using w(2) unfolding usb_honest_def by fastforce
    then show ?thesis using that(1) o len unfolding copying_def sl by auto
  qed
  have "transfer_inv t m c (writer d) ?g'"
  proof (cases "writer d")
    case (WReply r)
    then have "m' = 0" "c' = 0" using w(1) by (simp_all add: window_def)
    then have "\<forall>i < length bhs. bhs ! i = buffhds ?g ! i" using w(2) by (simp add: usb_honest_def)
    then have "bhs = buffhds ?g" using len by (intro nth_equalityI) simp_all
    then have "?g' = ?g" by simp
    then show ?thesis using inv by simp
  next
    case (WLoop v)
    then have "m' = m" "c' = c" using window_of_inv [OF inv assms(2)] w(1) by simp_all
    then show ?thesis using inv WLoop ne(2) sl outstanding_usb [of t m c ?g bhs ?g'] w(2) by (simp add: transfer_inv_def)
  next
    case (WSpace v i a)
    then have "m' = Suc m" "c' = c" using window_of_inv [OF inv assms(2)] w(1) by simp_all
    then show ?thesis using inv WSpace ne(2) copy by (simp add: transfer_inv_def)
  next
    case (WCopy v i a h)
    then have "m' = Suc m" "c' = c" using window_of_inv [OF inv assms(2)] w(1) by simp_all
    then show ?thesis using inv WCopy ne(2) copy by (simp add: transfer_inv_def)
  qed
  moreover have "disk_ok t ?g'" using assms(1) disk_ok_cong [of ?g' ?g t] by (simp add: sending_def)
  ultimately show ?thesis by (simp add: sending_def)
qed

lemma flush_step_frame:
  assumes "stores_at data w" and "gadget_ready data g" and "flush_pc_ok pc" and "flush_step w pc g = Inr (pc', g')"
  shows "same_but_file g g' \<or> (\<exists>t. g' = set_tail t g)"
proof (cases pc)
  case FIdle
  then show ?thesis using assms(4) same_but_file_refl by (auto simp: Let_def)
next
  case (FWriting re rs)
  show ?thesis
  proof (cases rs)
    case Nil
    then show ?thesis using FWriting assms(4) by auto
  next
    case (Cons r rs')
    obtain e s where r: "r = (e, s)" by (cases r)
    have "range_fits (e, s)" using assms(3) FWriting Cons r by (simp add: flush_pc_ok_def)
    from fs_write_dev_extends [OF assms(1,2) this] show ?thesis using assms(4) FWriting Cons r by auto
  qed
qed

lemma sending_step:
  assumes "sending t m c d" and "sizes_ok t" and "usb_good (usb_ops_of k) t" and "stores_at data (vfs_write k)" and "device_ok data d"
    and "honest_run t k [e] d" and "device_step k e d = Inr d'"
  shows "\<exists>m' c' bs. sending t m' c' d' \<and> taken d' = taken d @ bs \<and> take (upto_piece t m') (tr_data t) = take (upto_piece t m) (tr_data t) @ bs"
proof (cases e)
  case (Command cdb n cur checked)
  then show ?thesis using assms(6) by simp
next
  case (Writer rc signal)
  then have w: "writer_step (usb_ops_of k) 0 False (writer d) (gad d) = Inr (writer d', gad d')"
      "taken d' = taken d @ copied_bytes (writer d) (gad d)"
    using assms(6,7) by auto
  from assms(1) have i: "transfer_inv t m c (writer d) (gad d)" "disk_ok t (gad d)" by (simp_all add: sending_def)
  have "disk_ok t (gad d')"
    by (rule disk_ok_frame [OF i(2)]) (use writer_step_frame [OF w(1)] in \<open>simp_all add: writer_frame_def\<close>)
  then show ?thesis
    using writer_step_inv [OF i assms(2,3) w(1)] w(2) unfolding sending_def by blast
next
  case Flusher
  then obtain pc g where g: "flush_step (vfs_write k) (flushd d) (gad d) = Inr (pc, g)" "d' = d\<lparr>gad := g, flushd := pc\<rparr>"
    using assms(7) by auto
  have s: "transfer_inv t m c (writer d) (gad d)" "disk_ok t (gad d)" using assms(1) by (simp_all add: sending_def)
  have "same_but_file (gad d) g \<or> (\<exists>t. g = set_tail t (gad d))"
    using flush_step_frame [OF assms(4) _ _ g(1)] assms(5) by (simp add: device_ok_def)
  then have "sending t m c d'"
  proof
    assume f: "same_but_file (gad d) g"
    have "transfer_inv t m c (writer d) g" using s(1) same_but_file_frame [OF f] by (simp add: transfer_inv_cong [of g "gad d"])
    then show ?thesis using g(2) disk_ok_file [OF s(2) f] by (simp add: sending_def)
  next
    assume "\<exists>x. g = set_tail x (gad d)"
    then obtain x where x: "g = set_tail x (gad d)" by blast
    then have "transfer_inv t m c (writer d) g" using s(1) transfer_inv_cong [of g "gad d"] by (simp add: set_tail_def)
    moreover have "disk_ok t g" using s(2) x disk_ok_cong [of g "gad d" t] by (simp add: set_tail_def)
    ultimately show ?thesis using g(2) by (simp add: sending_def)
  qed
  moreover have "taken d' = taken d" using g(2) by simp
  ultimately show ?thesis by (intro exI [of _ m] exI [of _ c] exI [of _ "[]"]) simp
next
  case (Usb bhs)
  then have "sending t m c d'" "taken d' = taken d" using sending_usb [OF assms(1,2)] assms(6,7) by auto
  then show ?thesis by (intro exI [of _ m] exI [of _ c] exI [of _ "[]"]) simp
next
  case (Request copied)
  then have "gad d' = gad d \<or> gad d' = request_clear (gad d)" "writer d' = writer d" "taken d' = taken d"
    using assms(7) by (auto split: request_pc.splits if_splits)
  moreover have "transfer_inv t m c (writer d) (request_clear (gad d)) = transfer_inv t m c (writer d) (gad d)"
    by (rule transfer_inv_cong) (simp_all add: request_clear_def)
  moreover have "disk_ok t (request_clear (gad d)) = disk_ok t (gad d)" by (rule disk_ok_cong) (simp_all add: request_clear_def)
  ultimately have "sending t m c d'" using assms(1) unfolding sending_def by metis
  then show ?thesis using \<open>taken d' = taken d\<close> by (intro exI [of _ m] exI [of _ c] exI [of _ "[]"]) simp
qed

lemma sending_run:
  assumes "sizes_ok t" and "usb_good (usb_ops_of k) t" and "stores_at data (vfs_write k)" and "writes_own_disk k"
    and "sending t m c d" and "device_ok data d" and "honest_run t k es d" and "device_run k es d = Inr d'"
  shows "\<exists>m' c' bs. sending t m' c' d' \<and> taken d' = taken d @ bs \<and> take (upto_piece t m') (tr_data t) = take (upto_piece t m) (tr_data t) @ bs"
  using assms(5-8)
proof (induction es arbitrary: d m c)
  case Nil
  then show ?case by auto
next
  case (Cons e es)
  then obtain d1 where d1: "device_step k e d = Inr d1" "device_run k es d1 = Inr d'" by auto
  have h: "honest_run t k [e] d" "honest_run t k es d1" using "Cons.prems"(3) d1(1) by (simp_all split: sum.splits)
  obtain m1 c1 bs where s: "sending t m1 c1 d1" "taken d1 = taken d @ bs" "take (upto_piece t m1) (tr_data t) = take (upto_piece t m) (tr_data t) @ bs"
    using sending_step [OF "Cons.prems"(1) assms(1-3) "Cons.prems"(2) h(1) d1(1)] by blast
  have ok: "device_ok data d1" using device_step_extends [OF assms(3,4) "Cons.prems"(2) d1(1)] by blast
  from "Cons.IH" [OF s(1) ok h(2) d1(2)] s show ?case by (metis append.assoc)
qed

definition transfer_of :: "usb_ops \<Rightarrow> 8 word list \<Rightarrow> char list \<Rightarrow> 'f fsg_lun \<Rightarrow> 'f gadget \<Rightarrow> transfer" where
  "transfer_of ops cdb bs l g = \<lparr>tr_len = unat (FSG_BUFLEN ops), tr_data = bs, tr_slot = next_buffhd_to_fill g,
     tr_off = uint (get_unaligned_be32 (drop 2 cdb)) * 2 ^ blkbits l\<rparr>"

text \<open>A well-formed WRITE(10) or WRITE(12) of \<open>bs\<close> to the disk \<open>l\<close>.\<close>

definition command_ok :: "usb_ops \<Rightarrow> 8 word list \<Rightarrow> char list \<Rightarrow> 'f fsg_lun \<Rightarrow> bool" where
  "command_ok ops cdb bs l \<longleftrightarrow> \<not> ro l \<and> cdb ! 0 \<noteq> WRITE_6 \<and> reserved_bits (cdb ! 1) = 0
     \<and> uint (get_unaligned_be32 (drop 2 cdb)) < num_sectors l
     \<and> uint (get_unaligned_be32 (drop 2 cdb)) * 2 ^ blkbits l + int (length bs) \<le> file_length l
     \<and> bs \<noteq> [] \<and> length bs < 2 ^ 32
     \<and> (\<exists>k < 32. blksize l = 2 ^ k \<and> 2 ^ k dvd unat (FSG_BUFLEN ops) \<and> 2 ^ k dvd length bs)"

definition usb_starts :: "usb_ops \<Rightarrow> bool" where
  "usb_starts ops \<longleftrightarrow> 0 < FSG_BUFLEN ops \<and> (\<forall>bh len. \<exists>bh'. start_out_transfer ops (set_bulk_out_req_length ops bh len) = Some bh'
     \<and> bh_state bh' = BUF_STATE_BUSY \<and> bulk_out_intended_length bh' = len)"

lemma command_starts:
  assumes "device_ok data d" and "writer d = WReply r" and "buffers_free (gad d)" and "device_lun (gad d) = Some i" and "i < length (luns (gad d))"
    and "command_ok (usb_ops_of k) cdb bs (luns (gad d) ! i)" and "usb_starts (usb_ops_of k)"
    and "device_step k (Command cdb (of_nat (length bs)) (Some i) 0) d = Inr d1"
  defines "t \<equiv> transfer_of (usb_ops_of k) cdb bs (luns (gad d) ! i) (gad d)"
  shows "sending t 0 0 d1" "sizes_ok t" "usb_good (usb_ops_of k) t" "taken d1 = taken d" "tr_data t = bs"
proof -
  let ?l = "luns (gad d) ! i" and ?g = "(gad d)\<lparr>cmnd := cdb, data_size_from_cmnd := of_nat (length bs), curlun := Some i\<rparr>"
  let ?off = "uint (get_unaligned_be32 (drop 2 cdb)) * 2 ^ blkbits ?l"
  let ?v = "\<lparr>get_some_more = True, usb_offset = ?off, file_offset = ?off, amount_left_to_req = of_nat (length bs), amount_left_to_write = of_nat (length bs)\<rparr>"
  note c = assms(6) [unfolded command_ok_def]
  have fast: "faststorage (gad d)" "lun_name ?l = ''lun0''" "cbuffer (data_cbuff (gad d)) \<noteq> None"
    using assms(1,4,5) by (auto simp: device_ok_def log_disk_named_def gadget_ready_def databuf_ok_def split: option.splits)
  have d1: "d1 = d\<lparr>gad := ?g, writer := WLoop ?v\<rparr>"
    using assms(2,5,8) fast c by (auto simp: scsi_write_def get_lun_def hardlog_write_start_def Let_def)
  show d: "tr_data t = bs" "taken d1 = taken d" by (simp_all add: t_def transfer_of_def d1)
  show sz: "sizes_ok t"
    using c assms(7) u32_bound [of "FSG_BUFLEN (usb_ops_of k)"]
    by (simp add: sizes_ok_def t_def transfer_of_def usb_starts_def word_less_nat_alt)
  show "usb_good (usb_ops_of k) t" using assms(7) by (simp add: usb_good_def usb_starts_def t_def transfer_of_def)
  have b: "buffhds (gad d) \<noteq> []" "\<forall>j < length (buffhds (gad d)). bh_state (buffhds (gad d) ! j) = BUF_STATE_EMPTY"
      "next_buffhd_to_drain (gad d) = next_buffhd_to_fill (gad d)" "next_buffhd_to_fill (gad d) < length (buffhds (gad d))"
    using assms(3) by (simp_all add: buffers_free_def)
  have "slot t ?g 0 = next_buffhd_to_fill (gad d)" using b(4) by (simp add: slot_def t_def transfer_of_def)
  moreover have "locals_ok t 0 0 ?v" using c by (simp add: locals_ok_def t_def transfer_of_def)
  moreover have "outstanding t 0 0 ?g" using b(2) by (simp add: outstanding_def)
  ultimately have "transfer_inv t 0 0 (WLoop ?v) ?g" using b by (simp add: transfer_inv_def)
  moreover have "disk_ok t ?g" using c assms(5) unfolding disk_ok_def by (auto simp: get_lun_def t_def transfer_of_def)
  ultimately show "sending t 0 0 d1" by (simp add: sending_def d1)
qed

section \<open>Commands\<close>

text \<open>One command and what happens until it is answered.\<close>

lemma command_outcome:
  assumes "stores_at data (vfs_write k)" and "writes_own_disk k" and "device_ok data d" and "writer d = WReply r" and "buffers_free (gad d)"
    and "device_lun (gad d) = Some i" and "i < length (luns (gad d))"
    and "command_ok (usb_ops_of k) cdb bs (luns (gad d) ! i)" and "usb_starts (usb_ops_of k)"
    and "device_step k (Command cdb (of_nat (length bs)) (Some i) 0) d = Inr d1"
    and "honest_run (transfer_of (usb_ops_of k) cdb bs (luns (gad d) ! i) (gad d)) k es d1" and "device_run k es d1 = Inr d'"
  shows "\<exists>p. taken d' = taken d @ take p bs" "writer d' = WReply r' \<Longrightarrow> r' = - EIO \<and> taken d' = taken d @ bs \<and> buffers_free (gad d')"
    "device_ok data d'"
proof -
  let ?t = "transfer_of (usb_ops_of k) cdb bs (luns (gad d) ! i) (gad d)"
  note s = command_starts [OF assms(3-10)]
  have ok: "device_ok data d1" using device_step_extends [OF assms(1-3,10)] by blast
  then show "device_ok data d'" using device_run_extends [OF assms(1,2) ok assms(12)] by blast
  obtain m c xs where m: "sending ?t m c d'" "taken d' = taken d @ xs" "take (upto_piece ?t m) bs = xs"
    using sending_run [OF s(2,3) assms(1,2) s(1) ok assms(11,12)] s(4,5) by auto
  then show "\<exists>p. taken d' = taken d @ take p bs" by metis
  assume "writer d' = WReply r'"
  then have "r' = - EIO" "upto_piece ?t m = length bs" "buffers_free (gad d')" using m(1) s(5) by (simp_all add: sending_def transfer_inv_def)
  then show "r' = - EIO \<and> taken d' = taken d @ bs \<and> buffers_free (gad d')" using m(2,3) by simp
qed

text \<open>
  A sequence of answered commands to the disk \<open>i\<close>: for each its bytes, its data, and
  the events until its reply.
\<close>

type_synonym served_command = "8 word list \<times> char list \<times> event list"

fun command_events :: "nat \<Rightarrow> served_command list \<Rightarrow> event list" where
  "command_events i [] = []"
| "command_events i ((cdb, bs, es) # cs) = Command cdb (of_nat (length bs)) (Some i) 0 # es @ command_events i cs"

fun served :: "'f kernel \<Rightarrow> nat \<Rightarrow> served_command list \<Rightarrow> 'f device \<Rightarrow> bool" where
  "served k i [] d = True"
| "served k i ((cdb, bs, es) # cs) d =
     (command_ok (usb_ops_of k) cdb bs (luns (gad d) ! i) \<and>
      (case device_step k (Command cdb (of_nat (length bs)) (Some i) 0) d of Inl _ \<Rightarrow> False
       | Inr d1 \<Rightarrow> honest_run (transfer_of (usb_ops_of k) cdb bs (luns (gad d) ! i) (gad d)) k es d1 \<and>
          (case device_run k es d1 of Inl _ \<Rightarrow> False
           | Inr d2 \<Rightarrow> (case writer d2 of WReply _ \<Rightarrow> True | _ \<Rightarrow> False) \<and> served k i cs d2)))"

lemma device_run_append: "device_run k (es @ fs) d = rbind (device_run k es d) (device_run k fs)"
  by (induction es arbitrary: d) (simp_all add: rbind_assoc cong: rbind_cong)

lemma device_step_lun:
  assumes "stores_at data (vfs_write k)" and "writes_own_disk k" and "device_ok data d" and "device_step k e d = Inr d'"
  shows "device_lun (gad d') = device_lun (gad d) \<and> length (luns (gad d')) = length (luns (gad d))"
proof (cases e)
  case (Command cdb n cur checked)
  show ?thesis
  proof (cases "\<exists>r. writer d = WReply r")
    case True
    let ?g = "(gad d)\<lparr>cmnd := cdb, data_size_from_cmnd := n, curlun := cur\<rparr>"
    obtain pc g where g: "scsi_write k checked ?g = Inr (pc, g)" "gad d' = g"
      using assms(4) Command True by auto
    have ok: "faststorage ?g" "log_disk_named ?g" using assms(3) by (simp_all add: device_ok_def command_fields)
    have "writer_frame ?g g \<or> log_frame ?g g" by (rule scsi_write_frame [OF g(1) ok assms(2)])
    then have "device_lun g = device_lun (gad d) \<and> length (luns g) = length (luns (gad d))"
      by (auto simp: writer_frame_def log_frame_def dest: map_eq_imp_length_eq)
    then show ?thesis using g(2) by simp
  next
    case False
    then have "d' = d" using assms(4) Command by (cases "writer d") auto
    then show ?thesis by simp
  qed
next
  case (Writer rc signal)
  then obtain pc g where g: "writer_step (usb_ops_of k) rc signal (writer d) (gad d) = Inr (pc, g)" "gad d' = g"
    using assms(4) by auto
  then show ?thesis using writer_step_frame [OF g(1)] by (auto simp: writer_frame_def dest: map_eq_imp_length_eq)
next
  case Flusher
  then obtain pc g where g: "flush_step (vfs_write k) (flushd d) (gad d) = Inr (pc, g)" "gad d' = g"
    using assms(4) by auto
  have "same_but_file (gad d) g \<or> (\<exists>t. g = set_tail t (gad d))"
    using flush_step_frame [OF assms(1) _ _ g(1)] assms(3) by (simp add: device_ok_def)
  then show ?thesis using g(2) same_but_file_frame(3,4) by (auto simp: set_tail_def)
next
  case (Usb bhs)
  then show ?thesis using assms(4) by auto
next
  case (Request copied)
  then show ?thesis using assms(4) by (auto simp: request_clear_def split: request_pc.splits if_splits)
qed

lemma device_run_lun:
  assumes "stores_at data (vfs_write k)" and "writes_own_disk k" and "device_ok data d" and "device_run k es d = Inr d'"
  shows "device_lun (gad d') = device_lun (gad d) \<and> length (luns (gad d')) = length (luns (gad d))"
  using assms(3,4)
proof (induction es arbitrary: d)
  case (Cons e es)
  then obtain d1 where d1: "device_step k e d = Inr d1" "device_run k es d1 = Inr d'" by auto
  have "device_ok data d1" using device_step_extends [OF assms(1,2) "Cons.prems"(1) d1(1)] by blast
  from "Cons.IH" [OF this d1(2)] show ?case using device_step_lun [OF assms(1,2) "Cons.prems"(1) d1(1)] by simp
qed simp

lemma commands_outcome:
  assumes "stores_at data (vfs_write k)" and "writes_own_disk k" and "device_ok data d" and "writer d = WReply r" and "buffers_free (gad d)"
    and "device_lun (gad d) = Some i" and "i < length (luns (gad d))" and "usb_starts (usb_ops_of k)" and "served k i cs d"
  shows "\<exists>d' r'. device_run k (command_events i cs) d = Inr d' \<and> taken d' = taken d @ concat (map (\<lambda>c. fst (snd c)) cs)
    \<and> writer d' = WReply r' \<and> device_ok data d'"
  using assms(3-7,9)
proof (induction cs arbitrary: d r)
  case (Cons x cs)
  obtain cdb bs es where x: "x = (cdb, bs, es)" by (cases x)
  obtain d1 d2 r2 where d: "command_ok (usb_ops_of k) cdb bs (luns (gad d) ! i)"
      "device_step k (Command cdb (of_nat (length bs)) (Some i) 0) d = Inr d1"
      "honest_run (transfer_of (usb_ops_of k) cdb bs (luns (gad d) ! i) (gad d)) k es d1" "device_run k es d1 = Inr d2"
      "writer d2 = WReply r2" "served k i cs d2"
    using "Cons.prems"(6) x by (auto split: sum.splits writer_pc.splits)
  note o = command_outcome [OF assms(1,2) "Cons.prems"(1-5) d(1) assms(8) d(2-4)]
  have l: "device_lun (gad d2) = Some i" "i < length (luns (gad d2))"
    using device_run_lun [OF assms(1,2) "Cons.prems"(1), of "[Command cdb (of_nat (length bs)) (Some i) 0] @ es" d2] d(2,4) "Cons.prems"(4,5)
    by (simp_all add: device_run_append)
  have t: "buffers_free (gad d2)" "taken d2 = taken d @ bs" using o(2) [OF d(5)] by blast+
  from "Cons.IH" [OF o(3) d(5) t(1) l d(6)] obtain d' r' where "device_run k (command_events i cs) d2 = Inr d'"
      "taken d' = taken d2 @ concat (map (\<lambda>c. fst (snd c)) cs)" "writer d' = WReply r'" "device_ok data d'" by blast
  then show ?case using x d(2,4) t(2) by (simp add: device_run_append)
qed auto

section \<open>Properties\<close>

text \<open>
  C8: a command stores the host's data, whole and in order. For every size of the transfer buffers and
  every number of them, every interleaving of the gadget's thread with the flusher, the library
  and a USB controller that fills the queued buffers with the host's data: what \<open>do_hardlog_write\<close> has
  copied is at any time a prefix of the data, and when it replies, all of it.
\<close>

theorem command_data_taken:
  assumes "stores_at data (vfs_write k)" and "writes_own_disk k" and "device_ok data d" and "writer d = WReply r" and "buffers_free (gad d)"
    and "device_lun (gad d) = Some i" and "i < length (luns (gad d))"
    and "command_ok (usb_ops_of k) cdb bs (luns (gad d) ! i)" and "usb_starts (usb_ops_of k)"
    and "device_step k (Command cdb (of_nat (length bs)) (Some i) 0) d = Inr d1"
    and "honest_run (transfer_of (usb_ops_of k) cdb bs (luns (gad d) ! i) (gad d)) k es d1" and "device_run k es d1 = Inr d'"
  shows "(\<exists>p. taken d' = taken d @ take p bs) \<and> (\<forall>r'. writer d' = WReply r' \<longrightarrow> r' = - EIO \<and> taken d' = taken d @ bs \<and> buffers_free (gad d'))"
  using command_outcome [OF assms] by blast

definition sample_tail :: "event list" where
  "sample_tail = [Writer 0 False, Usb [received (replicate 512 CHR ''x'')], Writer 0 False, Writer 0 False, Writer 0 False, Writer 0 False]"

lemmas sample_defs = sample_tail_def sample_events_def sample_device_def sample_gadget_def sample_kernel_def sample_usb_def sample_lun_def write10_def
  received_def scsi_write_def hardlog_write_start_def get_lun_def get_unaligned_be32_def WRITE_6_def WRITE_10_def reserved_bits_def Let_def
  write_turn_def queue_request_def drain_buffer_def get_bh_def set_bh_def next_bh_def clipped_amount_def round_down_def empty_write_def
  make_space_in_cbuff_dev_def copy_data_def copied_bytes_def set_lun_def DBUFF_eq DATA_SLACK_eq store_def

lemma sample_command:
  "command_ok (usb_ops_of sample_kernel) write10 (replicate 512 CHR ''x'') (luns (gad (sample_device [])) ! 0)"
  "usb_starts (usb_ops_of sample_kernel)" "buffers_free (gad (sample_device []))" "device_lun (gad (sample_device [])) = Some 0"
  "0 < length (luns (gad (sample_device [])))" "writer (sample_device []) = WReply 0"
proof -
  have "\<exists>k < (32 :: nat). (512 :: u32) = 2 ^ k \<and> 2 ^ k dvd (16384 :: nat) \<and> 2 ^ k dvd (512 :: nat)" by (intro exI [of _ 9]) simp
  then show "command_ok (usb_ops_of sample_kernel) write10 (replicate 512 CHR ''x'') (luns (gad (sample_device [])) ! 0)"
    by (simp add: command_ok_def sample_kernel_def sample_usb_def sample_device_def sample_gadget_def sample_lun_def write10_def WRITE_6_def WRITE_10_def
        reserved_bits_def get_unaligned_be32_def)
  show "usb_starts (usb_ops_of sample_kernel)" by (simp add: usb_starts_def sample_kernel_def sample_usb_def)
  show "buffers_free (gad (sample_device []))" "device_lun (gad (sample_device [])) = Some 0"
    "0 < length (luns (gad (sample_device [])))" "writer (sample_device []) = WReply 0"
    by (simp_all add: buffers_free_def sample_device_def sample_gadget_def)
qed

lemma sample_command_run:
  "\<exists>d1 d'. device_step sample_kernel (Command write10 (of_nat (length (replicate 512 CHR ''x''))) (Some 0) 0) (sample_device []) = Inr d1
     \<and> honest_run (transfer_of (usb_ops_of sample_kernel) write10 (replicate 512 CHR ''x'') (luns (gad (sample_device [])) ! 0) (gad (sample_device []))) sample_kernel sample_tail d1
     \<and> device_run sample_kernel sample_tail d1 = Inr d' \<and> writer d' = WReply (- EIO)"
  by (simp add: sample_defs transfer_of_def window_def pieces_for_def usb_honest_def slot_def holds_piece_def piece_def)

theorem command_data_taken_witness:
  "\<exists>d1 d'. device_step sample_kernel (Command write10 512 (Some 0) 0) (sample_device []) = Inr d1
     \<and> device_run sample_kernel sample_tail d1 = Inr d' \<and> taken d' = replicate 512 CHR ''x''"
proof -
  obtain d1 d' where d: "device_step sample_kernel (Command write10 (of_nat (length (replicate 512 CHR ''x''))) (Some 0) 0) (sample_device []) = Inr d1"
     "honest_run (transfer_of (usb_ops_of sample_kernel) write10 (replicate 512 CHR ''x'') (luns (gad (sample_device [])) ! 0) (gad (sample_device []))) sample_kernel sample_tail d1"
     "device_run sample_kernel sample_tail d1 = Inr d'" "writer d' = WReply (- EIO)"
    using sample_command_run by blast
  have "taken (sample_device []) = []" by (simp add: sample_device_def)
  then show ?thesis
    using command_data_taken [OF sample_kernel_facts(1,2) sample_device_ok sample_command(6,3-5,1,2) d(1-3)] d by auto
qed

section \<open>A command can be answered\<close>

definition finishes :: "transfer \<Rightarrow> 'f kernel \<Rightarrow> 'f device \<Rightarrow> bool" where
  "finishes t k d \<longleftrightarrow> (\<exists>es d'. honest_run t k es d \<and> device_run k es d = Inr d' \<and> writer d' = WReply (- EIO))"

lemma finishes_step:
  assumes "honest_run t k [e] d" and "device_step k e d = Inr d1" and "finishes t k d1"
  shows "finishes t k d"
proof -
  obtain es d' where "honest_run t k es d1" "device_run k es d1 = Inr d'" "writer d' = WReply (- EIO)"
    using assms(3) by (auto simp: finishes_def)
  then show ?thesis using assms(1,2) unfolding finishes_def
    by (intro exI [of _ "e # es"] exI [of _ d']) simp
qed

text \<open>A step of the gadget's thread that ends in a given state.\<close>

lemma finishes_writer:
  assumes "writer_step (usb_ops_of k) 0 False (writer d) (gad d) = Inr (pc, g)"
    and "finishes t k (d\<lparr>gad := g, writer := pc, taken := taken d @ copied_bytes (writer d) (gad d)\<rparr>)"
  shows "finishes t k d"
  by (rule finishes_step [of t k "Writer 0 False"]) (use assms in simp_all)

text \<open>What is assumed of a state: the copy stays in the allocation, and there is room for the rest of the data.\<close>

definition room_for_rest :: "transfer \<Rightarrow> nat \<Rightarrow> 'f device \<Rightarrow> bool" where
  "room_for_rest t m d \<longleftrightarrow> databuf_ok (gad d) \<and> tr_len t \<le> DATA_SLACK
     \<and> dev_used (gad d) + length (tr_data t) \<le> DBUFF + upto_piece t m"

lemma copy_data_returns:
  assumes "copying t m c v i a g" and "buffhds g \<noteq> []" and "sizes_ok t" and "databuf_ok g" and "tr_len t \<le> DATA_SLACK"
  shows "\<exists>pc g'. copy_data False v i a h g = Inr (pc, g')"
proof -
  let ?bh = "buffhds g ! i" and ?p = "length (piece t m)"
  have s: "i = slot t g m" "a = of_nat ?p" "holds_piece t m ?bh" using assms(1) unfolding copying_def by blast+
  have i: "i < length (buffhds g)" using assms(2) s(1) by simp
  have a: "unat a = ?p" using s(2) piece_small [OF assms(3)] by (simp add: small_word)
  have p: "prefix (piece t m) (bh_buf ?bh)" using s(3) by (simp add: holds_piece_def)
  then have len: "unat a \<le> length (bh_buf ?bh)" using a prefix_length_le by metis
  obtain b where b: "cbuffer (data_cbuff g) = Some b" "live b" "bsize b = DBUFF + DATA_SLACK"
    using assms(4) by (rule databuf_okE)
  have "?p \<le> DATA_SLACK" using assms(5) by (simp add: length_piece)
  then have "unat (h mod of_nat DBUFF :: u64) + length (take (unat a) (bh_buf ?bh)) \<le> bsize b"
    using dev_ring.linear_write_fits [of ?p h] a b(3) len by simp
  from store_word [OF b(2) this] show ?thesis using i len b(1) by (simp add: copy_data_def get_bh_def)
qed

lemma finish_copy:
  assumes "sending t m c d" and "sizes_ok t" and "room_for_rest t m d" and "writer d = WCopy v i a h"
    and nxt: "\<And>d1. sending t (Suc m) c d1 \<Longrightarrow> room_for_rest t (Suc m) d1 \<Longrightarrow> finishes t k d1"
  shows "finishes t k d"
proof -
  have cp: "copying t m c v i a (gad d)" "buffhds (gad d) \<noteq> []" "disk_ok t (gad d)"
    using assms(1,4) by (simp_all add: sending_def transfer_inv_def)
  have rm: "databuf_ok (gad d)" "tr_len t \<le> DATA_SLACK" "dev_used (gad d) + length (tr_data t) \<le> DBUFF + upto_piece t m"
    using assms(3) by (simp_all add: room_for_rest_def)
  obtain pc g where g: "copy_data False v i a h (gad d) = Inr (pc, g)" using copy_data_returns [OF cp(1,2) assms(2) rm(1,2)] by blast
  note inv = copy_data_inv [OF cp(1,2) assms(2) g] and eff = copy_data_effect [OF g] and fr = copy_data_frame [OF g]
  let ?d = "d\<lparr>gad := g, writer := pc, taken := taken d @ copied_bytes (writer d) (gad d)\<rparr>"
  have "disk_ok t g" by (rule disk_ok_frame [OF cp(3)]) (use fr in \<open>simp_all add: writer_frame_def\<close>)
  then have "sending t (Suc m) c ?d" using inv(1) by (simp add: sending_def)
  moreover have "room_for_rest t (Suc m) ?d"
  proof -
    have p: "upto_piece t m + length (piece t m) \<le> length (tr_data t)" using upto_piece_le [of t "Suc m"] by (simp add: upto_piece_Suc)
    have "dev_used (gad d) + length (piece t m) < 2 ^ 64" using rm(3) p dev_ring.cap_lt by linarith
    then have "dev_used g = dev_used (gad d) + length (piece t m)"
      using eff(3,4) inv(2) dev_ring.used_add [of "chead (data_cbuff (gad d))" "ctail (data_cbuff (gad d))" "length (piece t m)"]
      by (simp add: dev_used_def)
    moreover have "head_seen pc g" using eff(5) by (simp add: head_seen_def split: writer_pc.splits)
    ultimately show ?thesis using rm p fr by (simp add: room_for_rest_def upto_piece_Suc writer_frame_def)
  qed
  ultimately have "finishes t k ?d" by (rule nxt)
  then show ?thesis by (rule finishes_writer [rotated]) (use g assms(4) in simp)
qed

lemma finish_space:
  assumes "sending t m c d" and "sizes_ok t" and "room_for_rest t m d" and "writer d = WSpace v i a"
    and nxt: "\<And>d1. sending t (Suc m) c d1 \<Longrightarrow> room_for_rest t (Suc m) d1 \<Longrightarrow> finishes t k d1"
  shows "finishes t k d"
proof -
  have cp: "copying t m c v i a (gad d)" "buffhds (gad d) \<noteq> []" "disk_ok t (gad d)"
    using assms(1,4) by (simp_all add: sending_def transfer_inv_def)
  have "m < c" "locals_ok t m c v" using cp(1) unfolding copying_def by blast+
  then have "m * tr_len t < length (tr_data t)" by (simp add: locals_ok_def)
  then have "upto_piece t m < length (tr_data t)" by (simp add: upto_piece_less)
  moreover have "dev_used (gad d) + length (tr_data t) \<le> DBUFF + upto_piece t m" using assms(3) by (simp add: room_for_rest_def)
  ultimately have used: "dev_used (gad d) < DBUFF" by linarith
  then have sp: "make_space_in_cbuff_dev (gad d) = Some (chead (data_cbuff (gad d)))"
    by (simp add: make_space_in_cbuff_dev_def dev_used_def word_le_nat_alt dev_ring.unat_cap not_le)
  let ?pc = "WCopy v i a (chead (data_cbuff (gad d)))"
  let ?d = "d\<lparr>gad := gad d, writer := ?pc, taken := taken d @ copied_bytes (writer d) (gad d)\<rparr>"
  have s: "sending t m c ?d" using cp by (simp add: sending_def transfer_inv_def)
  have r: "room_for_rest t m ?d" using assms(3) used by (simp add: room_for_rest_def head_seen_def)
  have "finishes t k ?d" by (rule finish_copy [OF s assms(2) r _ nxt]) simp_all
  then show ?thesis by (rule finishes_writer [rotated]) (use sp assms(4) in simp)
qed

text \<open>The oldest buffer is filled: its piece is taken up.\<close>

lemma finish_full:
  assumes "sending t m c d" and "sizes_ok t" and "room_for_rest t m d" and "writer d = WLoop v" and "upto_piece t m < length (tr_data t)" and "m < c"
    and "bh_state (buffhds (gad d) ! slot t (gad d) m) = BUF_STATE_FULL"
    and "bh_state (buffhds (gad d) ! slot t (gad d) c) = BUF_STATE_EMPTY \<longrightarrow> \<not> get_some_more v"
    and nxt: "\<And>d1. sending t (Suc m) c d1 \<Longrightarrow> room_for_rest t (Suc m) d1 \<Longrightarrow> finishes t k d1"
  shows "finishes t k d"
proof -
  let ?g = "gad d" and ?bh = "buffhds (gad d) ! slot t (gad d) m"
  have inv: "transfer_inv t m c (WLoop v) ?g" and disk: "disk_ok t ?g" using assms(1,4) by (simp_all add: sending_def)
  then have i: "buffhds ?g \<noteq> []" "locals_ok t m c v" "outstanding t m c ?g" "next_buffhd_to_fill ?g = slot t ?g c" "next_buffhd_to_drain ?g = slot t ?g m"
    by (simp_all add: transfer_inv_def)
  have "queued_for t m ?bh" using i(3) assms(6) by (simp add: outstanding_def)
  then have h: "holds_piece t m ?bh" using assms(7) by (simp add: queued_for_def)
  obtain l where l: "get_lun (curlun ?g) ?g = Inr l" using disk unfolding disk_ok_def by blast
  have ml: "m * tr_len t < length (tr_data t)" using assms(5) by (simp add: upto_piece_less)
  note cl = clipped_amount_piece [OF disk assms(2) i(2) h l ml]
  have left: "amount_left_to_write v \<noteq> 0" using loop_left [OF assms(2) i(2)] assms(5) by simp
  let ?pc = "WSpace v (slot t ?g m) (of_nat (length (piece t m)))"
  obtain g where dr: "drain_buffer 0 v ?g = Inr (?pc, g)"
    using i(1,5) assms(7) l cl h by (simp add: drain_buffer_def get_slot Let_def holds_piece_def)
  have w: "writer_step (usb_ops_of k) 0 False (writer d) ?g = Inr (?pc, g)"
    using assms(4,8) left i(1,4) dr by (auto simp: write_turn_def get_slot)
  let ?d = "d\<lparr>gad := g, writer := ?pc, taken := taken d @ copied_bytes (writer d) (gad d)\<rparr>"
  note fr = drain_buffer_frame [OF dr]
  have "disk_ok t g" by (rule disk_ok_frame [OF disk]) (use fr in \<open>simp_all add: writer_frame_def\<close>)
  then have s: "sending t m c ?d" using drain_buffer_inv [OF inv disk assms(2,5,8) dr] by (simp add: sending_def)
  have "data_cbuff g = data_cbuff ?g" using writer_step_other(1) [OF w] assms(4) by simp
  then have r: "room_for_rest t m ?d" using assms(3) by (simp add: room_for_rest_def databuf_ok_def dev_used_def head_seen_def)
  have "finishes t k ?d" by (rule finish_space [OF s assms(2) r _ nxt]) simp_all
  then show ?thesis by (rule finishes_writer [OF w])
qed

text \<open>The oldest buffer is still with the controller: it fills it.\<close>

lemma finish_busy:
  assumes "sending t m c d" and "sizes_ok t" and "room_for_rest t m d" and "writer d = WLoop v" and "upto_piece t m < length (tr_data t)" and "m < c"
    and "bh_state (buffhds (gad d) ! slot t (gad d) m) = BUF_STATE_BUSY"
    and "bh_state (buffhds (gad d) ! slot t (gad d) c) = BUF_STATE_EMPTY \<longrightarrow> \<not> get_some_more v"
    and nxt: "\<And>d1. sending t (Suc m) c d1 \<Longrightarrow> room_for_rest t (Suc m) d1 \<Longrightarrow> finishes t k d1"
  shows "finishes t k d"
proof -
  let ?g = "gad d" and ?s = "slot t (gad d) m"
  let ?bh = "(buffhds ?g ! ?s)\<lparr>bh_state := BUF_STATE_FULL, bh_buf := piece t m, outreq_status := 0,
    outreq_actual := bulk_out_intended_length (buffhds ?g ! ?s)\<rparr>"
  let ?bhs = "(buffhds ?g)[?s := ?bh]"
  let ?d = "d\<lparr>gad := ?g\<lparr>buffhds := ?bhs\<rparr>\<rparr>"
  have inv: "transfer_inv t m c (WLoop v) ?g" using assms(1,4) by (simp add: sending_def)
  then have i: "buffhds ?g \<noteq> []" "outstanding t m c ?g" by (simp_all add: transfer_inv_def)
  have q: "queued_for t m (buffhds ?g ! ?s)" using i(2) assms(6) by (simp add: outstanding_def)
  have h: "holds_piece t m ?bh" using q by (simp add: holds_piece_def queued_for_def)
  have win: "window t (writer d) = (m, c)" using window_of_inv [OF inv assms(2)] assms(4) by simp
  have hon: "usb_honest t m c ?g ?bhs"
    unfolding usb_honest_def
  proof (intro conjI allI impI)
    fix j assume "j < length ?bhs"
    then show "?bhs ! j = buffhds ?g ! j \<or> (\<exists>j' < c. m \<le> j' \<and> j = slot t ?g j' \<and> bh_state (buffhds ?g ! j) = BUF_STATE_BUSY
        \<and> bh_state (?bhs ! j) = BUF_STATE_FULL \<and> holds_piece t j' (?bhs ! j))"
      using assms(6,7) h i(1) by (cases "j = ?s") auto
  qed simp
  have s: "sending t m c ?d" by (rule sending_usb [OF assms(1,2)]) (use win hon in simp)
  have r: "room_for_rest t m ?d"
    using assms(3,4) by (simp add: room_for_rest_def databuf_ok_def dev_used_def head_seen_def)
  have sl: "slot t (?g\<lparr>buffhds := ?bhs\<rparr>) j = slot t ?g j" for j by (simp add: slot_def)
  have "finishes t k ?d"
  proof (rule finish_full [OF s assms(2) r _ assms(5,6) _ _ nxt])
    show "bh_state (buffhds (gad ?d) ! slot t (gad ?d) m) = BUF_STATE_FULL" using i(1) by (simp add: sl)
    show "bh_state (buffhds (gad ?d) ! slot t (gad ?d) c) = BUF_STATE_EMPTY \<longrightarrow> \<not> get_some_more v"
      using assms(8) i(1) by (cases "slot t ?g c = ?s") (simp_all add: sl)
  qed (use assms(4) in simp_all)
  then show ?thesis by (rule finishes_step [of t k "Usb ?bhs", rotated 2]) (use win hon in simp_all)
qed

lemma upto_piece_grows:
  assumes "sizes_ok t" and "upto_piece t c < length (tr_data t)"
  shows "length (tr_data t) - upto_piece t (Suc c) < length (tr_data t) - upto_piece t c"
proof -
  have "0 < length (piece t c)" using assms by (simp add: length_piece sizes_ok_def upto_piece_less)
  then show ?thesis using assms(2) unfolding upto_piece_Suc by linarith
qed

lemma finish_any:
  assumes "sizes_ok t" and "usb_good (usb_ops_of k) t"
    and nxt: "\<And>c d1. upto_piece t m < length (tr_data t) \<Longrightarrow> sending t (Suc m) c d1 \<Longrightarrow> room_for_rest t (Suc m) d1 \<Longrightarrow> finishes t k d1"
  shows "sending t m c d \<Longrightarrow> room_for_rest t m d \<Longrightarrow> finishes t k d"
proof (induction "length (tr_data t) - upto_piece t c" arbitrary: c d rule: less_induct)
  case less
  note s = less.prems(1) and r = less.prems(2)
  have inv: "transfer_inv t m c (writer d) (gad d)" and disk: "disk_ok t (gad d)" using s by (simp_all add: sending_def)
  have below: "upto_piece t m < length (tr_data t)" if "copying t m c v i a (gad d)" for v i a
  proof -
    have "m < c" "locals_ok t m c v" using that unfolding copying_def by blast+
    then show ?thesis by (simp add: locals_ok_def upto_piece_less)
  qed
  show ?case
  proof (cases "writer d")
    case (WReply x)
    then have "finishes t k d \<longleftrightarrow> True" unfolding finishes_def using inv by (intro iffI) (auto simp: transfer_inv_def intro!: exI [of _ "[]"])
    then show ?thesis by simp
  next
    case (WSpace v i a)
    then have "copying t m c v i a (gad d)" using inv by (simp add: transfer_inv_def)
    from nxt [OF below [OF this]] show ?thesis by (rule finish_space [OF s assms(1) r WSpace])
  next
    case (WCopy v i a h)
    then have "copying t m c v i a (gad d)" using inv by (simp add: transfer_inv_def)
    from nxt [OF below [OF this]] show ?thesis by (rule finish_copy [OF s assms(1) r WCopy])
  next
    case (WLoop v)
    then have i: "buffhds (gad d) \<noteq> []" "locals_ok t m c v" "outstanding t m c (gad d)" "next_buffhd_to_fill (gad d) = slot t (gad d) c"
      using inv by (simp_all add: transfer_inv_def)
    let ?bh = "buffhds (gad d) ! slot t (gad d) c"
    show ?thesis
    proof (cases "upto_piece t m = length (tr_data t)")
      case True
      then have "writer_step (usb_ops_of k) 0 False (writer d) (gad d) = Inr (WReply (- EIO), gad d)"
        using WLoop loop_left [OF assms(1) i(2)] by (simp add: write_turn_def)
      then show ?thesis unfolding finishes_def by (intro exI [of _ "[Writer 0 False]"]) simp
    next
      case False
      then have lt: "upto_piece t m < length (tr_data t)" using upto_piece_le [of t m] by linarith
      have left: "amount_left_to_write v \<noteq> 0" using loop_left [OF assms(1) i(2)] False by simp
      show ?thesis
      proof (cases "bh_state ?bh = BUF_STATE_EMPTY \<and> get_some_more v")
        case True
        then have more: "upto_piece t c < length (tr_data t)" using i(2) by (simp add: locals_ok_def)
        obtain l where l: "get_lun (curlun (gad d)) (gad d) = Inr l" using disk unfolding disk_ok_def by blast
        have "\<exists>pc g. queue_request (usb_ops_of k) v ?bh (gad d) = Inr (pc, g)"
          using l by (simp add: queue_request_def Let_def split: option.splits)
        then obtain pc g where g: "queue_request (usb_ops_of k) v ?bh (gad d) = Inr (pc, g)" by blast
        then have w: "writer_step (usb_ops_of k) 0 False (writer d) (gad d) = Inr (pc, g)"
          using WLoop True left i(1,4) by (simp add: write_turn_def get_slot)
        let ?d = "d\<lparr>gad := g, writer := pc, taken := taken d @ copied_bytes (writer d) (gad d)\<rparr>"
        note fr = queue_request_frame [OF g]
        have "disk_ok t g" by (rule disk_ok_frame [OF disk]) (use fr in \<open>simp_all add: writer_frame_def\<close>)
        then have s': "sending t m (Suc c) ?d"
          using queue_request_inv [OF inv [unfolded WLoop] disk assms(1,2) _ _ g] True by (simp add: sending_def)
        have o: "data_cbuff g = data_cbuff (gad d)" "head_seen pc g" using writer_step_other [OF w] WLoop by simp_all
        then have r': "room_for_rest t m ?d" using r by (simp add: room_for_rest_def databuf_ok_def dev_used_def)
        from less.hyps [OF upto_piece_grows [OF assms(1) more] s' r'] show ?thesis by (rule finishes_writer [OF w])
      next
        case False
        then have ne: "bh_state ?bh = BUF_STATE_EMPTY \<longrightarrow> \<not> get_some_more v" by blast
        have mc: "m < c"
        proof (rule ccontr)
          assume "\<not> m < c"
          then have "m = c" using i(3) by (simp add: outstanding_def)
          then have "bh_state ?bh = BUF_STATE_EMPTY" "get_some_more v" using i lt by (simp_all add: outstanding_def locals_ok_def)
          then show False using ne by blast
        qed
        have "queued_for t m (buffhds (gad d) ! slot t (gad d) m)" using i(3) mc by (simp add: outstanding_def)
        then consider "bh_state (buffhds (gad d) ! slot t (gad d) m) = BUF_STATE_FULL" | "bh_state (buffhds (gad d) ! slot t (gad d) m) = BUF_STATE_BUSY"
          by (auto simp: queued_for_def)
        then show ?thesis
        proof cases
          case 1
          then show ?thesis by (rule finish_full [OF s assms(1) r WLoop lt mc _ ne nxt [OF lt]])
        next
          case 2
          then show ?thesis by (rule finish_busy [OF s assms(1) r WLoop lt mc _ ne nxt [OF lt]])
        qed
      qed
    qed
  qed
qed

lemma sending_finishes:
  assumes "sizes_ok t" and "usb_good (usb_ops_of k) t"
  shows "sending t m c d \<Longrightarrow> room_for_rest t m d \<Longrightarrow> finishes t k d"
proof (induction "length (tr_data t) - upto_piece t m" arbitrary: m c d rule: less_induct)
  case less
  have "finishes t k d1" if "upto_piece t m < length (tr_data t)" "sending t (Suc m) c' d1" "room_for_rest t (Suc m) d1" for c' d1
    using less.hyps [OF upto_piece_grows [OF assms(1) that(1)] that(2,3)] .
  then show ?case using finish_any [OF assms _ less.prems] by blast
qed

lemma first_lap_keep:
  assumes "stores_at data (vfs_write k)" and "writes_own_disk k" and "device_ok data d" and "first_lap d" and "device_run k es d = Inr d'"
    and "length (taken d') \<le> DBUFF"
  shows "first_lap d'"
  using assms(3-5)
proof (induction es arbitrary: d)
  case (Cons e es)
  then obtain d1 where d1: "device_step k e d = Inr d1" "device_run k es d1 = Inr d'" by auto
  have ok: "device_ok data d1" using device_step_extends [OF assms(1,2) "Cons.prems"(1) d1(1)] by blast
  have "length (taken d1) \<le> length (taken d')" using device_run_prefix [OF assms(1,2) ok d1(2)] prefix_length_le by blast
  then have "length (taken d1) \<le> DBUFF" using assms(6) by linarith
  then show ?case by (rule "Cons.IH" [OF ok first_lap_step [OF assms(1,2) "Cons.prems"(1,2) d1(1)] d1(2)])
qed simp

lemma first_lap_used:
  assumes "first_lap d" and "length (taken d) \<le> DBUFF"
  shows "dev_used (gad d) \<le> length (taken d)"
proof -
  have h: "unat (chead (data_cbuff (gad d))) = length (taken d)"
    using assms dev_ring.cap_lt by (simp add: first_lap_def unat_of_nat take_bit_eq_mod)
  have t: "ctail (data_cbuff (gad d)) \<le> chead (data_cbuff (gad d))" by (rule conjunct1 [OF conjunct2 [OF assms(1) [unfolded first_lap_def]]])
  show ?thesis unfolding dev_used_def unat_sub [OF t] using h by simp
qed

lemma command_finishes:
  assumes "stores_at data (vfs_write k)" and "writes_own_disk k" and "device_ok data d" and "writer d = WReply r" and "buffers_free (gad d)"
    and "device_lun (gad d) = Some i" and "i < length (luns (gad d))"
    and "command_ok (usb_ops_of k) cdb bs (luns (gad d) ! i)" and "usb_starts (usb_ops_of k)"
    and "device_step k (Command cdb (of_nat (length bs)) (Some i) 0) d = Inr d1"
    and "honest_run (transfer_of (usb_ops_of k) cdb bs (luns (gad d) ! i) (gad d)) k es d1" and "device_run k es d1 = Inr d'"
    and "first_lap d" and "length (taken d) + length bs \<le> DBUFF" and "unat (FSG_BUFLEN (usb_ops_of k)) \<le> DATA_SLACK"
  shows "\<exists>fs d''. honest_run (transfer_of (usb_ops_of k) cdb bs (luns (gad d) ! i) (gad d)) k fs d'
    \<and> device_run k fs d' = Inr d'' \<and> writer d'' = WReply (- EIO) \<and> taken d'' = taken d @ bs"
proof -
  let ?t = "transfer_of (usb_ops_of k) cdb bs (luns (gad d) ! i) (gad d)"
  note s = command_starts [OF assms(3-10)]
  have ok: "device_ok data d1" using device_step_extends [OF assms(1-3,10)] by blast
  then have ok': "device_ok data d'" using device_run_extends [OF assms(1,2) ok assms(12)] by blast
  obtain m c xs where m: "sending ?t m c d'" "taken d' = taken d @ xs" "take (upto_piece ?t m) bs = xs"
    using sending_run [OF s(2,3) assms(1,2) s(1) ok assms(11,12)] s(4,5) by auto
  have len: "length (taken d') = length (taken d) + upto_piece ?t m" using m(2,3) upto_piece_le [of ?t m] s(5) by auto
  then have le: "length (taken d') \<le> DBUFF" using upto_piece_le [of ?t m] assms(14) s(5) by simp
  have "first_lap d1" by (rule first_lap_step [OF assms(1-3,13,10)]) (use s(4) assms(14) in simp)
  then have "first_lap d'" by (rule first_lap_keep [OF assms(1,2) ok _ assms(12) le])
  then have "dev_used (gad d') \<le> length (taken d')" using le by (rule first_lap_used)
  then have "room_for_rest ?t m d'"
    using ok' assms(14,15) len s(5) by (simp add: room_for_rest_def device_ok_def gadget_ready_def) (simp add: transfer_of_def)
  then obtain fs d'' where f: "honest_run ?t k fs d'" "device_run k fs d' = Inr d''" "writer d'' = WReply (- EIO)"
    using sending_finishes [OF s(2,3) m(1)] unfolding finishes_def by blast
  obtain m' c' ys where m': "sending ?t m' c' d''" "taken d'' = taken d' @ ys" "take (upto_piece ?t m') bs = take (upto_piece ?t m) bs @ ys"
    using sending_run [OF s(2,3) assms(1,2) m(1) ok' f(1,2)] s(5) by auto
  have "upto_piece ?t m' = length bs" using m'(1) f(3) s(5) by (simp add: sending_def transfer_inv_def)
  then show ?thesis using f m' m(2,3) by (intro exI [of _ fs] exI [of _ d'']) simp
qed

text \<open>
  C18: every command can be answered. In the first lap, from every state that an accepted
  command can be in, under any interleaving so far, there is a continuation in which the device replies,
  having copied all of the host's data; in particular no step of it faults.
\<close>

theorem command_can_finish:
  assumes "stores_at data (vfs_write k)" and "writes_own_disk k" and "device_ok data d" and "writer d = WReply r" and "buffers_free (gad d)"
    and "device_lun (gad d) = Some i" and "i < length (luns (gad d))"
    and "command_ok (usb_ops_of k) cdb bs (luns (gad d) ! i)" and "usb_starts (usb_ops_of k)"
    and "device_step k (Command cdb (of_nat (length bs)) (Some i) 0) d = Inr d1"
    and "honest_run (transfer_of (usb_ops_of k) cdb bs (luns (gad d) ! i) (gad d)) k es d1" and "device_run k es d1 = Inr d'"
    and "first_lap d" and "length (taken d) + length bs \<le> DBUFF" and "unat (FSG_BUFLEN (usb_ops_of k)) \<le> DATA_SLACK"
  shows "\<exists>fs d''. honest_run (transfer_of (usb_ops_of k) cdb bs (luns (gad d) ! i) (gad d)) k fs d'
    \<and> device_run k fs d' = Inr d'' \<and> writer d'' = WReply (- EIO) \<and> taken d'' = taken d @ bs"
  using assms by (rule command_finishes)

lemma sample_first_lap: "first_lap (sample_device [])" "taken (sample_device []) = []"
  using fresh_stream(1) [of "sample_device []"] sample_gadget_facts(6) [of "[]"] by (simp_all add: sample_device_def)

theorem command_can_finish_witness:
  "\<exists>d1 fs d''. device_step sample_kernel (Command write10 512 (Some 0) 0) (sample_device []) = Inr d1
     \<and> device_run sample_kernel fs d1 = Inr d'' \<and> writer d'' = WReply (- EIO) \<and> taken d'' = replicate 512 CHR ''x''"
proof -
  obtain d1 where d: "device_step sample_kernel (Command write10 (of_nat (length (replicate 512 CHR ''x''))) (Some 0) 0) (sample_device []) = Inr d1"
    using sample_command_run by blast
  have b: "unat (FSG_BUFLEN (usb_ops_of sample_kernel)) \<le> DATA_SLACK" by (simp add: sample_kernel_def sample_usb_def DATA_SLACK_eq)
  have "\<exists>fs d''. honest_run (transfer_of (usb_ops_of sample_kernel) write10 (replicate 512 CHR ''x'') (luns (gad (sample_device [])) ! 0) (gad (sample_device []))) sample_kernel fs d1
      \<and> device_run sample_kernel fs d1 = Inr d'' \<and> writer d'' = WReply (- EIO) \<and> taken d'' = taken (sample_device []) @ replicate 512 CHR ''x''"
    by (rule command_can_finish [OF sample_kernel_facts(1,2) sample_device_ok sample_command(6,3-5,1,2) d, of "[]"])
       (use b in \<open>simp_all add: sample_first_lap DBUFF_eq\<close>)
  then show ?thesis using d sample_first_lap(2) by auto
qed

end
