(* ===== verification/HL_History.thy ===== *)
theory HL_History
  imports HL_Main "HOL-Library.Sublist"
begin

text \<open>
  Sequential histories of the host: calls that append to the host's buffer, and turns of the daemon. The locale
  \<open>recorder\<close> is what such a call has to promise; histories of \<open>audit_log_end_hardlog\<close> are one
  interpretation, and \<open>HL_Calls\<close> has another, whole system calls with the hooks.
\<close>

section \<open>Histories\<close>

datatype 'e history_step = Event 'e | Turn u64

fun run_steps :: "('e \<Rightarrow> 'dev host \<Rightarrow> 'dev host res) \<Rightarrow> 'dev writer \<Rightarrow> 'e history_step list \<Rightarrow> 'dev host \<Rightarrow> 'dev host res" where
  "run_steps emit write [] s = Inr s"
| "run_steps emit write (Event e # hs) s = rbind (emit e s) (run_steps emit write hs)"
| "run_steps emit write (Turn elapsed # hs) s =
     rbind (auditd_turn write (quiet_turn elapsed) s) (run_steps emit write hs)"

fun events_of :: "'e history_step list \<Rightarrow> 'e list" where
  "events_of [] = []"
| "events_of (Event e # hs) = e # events_of hs"
| "events_of (Turn _ # hs) = events_of hs"

text \<open>Fewer than 4096 bytes between turns, when an event is at most \<open>bound\<close> bytes.\<close>

fun batches :: "('e \<Rightarrow> nat) \<Rightarrow> nat \<Rightarrow> 'e history_step list \<Rightarrow> bool" where
  "batches bound n [] = True"
| "batches bound n (Event e # hs) \<longleftrightarrow> batches bound (n + bound e) hs"
| "batches bound n (Turn _ # hs) \<longleftrightarrow> n < 4096 \<and> batches bound 0 hs"

lemma batches_mono: "batches bound n hs \<Longrightarrow> m \<le> n \<Longrightarrow> batches bound m hs"
proof (induction hs arbitrary: m n)
  case (Cons h hs)
  then show ?case by (cases h) fastforce+
qed simp

lemma batches_append: "batches bound n (xs @ ys) \<Longrightarrow> batches bound n xs"
proof (induction xs arbitrary: n)
  case (Cons h xs)
  then show ?case by (cases h) auto
qed simp

lemma events_of_append [simp]: "events_of (xs @ ys) = events_of xs @ events_of ys"
  by (induction xs rule: events_of.induct) auto

lemma run_steps_append: "run_steps emit write (xs @ ys) s = rbind (run_steps emit write xs s) (run_steps emit write ys)"
proof (induction xs arbitrary: s)
  case (Cons h xs)
  then show ?case by (cases h) (auto simp: rbind_assoc intro!: rbind_cong)
qed simp

text \<open>A step of a history as what another thread does while a call waits: nothing, if it cannot go on.\<close>

definition acts :: "('e \<Rightarrow> 'dev host \<Rightarrow> 'dev host res) \<Rightarrow> 'dev writer \<Rightarrow> 'e history_step \<Rightarrow> 'dev host \<Rightarrow> 'dev host" where
  "acts emit write h s = (case run_steps emit write [h] s of Inl _ \<Rightarrow> s | Inr s' \<Rightarrow> s')"

lemma fold_acts: "run_steps emit write hs s = Inr s' \<Longrightarrow> fold (\<lambda>f. f) (map (acts emit write) hs) s = s'"
proof (induction hs arbitrary: s)
  case (Cons h hs)
  from Cons.prems have "rbind (run_steps emit write [h] s) (run_steps emit write hs) = Inr s'"
    using run_steps_append [of emit "write" "[h]" hs "s"] by simp
  then obtain s1 where "run_steps emit write [h] s = Inr s1" "run_steps emit write hs s1 = Inr s'"
    by (cases "run_steps emit write [h] s") simp_all
  then show ?case using Cons.IH by (simp add: acts_def)
qed simp

text \<open>How the counters move: the head by what is written, the tail to the head at each turn.\<close>

fun turned :: "'e history_step list \<Rightarrow> bool" where
  "turned [] = False"
| "turned (Event _ # hs) = turned hs"
| "turned (Turn _ # hs) = True"

lemma turned_append [simp]: "turned (xs @ ys) \<longleftrightarrow> turned xs \<or> turned ys"
  by (induction xs rule: turned.induct) auto

definition counters_moved :: "bool \<Rightarrow> nat \<Rightarrow> 'dev host \<Rightarrow> 'dev host \<Rightarrow> bool" where
  "counters_moved t n s s' \<longleftrightarrow> unat (head (audit_cbuff s')) = unat (head (audit_cbuff s)) + n
     \<and> unat (tail (audit_cbuff s')) + used (audit_cbuff s') = unat (head (audit_cbuff s'))
     \<and> unat (tail (audit_cbuff s)) \<le> unat (tail (audit_cbuff s'))
     \<and> (if t then unat (head (audit_cbuff s)) \<le> unat (tail (audit_cbuff s')) else tail (audit_cbuff s') = tail (audit_cbuff s))"

section \<open>What a recording call promises\<close>

text \<open>
  A call \<open>emit e\<close> that is \<open>good\<close>, in a host that is \<open>ready\<close>, appends one of the byte strings that \<open>wrote\<close> allows, and
  nothing else that matters changes; a turn of the daemon keeps the host ready.
\<close>

locale recorder =
  fixes emit :: "'e \<Rightarrow> 'dev host \<Rightarrow> 'dev host res"
    and good :: "'e \<Rightarrow> bool"
    and ready :: "'dev host \<Rightarrow> bool"
    and bound :: "'e \<Rightarrow> nat"
    and wrote :: "'e \<Rightarrow> string \<Rightarrow> bool"
  assumes emits: "good e \<Longrightarrow> ready s \<Longrightarrow> hostbuf_ok (audit_cbuff s) \<Longrightarrow> \<not> hardlog_audit_producer s \<Longrightarrow>
      used (audit_cbuff s) + bound e \<le> CBUFF \<Longrightarrow> unat (head (audit_cbuff s)) mod CBUFF + bound e \<le> CBUFF \<Longrightarrow>
      \<exists>s' r. emit e s = Inr s' \<and> wrote e r \<and> length r \<le> bound e \<and> appended s r s' \<and> \<not> hardlog_audit_producer s'
        \<and> head (audit_cbuff s') = head (audit_cbuff s) + of_nat (length r) \<and> ready s'"
    and turn_ready: "ready s \<Longrightarrow> auditd_turn write (quiet_turn elapsed) s = Inr s' \<Longrightarrow> ready s'"
begin

text \<open>
  A history within the first lap of the buffer: what the device stores, with the padding taken out,
  and what is still pending are together what the calls wrote, in order.
\<close>

lemma history_outcome:
  assumes "append_sink stored submit" and "list_all good (events_of hs)" and "batches bound (used (audit_cbuff s)) hs"
    and "unat (tail (audit_cbuff s)) + used (audit_cbuff s) = unat (head (audit_cbuff s))"
    and "unat (head (audit_cbuff s)) + sum_list (map bound (events_of hs)) \<le> CBUFF"
    and "usb_ready (usb_state s)" and "hostbuf_ok (audit_cbuff s)" and "\<not> hardlog_audit_producer s"
    and "unat (write_count (meas s)) + length hs < 2 ^ 32" and "ready s"
  shows "\<exists>s' chunks rs. run_steps emit (bio_write submit) hs s = Inr s' \<and> list_all2 wrote (events_of hs) rs
    \<and> stored (dev (usb_state s')) = stored (dev (usb_state s)) @ concat (map (\<lambda>(data, pad). data @ pad) chunks)
    \<and> (\<forall>(data, pad) \<in> set chunks. length pad < 4096 \<and> 4096 dvd length data + length pad)
    \<and> concat (map fst chunks) @ pending (audit_cbuff s') = pending (audit_cbuff s) @ concat rs
    \<and> counters_moved (turned hs) (length (concat rs)) s s'"
  using assms(2-)
proof (induction hs arbitrary: s)
  case Nil
  then show ?case by (intro exI [of _ s] exI [of _ "[]"]) (simp add: counters_moved_def)
next
  case (Cons h hs)
  show ?case
  proof (cases h)
    case (Event e)
    have H: "unat (head (audit_cbuff s)) + bound e + sum_list (map bound (events_of hs)) \<le> CBUFF"
      using Cons.prems(4) Event by simp
    have m: "unat (head (audit_cbuff s)) mod CBUFF \<le> unat (head (audit_cbuff s))" by (rule mod_less_eq_dividend)
    have room: "used (audit_cbuff s) + bound e \<le> CBUFF" "unat (head (audit_cbuff s)) mod CBUFF + bound e \<le> CBUFF"
      using H Cons.prems(3) m by linarith+
    have good: "good e" using Cons.prems(1) Event by simp
    obtain s1 r where s1: "emit e s = Inr s1" "wrote e r" "length r \<le> bound e" "appended s r s1" "\<not> hardlog_audit_producer s1"
        "head (audit_cbuff s1) = head (audit_cbuff s) + of_nat (length r)" "ready s1"
      using emits [OF good Cons.prems(9,6,7) room] by blast
    have "unat (head (audit_cbuff s)) + length r < 2 ^ 64" using H s1(3) CBUFF_eq by simp
    then have h1: "unat (head (audit_cbuff s1)) = unat (head (audit_cbuff s)) + length r"
      using unat_add_small [of "head (audit_cbuff s)" "length r"] s1(6) by metis
    have p1: "pending (audit_cbuff s1) = pending (audit_cbuff s) @ r"
        "tail (audit_cbuff s1) = tail (audit_cbuff s)" "usb_state s1 = usb_state s" "hostbuf_ok (audit_cbuff s1)"
        "write_count (meas s1) = write_count (meas s)"
      using s1(4) by (simp_all add: appended_def)
    have u1: "used (audit_cbuff s1) = used (audit_cbuff s) + length r"
      using p1(1) length_pending [of "audit_cbuff s1"] by simp
    have b1: "batches bound (used (audit_cbuff s1)) hs"
      using Cons.prems(2) Event s1(3) u1 by (auto intro: batches_mono)
    have "\<exists>s' chunks rs. run_steps emit (bio_write submit) hs s1 = Inr s' \<and> list_all2 wrote (events_of hs) rs
      \<and> stored (dev (usb_state s')) = stored (dev (usb_state s1)) @ concat (map (\<lambda>(data, pad). data @ pad) chunks)
      \<and> (\<forall>(data, pad) \<in> set chunks. length pad < 4096 \<and> 4096 dvd length data + length pad)
      \<and> concat (map fst chunks) @ pending (audit_cbuff s') = pending (audit_cbuff s1) @ concat rs
      \<and> counters_moved (turned hs) (length (concat rs)) s1 s'"
      by (rule Cons.IH) (use Cons.prems Event H p1 s1(3,5,7) b1 in \<open>simp_all add: u1 h1\<close>)
    then obtain s' chunks rs where "run_steps emit (bio_write submit) hs s1 = Inr s'" "list_all2 wrote (events_of hs) rs"
      "stored (dev (usb_state s')) = stored (dev (usb_state s)) @ concat (map (\<lambda>(data, pad). data @ pad) chunks)"
      "\<forall>(data, pad) \<in> set chunks. length pad < 4096 \<and> 4096 dvd length data + length pad"
      "concat (map fst chunks) @ pending (audit_cbuff s') = pending (audit_cbuff s1) @ concat rs"
      and m: "counters_moved (turned hs) (length (concat rs)) s1 s'"
      using p1(3) by auto
    moreover from m have "counters_moved (turned (h # hs)) (length (concat (r # rs))) s s'"
      using h1 p1(2) Event by (auto simp: counters_moved_def)
    ultimately show ?thesis using s1(1,2) p1(1) Event
      by (intro exI [of _ s'] exI [of _ chunks] exI [of _ "r # rs"]) simp
  next
    case (Turn e)
    have pf: "plain_flush (audit_cbuff s)"
    proof (cases "unat (tail (audit_cbuff s)) < CBUFF")
      case True
      then show ?thesis using Cons.prems(2,3,4) Turn by (simp add: plain_flush_def)
    next
      case False
      then have "unat (tail (audit_cbuff s)) = CBUFF" using Cons.prems(3,4) by simp
      then show ?thesis by (simp add: plain_flush_def CBUFF_eq)
    qed
    have "write_count (meas s) \<noteq> - 1" using Cons.prems(8) by (simp add: minus_one_u32)
    from turn_outcome [where t = "quiet_turn e" and xs = "[]" and ys = "[]", OF Cons.prems(5,6) this assms(1) pf]
    obtain s1 pad where s1: "auditd_turn (bio_write submit) (quiet_turn e) s = Inr s1"
        "length pad < 4096" "4096 dvd length (pending (audit_cbuff s)) + length pad"
        "stored (dev (usb_state s1)) = stored (dev (usb_state s)) @ pending (audit_cbuff s) @ pad"
        "pending (audit_cbuff s1) = []" "tail (audit_cbuff s1) = head (audit_cbuff s)"
        "usb_ready (usb_state s1)" "hostbuf_ok (audit_cbuff s1)"
        "unat (write_count (meas s1)) \<le> Suc (unat (write_count (meas s)))"
      by (auto simp: quiet_turn_def appended_refl)
    have h1: "head (audit_cbuff s1) = head (audit_cbuff s)" using s1(5,6) head_of_empty by metis
    have u1: "used (audit_cbuff s1) = 0" using s1(5) by (metis length_pending list.size(3))
    have "\<exists>s' chunks rs. run_steps emit (bio_write submit) hs s1 = Inr s' \<and> list_all2 wrote (events_of hs) rs
      \<and> stored (dev (usb_state s')) = stored (dev (usb_state s1)) @ concat (map (\<lambda>(data, pad). data @ pad) chunks)
      \<and> (\<forall>(data, pad) \<in> set chunks. length pad < 4096 \<and> 4096 dvd length data + length pad)
      \<and> concat (map fst chunks) @ pending (audit_cbuff s') = pending (audit_cbuff s1) @ concat rs
      \<and> counters_moved (turned hs) (length (concat rs)) s1 s'"
      by (rule Cons.IH) (use Cons.prems Turn s1 h1 u1 quiet_turn_mutex [OF s1(1)] turn_ready [OF _ s1(1)] in simp_all)
    then obtain s' chunks rs where "run_steps emit (bio_write submit) hs s1 = Inr s'" "list_all2 wrote (events_of hs) rs"
      "stored (dev (usb_state s')) = stored (dev (usb_state s1)) @ concat (map (\<lambda>(data, pad). data @ pad) chunks)"
      "\<forall>(data, pad) \<in> set chunks. length pad < 4096 \<and> 4096 dvd length data + length pad"
      "concat (map fst chunks) @ pending (audit_cbuff s') = concat rs"
      and m: "counters_moved (turned hs) (length (concat rs)) s1 s'"
      using s1(5) by auto
    moreover from m have "counters_moved (turned (h # hs)) (length (concat rs)) s s'"
      using h1 s1(6) Cons.prems(3) Turn by (auto simp: counters_moved_def split: if_splits)
    ultimately show ?thesis using s1 Turn
      by (intro exI [of _ s'] exI [of _ "(pending (audit_cbuff s), pad) # chunks"] exI [of _ rs]) simp
  qed
qed

text \<open>The states that a waiting thread sees while others make the steps of a history.\<close>

lemma seen_outcome:
  assumes "append_sink stored submit" and "list_all good (events_of hs)" and "batches bound (used (audit_cbuff s)) hs"
    and "unat (tail (audit_cbuff s)) + used (audit_cbuff s) = unat (head (audit_cbuff s))"
    and "unat (head (audit_cbuff s)) + sum_list (map bound (events_of hs)) \<le> CBUFF"
    and "usb_ready (usb_state s)" and "hostbuf_ok (audit_cbuff s)" and "\<not> hardlog_audit_producer s"
    and "unat (write_count (meas s)) + length hs < 2 ^ 32" and "ready s"
  shows "\<exists>s' chunks rs. fold (\<lambda>f. f) (take k (map (acts emit (bio_write submit)) hs)) s = s'
    \<and> stored (dev (usb_state s')) = stored (dev (usb_state s)) @ concat (map (\<lambda>(data, pad). data @ pad) chunks)
    \<and> (\<forall>(data, pad) \<in> set chunks. length pad < 4096 \<and> 4096 dvd length data + length pad)
    \<and> concat (map fst chunks) @ pending (audit_cbuff s') = pending (audit_cbuff s) @ concat rs
    \<and> counters_moved (turned (take k hs)) (length (concat rs)) s s'"
proof -
  have ev: "events_of hs = events_of (take k hs) @ events_of (drop k hs)" by (metis append_take_drop_id events_of_append)
  have good: "list_all good (events_of (take k hs))" using assms(2) ev by simp
  have batch: "batches bound (used (audit_cbuff s)) (take k hs)" using assms(3) by (metis append_take_drop_id batches_append)
  have room: "unat (head (audit_cbuff s)) + sum_list (map bound (events_of (take k hs))) \<le> CBUFF" using assms(5) ev by simp
  have "unat (write_count (meas s)) + length (take k hs) < 2 ^ 32" using assms(9) by simp
  from history_outcome [OF assms(1) good batch assms(4) room assms(6-8) this assms(10)]
  obtain s' chunks rs where "run_steps emit (bio_write submit) (take k hs) s = Inr s'"
      "stored (dev (usb_state s')) = stored (dev (usb_state s)) @ concat (map (\<lambda>(data, pad). data @ pad) chunks)"
      "\<forall>(data, pad) \<in> set chunks. length pad < 4096 \<and> 4096 dvd length data + length pad"
      "concat (map fst chunks) @ pending (audit_cbuff s') = pending (audit_cbuff s) @ concat rs"
      "counters_moved (turned (take k hs)) (length (concat rs)) s s'" by blast
  moreover from this(1) have "fold (\<lambda>f. f) (take k (map (acts emit (bio_write submit)) hs)) s = s'"
    unfolding take_map by (rule fold_acts)
  ultimately show ?thesis by blast
qed

text \<open>
  A thread that waits until the tail has reached the present head: it returns when there is a turn among the steps of the
  others, and then all that was pending is on the device; without a turn it waits for ever.
\<close>

lemma wait_durable:
  assumes "append_sink stored submit" and "list_all good (events_of hs)" and "batches bound (used (audit_cbuff s)) hs"
    and "unat (tail (audit_cbuff s)) + used (audit_cbuff s) = unat (head (audit_cbuff s))"
    and "unat (head (audit_cbuff s)) + sum_list (map bound (events_of hs)) \<le> CBUFF"
    and "usb_ready (usb_state s)" and "hostbuf_ok (audit_cbuff s)" and "\<not> hardlog_audit_producer s"
    and "unat (write_count (meas s)) + length hs < 2 ^ 32" and "ready s" and "turned hs"
  shows "\<exists>s' env' chunks. wait_while (\<lambda>x. tail (audit_cbuff x) < head (audit_cbuff s)) (map (acts emit (bio_write submit)) hs) s = Inr (s', env')
    \<and> stored (dev (usb_state s')) = stored (dev (usb_state s)) @ concat (map (\<lambda>(data, pad). data @ pad) chunks)
    \<and> (\<forall>(data, pad) \<in> set chunks. length pad < 4096 \<and> 4096 dvd length data + length pad)
    \<and> prefix (pending (audit_cbuff s)) (concat (map fst chunks))"
proof -
  let ?env = "map (acts emit (bio_write submit)) hs" and ?c = "\<lambda>x. tail (audit_cbuff x) < head (audit_cbuff s)"
  obtain e n where "fold (\<lambda>f. f) (take (length hs) ?env) s = e" "counters_moved (turned (take (length hs) hs)) n s e"
    using seen_outcome [OF assms(1-10), of "length hs"] by blast
  then have "\<not> ?c (fold (\<lambda>f. f) (take (length hs) ?env) s)"
    using assms(11) by (simp add: counters_moved_def word_less_nat_alt)
  then obtain s' env' where w: "wait_while ?c ?env s = Inr (s', env')"
    using wait_while_returns [of "length hs" ?env ?c s] by auto
  obtain k where k: "s' = fold (\<lambda>f. f) (take k ?env) s" "\<not> ?c s'"
    using wait_while_state [OF w] by (elim exE conjE) (rule that)
  obtain chunks and rs :: "string list" where sk: "stored (dev (usb_state s')) = stored (dev (usb_state s)) @ concat (map (\<lambda>(data, pad). data @ pad) chunks)"
      "\<forall>(data, pad) \<in> set chunks. length pad < 4096 \<and> 4096 dvd length data + length pad"
      "concat (map fst chunks) @ pending (audit_cbuff s') = pending (audit_cbuff s) @ concat rs"
      "counters_moved (turned (take k hs)) (length (concat rs)) s s'"
    using seen_outcome [OF assms(1-10), of k] unfolding k(1) [symmetric] by blast
  have "length (pending (audit_cbuff s')) \<le> length (concat rs)"
    using sk(4) k(2) by (simp add: counters_moved_def word_less_nat_alt)
  then have short: "length (pending (audit_cbuff s)) \<le> length (concat (map fst chunks))"
    using arg_cong [OF sk(3), of length] unfolding length_append by linarith
  have "prefix (pending (audit_cbuff s)) (concat (map fst chunks))"
    by (rule prefix_length_prefix [OF prefixI [OF sk(3)] prefixI [OF refl] short])
  then show ?thesis using w sk(1,2) by blast
qed

lemma wait_needs_turn:
  assumes "append_sink stored submit" and "list_all good (events_of hs)" and "batches bound (used (audit_cbuff s)) hs"
    and "unat (tail (audit_cbuff s)) + used (audit_cbuff s) = unat (head (audit_cbuff s))"
    and "unat (head (audit_cbuff s)) + sum_list (map bound (events_of hs)) \<le> CBUFF"
    and "usb_ready (usb_state s)" and "hostbuf_ok (audit_cbuff s)" and "\<not> hardlog_audit_producer s"
    and "unat (write_count (meas s)) + length hs < 2 ^ 32" and "ready s" and "\<not> turned hs" and "pending (audit_cbuff s) \<noteq> []"
  shows "wait_while (\<lambda>x. tail (audit_cbuff x) < head (audit_cbuff s)) (map (acts emit (bio_write submit)) hs) s = Inl Waiting"
proof (rule ccontr)
  let ?env = "map (acts emit (bio_write submit)) hs"
  assume "\<not> ?thesis"
  then obtain s' env' where w: "wait_while (\<lambda>x. tail (audit_cbuff x) < head (audit_cbuff s)) ?env s = Inr (s', env')"
    using wait_while_cases [of "\<lambda>x. tail (audit_cbuff x) < head (audit_cbuff s)" ?env s] by auto
  obtain k where k: "s' = fold (\<lambda>f. f) (take k ?env) s" "\<not> tail (audit_cbuff s') < head (audit_cbuff s)"
    using wait_while_state [OF w] by (elim exE conjE) (rule that)
  obtain n where n: "counters_moved (turned (take k hs)) n s s'"
    using seen_outcome [OF assms(1-10), of k] unfolding k(1) [symmetric] by blast
  have "\<not> turned (take k hs)" using assms(11) by (metis append_take_drop_id turned_append)
  then have "tail (audit_cbuff s') = tail (audit_cbuff s)" using n by (simp add: counters_moved_def)
  moreover have "0 < used (audit_cbuff s)" using assms(12) by (metis length_pending length_greater_0_conv)
  ultimately show False using k(2) assms(4) by (simp add: word_less_nat_alt)
qed

end

section \<open>Histories of \<open>audit_log_end_hardlog\<close>\<close>

definition end_event :: "audit_buffer \<Rightarrow> 'dev host \<Rightarrow> 'dev host res" where
  "end_event ab s = rbind (audit_log_end_hardlog False 0 (Some ab) [] s) (\<lambda>(_, s', _). Inr s')"

abbreviation run_history :: "'dev writer \<Rightarrow> audit_buffer history_step list \<Rightarrow> 'dev host \<Rightarrow> 'dev host res" where
  "run_history \<equiv> run_steps end_event"

abbreviation event_bytes :: "audit_buffer \<Rightarrow> string" where
  "event_bytes ab \<equiv> event_text ab @ [NEWLINE]"

abbreviation records :: "audit_buffer history_step list \<Rightarrow> string list" where
  "records hs \<equiv> map event_bytes (events_of hs)"

abbreviation small_batches :: "nat \<Rightarrow> audit_buffer history_step list \<Rightarrow> bool" where
  "small_batches n hs \<equiv> list_all plain_event (events_of hs) \<and> batches (\<lambda>ab. length (event_text ab) + 1) n hs"

interpretation ends: recorder end_event plain_event "\<lambda>_. True" "\<lambda>ab. length (event_text ab) + 1" "\<lambda>ab r. r = event_bytes ab"
proof unfold_locales
  fix ab and s :: "'dev host"
  assume "plain_event ab" and "hostbuf_ok (audit_cbuff s)" and "\<not> hardlog_audit_producer s"
    and "used (audit_cbuff s) + (length (event_text ab) + 1) \<le> CBUFF"
    and "unat (head (audit_cbuff s)) mod CBUFF + (length (event_text ab) + 1) \<le> CBUFF"
  from event_step [OF this(1-3), where flushtimef = False and now = 0] this(4,5)
  show "\<exists>s' r. end_event ab s = Inr s' \<and> r = event_bytes ab \<and> length r \<le> length (event_text ab) + 1 \<and> appended s r s'
    \<and> \<not> hardlog_audit_producer s' \<and> head (audit_cbuff s') = head (audit_cbuff s) + of_nat (length r) \<and> True"
    by (auto simp: end_event_def)
qed simp

lemma written_records: "list_all2 (\<lambda>ab r. r = event_bytes ab) es rs \<longleftrightarrow> rs = map event_bytes es"
  by (induction es arbitrary: rs) (auto simp: list_all2_Cons1)

lemma length_records: "length (concat (map event_bytes es)) = (\<Sum>ab\<leftarrow>es. length (event_text ab) + 1)"
  by (induction es) simp_all

lemma empty_queue: "tail cb = head cb \<Longrightarrow> used cb = 0 \<and> pending cb = []"
  by (simp add: used_def pending_def)

lemma events_outcome:
  assumes "append_sink stored submit" and "small_batches 0 hs" and "length hs < 2 ^ 32"
    and "unat (head (audit_cbuff s)) + length (concat (records hs)) \<le> CBUFF" and "tail (audit_cbuff s) = head (audit_cbuff s)"
    and "usb_ready (usb_state s)" and "hostbuf_ok (audit_cbuff s)" and "\<not> hardlog_audit_producer s"
    and "write_count (meas s) = 0"
  shows "\<exists>s' chunks. run_history (bio_write submit) hs s = Inr s'
    \<and> stored (dev (usb_state s')) = stored (dev (usb_state s)) @ concat (map (\<lambda>(data, pad). data @ pad) chunks)
    \<and> list_all (\<lambda>(data, pad). length pad < 4096 \<and> 4096 dvd length data + length pad) chunks
    \<and> concat (map fst chunks) @ pending (audit_cbuff s') = concat (records hs)"
proof -
  have "unat (head (audit_cbuff s)) + (\<Sum>ab\<leftarrow>events_of hs. length (event_text ab) + 1) \<le> CBUFF"
    using assms(4) by (simp only: length_records)
  then show ?thesis
    using ends.history_outcome [OF assms(1), of hs s] assms(2,3,5-) empty_queue [OF assms(5)]
    by (simp add: written_records list_all_iff) blast
qed

section \<open>Properties\<close>



end
