(* ===== verification/HL_Calls.thy ===== *)
theory HL_Calls
  imports HL_Hooks HL_History
begin

text \<open>
  Whole calls of the kernel's audit code on the host: the records of a system call (\<open>audit_log_exit\<close> in
  \<open>src/host/kernel/linux-5.4.92-host.diff\<close>), each from its start to its end, and the daemon's turns between them.
  The calls are a \<open>recorder\<close>; what a call writes is its time stamp and text with a newline, or nothing where the module
  takes the event for an empty one.
\<close>

section \<open>The calls and what they write\<close>

datatype record_call = SyscallRecord audit_context task | FdPairRecord audit_context | SockaddrRecord audit_context

fun emit_record :: "'dev host kaudit \<Rightarrow> record_call \<Rightarrow> 'dev host \<Rightarrow> 'dev host res" where
  "emit_record K (SyscallRecord c t) s = rbind (log_syscall K c t False 0 [] s) (\<lambda>(s', _). Inr s')"
| "emit_record K (FdPairRecord c) s = rbind (log_fd_pair K c False 0 [] s) (\<lambda>(s', _). Inr s')"
| "emit_record K (SockaddrRecord c) s = rbind (log_sockaddr K c False 0 [] s) (\<lambda>(s', _). Inr s')"

fun context_of :: "record_call \<Rightarrow> audit_context" where
  "context_of (SyscallRecord c _) = c"
| "context_of (FdPairRecord c) = c"
| "context_of (SockaddrRecord c) = c"

text \<open>The text of a record after its time stamp, full or short; none when there is no such record.\<close>

fun call_body :: "'z logger_scheme kaudit \<Rightarrow> bool \<Rightarrow> record_call \<Rightarrow> string option" where
  "call_body K short (SyscallRecord c t) = Some (body_text K short c t)"
| "call_body K short (FdPairRecord c) =
     (if 0 \<le> fst (fds c) then Some (tl (spaced short [(''fd0'', dec32 (fst (fds c))), (''fd1'', dec32 (snd (fds c)))])) else None)"
| "call_body K short (SockaddrRecord c) =
     (if sockaddr_len c \<noteq> 0 then Some (field_text short (''saddr'', hex_loop (pack_of K) (sockaddr c))) else None)"

text \<open>Events of less than 35 characters are dropped.\<close>

definition kept :: "string \<Rightarrow> string" where
  "kept u = (if length u < 35 then [] else u @ [NEWLINE])"

definition record_bytes :: "'z logger_scheme kaudit \<Rightarrow> bool \<Rightarrow> int \<times> int \<times> int \<Rightarrow> record_call \<Rightarrow> string" where
  "record_bytes K short stamp call =
     (case call_body K short call of None \<Rightarrow> [] | Some b \<Rightarrow> kept (stamp_text short stamp @ b))"

text \<open>A record that fits an event with any time stamp (at most 61 characters), of an ordinary system call.\<close>

definition call_fits :: "'z logger_scheme kaudit \<Rightarrow> bool \<Rightarrow> record_call \<Rightarrow> bool" where
  "call_fits K short call \<longleftrightarrow>
     (case call_body K short call of None \<Rightarrow> True | Some b \<Rightarrow> length b \<le> 448 \<and> NUL \<notin> set b)
     \<and> \<not> is_prio_syscall (major (context_of call))
     \<and> (case call of SockaddrRecord c \<Rightarrow> unat (sockaddr_len c) = length (sockaddr c) | _ \<Rightarrow> True)"

text \<open>The native audit code leaves the daemon alone, and its allocators succeed.\<close>

definition same_daemon :: "'dev host \<Rightarrow> 'dev host \<Rightarrow> bool" where
  "same_daemon s s' \<longleftrightarrow> same_module s s' \<and> usb_state s' = usb_state s \<and> write_count (meas s') = write_count (meas s)"

definition keeps_daemon :: "'dev host kaudit \<Rightarrow> bool" where
  "keeps_daemon K \<longleftrightarrow> (\<forall>c ty s. same_daemon s (snd (buffer_alloc K c ty s)))
     \<and> (\<forall>ab s. same_daemon s (audit_buffer_free K ab s)) \<and> (\<forall>ab str n s. same_daemon s (n_hex_native K ab str n s))"

definition allocs_events :: "'dev host kaudit \<Rightarrow> bool" where
  "allocs_events K \<longleftrightarrow> (\<exists>b. (if use_vmalloc K then vmalloc_of K 512 else kmalloc_of K 512) = Some b \<and> live b \<and> bsize b = 512)
     \<and> (\<forall>c ty s. \<exists>ab s'. buffer_alloc K (Some c) ty s = (Some ab, s') \<and> ctx ab = Some c)"

definition audit_code_ok :: "'dev host kaudit \<Rightarrow> bool" where
  "audit_code_ok K \<longleftrightarrow> native_calls K \<and> keeps_daemon K \<and> allocs_events K"

definition hooks_on :: "bool \<Rightarrow> 'dev host \<Rightarrow> bool" where
  "hooks_on short s \<longleftrightarrow> hardlog_active s \<and> hardlog_microlog_active s = short"

section \<open>The time stamp\<close>

lemma length_unsigned: "length (convert long CHR ''u'' (Num n)) \<le> (if long then 20 else 10)"
proof -
  define m :: int where "m = (if long then 2 ^ 64 else 2 ^ 32)"
  have "0 \<le> n mod m" "n mod m < m" by (simp_all add: m_def)
  then have "nat (n mod m) < nat m" by linarith
  also have "nat m \<le> 10 ^ (if long then 20 else 10)" by (simp add: m_def)
  finally have "length (to_string (nat (n mod m))) \<le> (if long then 20 else 10)" by (intro length_to_string) simp_all
  moreover have "convert long CHR ''u'' (Num n) = to_string (nat (n mod m))"
    unfolding convert.simps(2) Let_def m_def by simp
  ultimately show ?thesis by simp
qed

lemma NUL_number: "NUL \<notin> set (convert long k (Num n))"
proof -
  have "\<not> number_char NUL" by (simp add: number_char_def)
  then show ?thesis using number_chars [of long k n] by blast
qed

lemma stamp_bound: "length (stamp_text short stamp) \<le> 61" "NUL \<notin> set (stamp_text short stamp)"
proof -
  obtain sec nsec serial where st: "stamp = (sec, nsec, serial)" by (cases stamp) auto
  let ?ms = "convert True CHR ''u'' (Num (nsec div 1000000))"
  have "length (pad_zeros 3 ?ms) \<le> 20" using length_unsigned [of True "nsec div 1000000"] by (simp add: pad_zeros_def)
  then show "length (stamp_text short stamp) \<le> 61"
    using length_unsigned [of True sec] length_unsigned [of False serial] st by (simp add: stamp_text_def)
  show "NUL \<notin> set (stamp_text short stamp)"
    using NUL_number by (auto simp: st stamp_text_def pad_zeros_def)
qed

section \<open>A record from its start to its end\<close>

text \<open>A call that adds a text to the event and, of the host, changes nothing that matters.\<close>

definition writes_text :: "bool \<Rightarrow> 'dev host call \<Rightarrow> string \<Rightarrow> bool" where
  "writes_text m call u \<longleftrightarrow> (\<forall>ab s. event_room ab \<longrightarrow> nat (hardlog_event_consumed ab) + length u \<le> 510 \<longrightarrow> hooks_on m s \<longrightarrow>
     (\<exists>s'. call (Some ab, s) = Inr (Some (append_text ab u), s') \<and> same_daemon s s'))"

lemma same_daemon_refl [simp]: "same_daemon s s"
  by (simp add: same_daemon_def same_module_def)

lemma same_daemon_trans: "same_daemon s s' \<Longrightarrow> same_daemon s' s'' \<Longrightarrow> same_daemon s s''"
  by (simp add: same_daemon_def same_module_def)

lemma same_daemon_hooks: "same_daemon s s' \<Longrightarrow> hooks_on m s' = hooks_on m s"
  by (simp add: same_daemon_def same_module_def hooks_on_def)

lemma adds_writes: "adds m call u \<Longrightarrow> writes_text m call u"
  unfolding writes_text_def hooks_on_def by (meson addsD same_daemon_refl)

lemma writes_n_hex:
  assumes "keeps_daemon K" and "unat n = length str"
  shows "writes_text m (audit_log_n_hex K str n) (hex_loop (pack_of K) str)"
proof -
  have "of_nat (unat n) = n" by simp
  then have n: "n = of_nat (length str)" using assms(2) by simp
  show ?thesis
    unfolding writes_text_def
  proof (intro allI impI)
    fix ab :: audit_buffer and s :: "'a host"
    assume "event_room ab" "nat (hardlog_event_consumed ab) + length (hex_loop (pack_of K) str) \<le> 510" "hooks_on m s"
    then have "audit_log_n_hex K str n (Some ab, s)
        = Inr (Some (append_text ab (hex_loop (pack_of K) str)), n_hex_native K (append_text ab (hex_loop (pack_of K) str)) str n s)"
      using run_event_op_appends [of ab "pack_of K" "NHex str"] n by (simp add: audit_log_n_hex_def is_hardlog_active_def hooks_on_def)
    then show "\<exists>s'. audit_log_n_hex K str n (Some ab, s) = Inr (Some (append_text ab (hex_loop (pack_of K) str)), s') \<and> same_daemon s s'"
      using assms(1) by (auto simp: keeps_daemon_def)
  qed
qed

lemma writes_after:
  assumes "adds m call u" and "writes_text m call' v"
  shows "writes_text m (seq [call, call']) (u @ v)"
  unfolding writes_text_def
proof (intro allI impI)
  fix ab :: audit_buffer and s :: "'a host"
  assume p: "event_room ab" "nat (hardlog_event_consumed ab) + length (u @ v) \<le> 510" "hooks_on m s"
  have l: "nat (hardlog_event_consumed ab) + length u \<le> 510" using p(2) by simp
  note a = append_text_ok [OF p(1), of u]
  have "event_room (append_text ab u)" using a(1) l event_ok_room by simp
  moreover have "nat (hardlog_event_consumed (append_text ab u)) + length v \<le> 510"
    using a(4) l p(1,2) by (auto elim!: event_roomE)
  ultimately obtain s' where "call' (Some (append_text ab u), s) = Inr (Some (append_text (append_text ab u) v), s')" "same_daemon s s'"
    using assms(2) p(3) unfolding writes_text_def by blast
  moreover have "call (Some ab, s) = Inr (Some (append_text ab u), s)"
    using addsD [OF assms(1) p(1) l] p(3) by (simp add: hooks_on_def)
  ultimately show "\<exists>s'. seq [call, call'] (Some ab, s) = Inr (Some (append_text ab (u @ v)), s') \<and> same_daemon s s'"
    using append_text_append [OF p(1)] by auto
qed

text \<open>The end of an event of the host, dropped or appended.\<close>

lemma end_kept:
  assumes "keeps_daemon K" and "hooks_on m s" and "event_ok ab" and "NUL \<notin> set (event_text ab)" and "length (event_text ab) \<le> 509"
    and "\<forall>c. ctx ab = Some c \<longrightarrow> \<not> is_prio_syscall (major c)" and "hostbuf_ok (audit_cbuff s)" and "\<not> hardlog_audit_producer s"
    and "used (audit_cbuff s) + 510 \<le> CBUFF" and "unat (head (audit_cbuff s)) mod CBUFF + 510 \<le> CBUFF"
  shows "\<exists>s'. audit_log_end K False 0 [] (Some ab, s) = Inr (s', []) \<and> appended s (kept (event_text ab)) s' \<and> \<not> hardlog_audit_producer s'
    \<and> head (audit_cbuff s') = head (audit_cbuff s) + of_nat (length (kept (event_text ab))) \<and> hooks_on m s'"
proof -
  have free: "same_daemon s1 (audit_buffer_free K ab1 s1)" for ab1 s1 using assms(1) by (simp add: keeps_daemon_def)
  obtain ab1 s1 where s1: "audit_log_end_hardlog False 0 (Some ab) [] s = Inr (Some ab1, s1, [])" "appended s (kept (event_text ab)) s1"
      "\<not> hardlog_audit_producer s1" "head (audit_cbuff s1) = head (audit_cbuff s) + of_nat (length (kept (event_text ab)))" "hooks_on m s1"
  proof (cases "length (event_text ab) < 35")
    case True
    with short_event [OF assms(3,4), of False 0 "[]" s] that show ?thesis
      using assms(2,7,8) by (auto simp: kept_def appended_def hooks_on_def update_empty_logs_measurement_def)
  next
    case False
    then have rec: "event_record ab = kept (event_text ab)"
      using assms(3,5) by (simp add: event_record_short event_ok_room kept_def)
    obtain ab1 where "audit_log_end_hardlog False 0 (Some ab) [] s = Inr (Some ab1, commit_record False 0 (event_record ab) s, [])"
      using end_event_now [where flushtimef = False and now = 0, OF assms(3,4) _ assms(7,8) _ assms(6)] assms(9) False by fastforce
    moreover have "appended s (event_record ab) (commit_record False 0 (event_record ab) s)"
      using assms False by (intro commit_appends) (simp_all add: rec kept_def)
    ultimately show ?thesis
      using that assms(2,7) by (auto simp: rec push_bytes_head hooks_on_def commit_record_def)
  qed
  let ?s = "audit_buffer_free K (Some ab1) s1"
  have f: "same_daemon s1 ?s" by (rule free)
  moreover have "audit_log_end K False 0 [] (Some ab, s) = Inr (?s, [])"
    using s1(1) assms(2) by (simp add: audit_log_end_def is_hardlog_active_def hooks_on_def)
  ultimately show ?thesis
    using s1(2-5) same_daemon_hooks [OF f, of m] by (auto simp: same_daemon_def same_module_def appended_def)
qed

text \<open>A whole record: what it leaves behind is its stamp and text, when the module keeps it.\<close>

lemma record_kept:
  assumes "audit_code_ok K" and "hooks_on m s" and "writes_text m body u" and "length u \<le> 448" and "NUL \<notin> set u"
    and "\<not> is_prio_syscall (major c)" and "hostbuf_ok (audit_cbuff s)" and "\<not> hardlog_audit_producer s"
    and "used (audit_cbuff s) + 510 \<le> CBUFF" and "unat (head (audit_cbuff s)) mod CBUFF + 510 \<le> CBUFF"
  shows "\<exists>s' stamp. log_record K ty c body False 0 [] s = Inr (s', []) \<and> appended s (kept (stamp_text m stamp @ u)) s' \<and> \<not> hardlog_audit_producer s'
    \<and> head (audit_cbuff s') = head (audit_cbuff s) + of_nat (length (kept (stamp_text m stamp @ u))) \<and> hooks_on m s'"
proof -
  have K: "native_calls K" "keeps_daemon K" "allocs_events K" using assms(1) by (simp_all add: audit_code_ok_def)
  obtain b where b: "(if use_vmalloc K then vmalloc_of K 512 else kmalloc_of K 512) = Some b" "live b" "bsize b = 512"
    using K(3) unfolding allocs_events_def by blast
  obtain ab s0 where ab: "buffer_alloc K (Some c) ty s = (Some ab, s0)" "ctx ab = Some c"
    using K(3) unfolding allocs_events_def by blast
  have d0: "same_daemon s s0" using K(2) ab(1) unfolding keeps_daemon_def by (metis snd_conv)
  then have h0: "hooks_on m s0" using assms(2) same_daemon_hooks by blast
  then have a0: "hardlog_active s0" "hardlog_microlog_active s0 = m" by (simp_all add: hooks_on_def)
  let ?st = "stamp_text m (get_stamp K (Some c) s0)"
  note st = stamp_bound [of m "get_stamp K (Some c) s0"]
  obtain ab1 where ab1: "audit_log_start K (Some c) ty s = Inr (Some ab1, s0)" "event_ok ab1" "ctx ab1 = Some c" "event_text ab1 = ?st"
    using start_text [OF a0(1) ab b] st(1) a0(2) by auto
  have room: "event_room ab1" using ab1(2) by (rule event_ok_room)
  have "nat (hardlog_event_consumed ab1) = length ?st" using length_event_text [OF room] ab1(4) by simp
  then have fit: "nat (hardlog_event_consumed ab1) + length u \<le> 510" using st(1) assms(4) by simp
  obtain s1 where s1: "body (Some ab1, s0) = Inr (Some (append_text ab1 u), s1)" "same_daemon s0 s1"
    using assms(3) room fit h0 unfolding writes_text_def by blast
  have t: "event_ok (append_text ab1 u)" "event_text (append_text ab1 u) = ?st @ u" "ctx (append_text ab1 u) = Some c"
    using append_text_ok [OF room, of u] fit ab1(3,4) by simp_all
  have d1: "same_daemon s s1" using d0 s1(2) by (rule same_daemon_trans)
  then have cb: "audit_cbuff s1 = audit_cbuff s" "hardlog_audit_producer s1 = hardlog_audit_producer s" "hooks_on m s1"
    using assms(2) same_daemon_hooks by (auto simp: same_daemon_def same_module_def)
  have "\<exists>s'. audit_log_end K False 0 [] (Some (append_text ab1 u), s1) = Inr (s', []) \<and> appended s1 (kept (?st @ u)) s' \<and> \<not> hardlog_audit_producer s'
    \<and> head (audit_cbuff s') = head (audit_cbuff s1) + of_nat (length (kept (?st @ u))) \<and> hooks_on m s'"
    using end_kept [OF K(2) cb(3) t(1)] t(2,3) st assms(4-10) cb(1,2) by simp
  then obtain s' where s': "audit_log_end K False 0 [] (Some (append_text ab1 u), s1) = Inr (s', [])" "appended s1 (kept (?st @ u)) s'"
      "\<not> hardlog_audit_producer s'" "head (audit_cbuff s') = head (audit_cbuff s) + of_nat (length (kept (?st @ u)))" "hooks_on m s'"
    using cb(1) by auto
  moreover have "log_record K ty c body False 0 [] s = Inr (s', [])"
    using ab1(1) s1(1) s'(1) by (simp add: log_record_def)
  moreover have "appended s (kept (?st @ u)) s'"
    using s'(2) d1 by (simp add: appended_def same_daemon_def same_module_def)
  ultimately show ?thesis by blast
qed

lemma adds_fd_pair: "adds m (fd_pair_body K c m) (tl (spaced m [(''fd0'', dec32 (fst (fds c))), (''fd1'', dec32 (snd (fds c)))]))"
  using adds_format [of "''%d %d''" "[Num (fst (fds c)), Num (snd (fds c))]" _ m K]
    adds_format [of "''fd0=%d fd1=%d''" "[Num (fst (fds c)), Num (snd (fds c))]" _ m K]
  by (cases m) (simp_all add: fd_pair_body_def)

lemma writes_sockaddr:
  assumes "keeps_daemon K" and "unat (sockaddr_len c) = length (sockaddr c)"
  shows "writes_text m (sockaddr_body K c m) (field_text m (''saddr'', hex_loop (pack_of K) (sockaddr c)))"
  using writes_n_hex [OF assms, of m] writes_after [OF adds_format [of "''saddr=''" "[]" "''saddr=''" m K] writes_n_hex [OF assms, of m]]
  by (cases m) (simp_all add: sockaddr_body_def)

lemma length_kept: "length u \<le> 509 \<Longrightarrow> length (kept u) \<le> 510"
  by (simp add: kept_def)

lemma call_kept:
  assumes "audit_code_ok K" and "call_fits K m call" and "hooks_on m s" and "hostbuf_ok (audit_cbuff s)" and "\<not> hardlog_audit_producer s"
    and "used (audit_cbuff s) + 510 \<le> CBUFF" and "unat (head (audit_cbuff s)) mod CBUFF + 510 \<le> CBUFF"
  shows "\<exists>s' stamp. emit_record K call s = Inr s' \<and> appended s (record_bytes K m stamp call) s' \<and> \<not> hardlog_audit_producer s'
    \<and> head (audit_cbuff s') = head (audit_cbuff s) + of_nat (length (record_bytes K m stamp call)) \<and> hooks_on m s'"
proof (cases "call_body K m call")
  case None
  have "emit_record K call s = Inr s" using None by (cases call) (auto simp: log_fd_pair_def log_sockaddr_def split: if_splits)
  then show ?thesis using None assms(3-5) by (simp add: record_bytes_def appended_refl)
next
  case (Some b)
  have K: "native_calls K" "keeps_daemon K" using assms(1) by (simp_all add: audit_code_ok_def)
  have micro: "is_hardlog_microlog_active s = m" using assms(3) by (simp add: hooks_on_def is_hardlog_microlog_active_def)
  have b: "length b \<le> 448" "NUL \<notin> set b" "\<not> is_prio_syscall (major (context_of call))"
    using assms(2) Some by (simp_all add: call_fits_def)
  have "\<exists>ty body. writes_text m body b \<and> emit_record K call s = rbind (log_record K ty (context_of call) body False 0 [] s) (\<lambda>(s', _). Inr s')"
  proof (cases call)
    case (SyscallRecord c t)
    then have "writes_text m (syscall_body K c t) b" using Some adds_writes [OF adds_body [OF K(1)]] by auto
    moreover have "emit_record K call s = rbind (log_record K AUDIT_SYSCALL (context_of call) (syscall_body K c t) False 0 [] s) (\<lambda>(s', _). Inr s')"
      using SyscallRecord by (simp add: log_syscall_def)
    ultimately show ?thesis by blast
  next
    case (FdPairRecord c)
    then have "b = tl (spaced m [(''fd0'', dec32 (fst (fds c))), (''fd1'', dec32 (snd (fds c)))])" using Some by (auto split: if_splits)
    then have "writes_text m (fd_pair_body K c m) b" using adds_writes [OF adds_fd_pair] by (simp only:)
    moreover have "emit_record K call s = rbind (log_record K AUDIT_FD_PAIR (context_of call) (fd_pair_body K c m) False 0 [] s) (\<lambda>(s', _). Inr s')"
      using FdPairRecord Some micro by (simp add: log_fd_pair_def split: if_splits)
    ultimately show ?thesis by blast
  next
    case (SockaddrRecord c)
    then have "writes_text m (sockaddr_body K c m) b"
      using Some writes_sockaddr [OF K(2), of c m] assms(2) by (auto simp: call_fits_def split: if_splits)
    moreover have "emit_record K call s = rbind (log_record K AUDIT_SOCKADDR (context_of call) (sockaddr_body K c m) False 0 [] s) (\<lambda>(s', _). Inr s')"
      using SockaddrRecord Some micro by (simp add: log_sockaddr_def split: if_splits)
    ultimately show ?thesis by blast
  qed
  then obtain ty body where body: "writes_text m body b" "emit_record K call s = rbind (log_record K ty (context_of call) body False 0 [] s) (\<lambda>(s', _). Inr s')"
    by blast
  show ?thesis using record_kept [OF assms(1,3) body(1) b assms(4-7), of ty] body(2) Some by (auto simp: record_bytes_def)
qed

lemma record_bytes_bound: "call_fits K m call \<Longrightarrow> length (record_bytes K m stamp call) \<le> 510"
  using stamp_bound(1) [of m stamp] by (auto simp: call_fits_def record_bytes_def intro!: length_kept split: option.splits)

lemma quiet_turn_hooks:
  "auditd_turn write (quiet_turn e) s = Inr s' \<Longrightarrow> hooks_on m s' = hooks_on m s"
  by (auto simp: auditd_turn_def host_write_def quiet_turn_def Let_def hooks_on_def)

interpretation calls: recorder "emit_record K" "\<lambda>call. audit_code_ok K \<and> call_fits K m call" "hooks_on m" "\<lambda>_. 510"
    "\<lambda>call r. \<exists>stamp. r = record_bytes K m stamp call"
proof unfold_locales
  fix call and s :: "'a host"
  assume "audit_code_ok K \<and> call_fits K m call" and "hooks_on m s" and "hostbuf_ok (audit_cbuff s)" and "\<not> hardlog_audit_producer s"
    and "used (audit_cbuff s) + 510 \<le> CBUFF" and "unat (head (audit_cbuff s)) mod CBUFF + 510 \<le> CBUFF"
  then show "\<exists>s' r. emit_record K call s = Inr s' \<and> (\<exists>stamp. r = record_bytes K m stamp call) \<and> length r \<le> 510 \<and> appended s r s'
    \<and> \<not> hardlog_audit_producer s' \<and> head (audit_cbuff s') = head (audit_cbuff s) + of_nat (length r) \<and> hooks_on m s'"
    using call_kept [of K m call s] record_bytes_bound by blast
qed (simp add: quiet_turn_hooks)

lemma calls_outcome:
  assumes "append_sink stored submit" and "audit_code_ok K" and "hooks_on m s" and "list_all (call_fits K m) (events_of hs)"
    and "batches (\<lambda>_. 510) 0 hs" and "length hs < 2 ^ 32" and "unat (head (audit_cbuff s)) + 510 * length (events_of hs) \<le> CBUFF"
    and "tail (audit_cbuff s) = head (audit_cbuff s)" and "usb_ready (usb_state s)" and "hostbuf_ok (audit_cbuff s)"
    and "\<not> hardlog_audit_producer s" and "write_count (meas s) = 0"
  shows "\<exists>s' chunks rs. run_steps (emit_record K) (bio_write submit) hs s = Inr s'
    \<and> list_all2 (\<lambda>call r. \<exists>stamp. r = record_bytes K m stamp call) (events_of hs) rs
    \<and> stored (dev (usb_state s')) = stored (dev (usb_state s)) @ concat (map (\<lambda>(data, pad). data @ pad) chunks)
    \<and> list_all (\<lambda>(data, pad). length pad < 4096 \<and> 4096 dvd length data + length pad) chunks
    \<and> concat (map fst chunks) @ pending (audit_cbuff s') = concat rs"
proof -
  have "sum_list (map (\<lambda>_. 510) (events_of hs)) = 510 * length (events_of hs)" by (simp add: sum_list_triv)
  moreover have "list_all (\<lambda>call. audit_code_ok K \<and> call_fits K m call) (events_of hs)" using assms(2,4) by (simp add: list_all_iff)
  ultimately show ?thesis
    using calls.history_outcome [OF assms(1), of K m hs s] assms(3,5-) empty_queue [OF assms(8)] by (simp add: list_all_iff) blast
qed

text \<open>
  A record of a priority system call, with others at work while it waits: it returns with all bytes up to its own on the
  device when the others include a turn of the daemon, and waits for ever when they do not.
\<close>

definition bytes_on_device :: "('dev \<Rightarrow> string) \<Rightarrow> string \<Rightarrow> 'dev host \<Rightarrow> 'dev host \<Rightarrow> bool" where
  "bytes_on_device stored bytes s s' \<longleftrightarrow>
     (\<exists>chunks. stored (dev (usb_state s')) = stored (dev (usb_state s)) @ concat (map (\<lambda>(data, pad). data @ pad) chunks)
        \<and> list_all (\<lambda>(data, pad). length pad < 4096 \<and> 4096 dvd length data + length pad) chunks
        \<and> prefix bytes (concat (map fst chunks)))"

lemma wait_prio:
  assumes "append_sink stored submit" and "audit_code_ok K" and "hooks_on m s1" and "list_all (call_fits K m) (events_of hs)"
    and "batches (\<lambda>_. 510) (used (audit_cbuff s1)) hs"
    and "unat (tail (audit_cbuff s1)) + used (audit_cbuff s1) = unat (head (audit_cbuff s1))"
    and "unat (head (audit_cbuff s1)) + 510 * length (events_of hs) \<le> CBUFF"
    and "usb_ready (usb_state s1)" and "hostbuf_ok (audit_cbuff s1)" and "\<not> hardlog_audit_producer s1"
    and "unat (write_count (meas s1)) + length hs < 2 ^ 32" and "ctx ab = Some c" and "is_prio_syscall (major c)"
  shows "turned hs \<Longrightarrow> \<exists>s' env'. wait_flushed ab (head (audit_cbuff s1)) (map (acts (emit_record K) (bio_write submit)) hs) s1 = Inr (s', env')
      \<and> bytes_on_device stored (pending (audit_cbuff s1)) s1 s'"
    and "\<not> turned hs \<Longrightarrow> pending (audit_cbuff s1) \<noteq> [] \<Longrightarrow>
      wait_flushed ab (head (audit_cbuff s1)) (map (acts (emit_record K) (bio_write submit)) hs) s1 = Inl Waiting"
proof -
  have good: "list_all (\<lambda>call. audit_code_ok K \<and> call_fits K m call) (events_of hs)" using assms(2,4) by (simp add: list_all_iff)
  have room: "unat (head (audit_cbuff s1)) + sum_list (map (\<lambda>_. 510) (events_of hs)) \<le> CBUFF" using assms(7) by (simp add: sum_list_triv)
  have w: "wait_flushed ab (head (audit_cbuff s1)) env s1 = rbind (wait_while (\<lambda>x. tail (audit_cbuff x) < head (audit_cbuff s1)) env s1)
      (\<lambda>(s', env'). Inr (s'\<lparr>meas := update_prio_syscall_measurement (major c) (meas s')\<rparr>, env'))" for env
    using assms(12,13) by (simp add: wait_flushed_def)
  note hs = assms(1) good assms(5,6) room assms(8-11,3)
  show "turned hs \<Longrightarrow> \<exists>s' env'. wait_flushed ab (head (audit_cbuff s1)) (map (acts (emit_record K) (bio_write submit)) hs) s1 = Inr (s', env')
      \<and> bytes_on_device stored (pending (audit_cbuff s1)) s1 s'"
    using calls.wait_durable [OF hs] by (fastforce simp: w bytes_on_device_def list_all_iff)
  show "\<not> turned hs \<Longrightarrow> pending (audit_cbuff s1) \<noteq> [] \<Longrightarrow>
      wait_flushed ab (head (audit_cbuff s1)) (map (acts (emit_record K) (bio_write submit)) hs) s1 = Inl Waiting"
    using calls.wait_needs_turn [OF hs] by (simp add: w)
qed

text \<open>The priority call itself: start, fields and end of its record, in the present state of the host.\<close>

lemma prio_record_end:
  assumes "audit_code_ok K" and "hooks_on m s" and "length (body_text K m c t) \<le> 448" and "NUL \<notin> set (body_text K m c t)"
    and "35 \<le> length (body_text K m c t)" and "hostbuf_ok (audit_cbuff s)" and "\<not> hardlog_audit_producer s"
    and "used (audit_cbuff s) + 510 \<le> CBUFF" and "unat (head (audit_cbuff s)) + 510 \<le> CBUFF"
  shows "\<exists>stamp ab s1 ab'. log_syscall K c t False 0 env s =
      rbind (wait_flushed ab (head (audit_cbuff s1)) env s1) (\<lambda>(s2, env2). Inr (audit_buffer_free K (Some ab') s2, env2))
    \<and> ctx ab = Some c \<and> hooks_on m s1 \<and> \<not> hardlog_audit_producer s1
    \<and> appended s (stamp_text m stamp @ body_text K m c t @ [NEWLINE]) s1
    \<and> unat (head (audit_cbuff s1)) = unat (head (audit_cbuff s)) + length (stamp_text m stamp @ body_text K m c t @ [NEWLINE])"
proof -
  let ?u = "body_text K m c t"
  have K: "native_calls K" "keeps_daemon K" "allocs_events K" using assms(1) by (simp_all add: audit_code_ok_def)
  obtain b where b: "(if use_vmalloc K then vmalloc_of K 512 else kmalloc_of K 512) = Some b" "live b" "bsize b = 512"
    using K(3) unfolding allocs_events_def by blast
  obtain ab0 s0 where ab0: "buffer_alloc K (Some c) AUDIT_SYSCALL s = (Some ab0, s0)" "ctx ab0 = Some c"
    using K(3) unfolding allocs_events_def by blast
  have d: "same_daemon s s0" using K(2) ab0(1) unfolding keeps_daemon_def by (metis snd_conv)
  have h0: "hooks_on m s0" using assms(2) same_daemon_hooks [OF d] by blast
  have a0: "hardlog_active s0" "hardlog_microlog_active s0 = m" using h0 by (simp_all add: hooks_on_def)
  have cb: "audit_cbuff s0 = audit_cbuff s" "hardlog_audit_producer s0 = hardlog_audit_producer s" "usb_state s0 = usb_state s"
      "write_count (meas s0) = write_count (meas s)" using d by (simp_all add: same_daemon_def same_module_def)
  define stamp where "stamp = get_stamp K (Some c) s0"
  note st = stamp_bound [of m stamp]
  have adds: "adds (hardlog_microlog_active s0) (syscall_body K c t) ?u" unfolding a0(2) by (rule adds_body [OF K(1)])
  have "length (stamp_text (hardlog_microlog_active s0) (get_stamp K (Some c) s0) @ ?u) \<le> 510"
    using st(1) assms(3) by (simp add: a0(2) stamp_def)
  from log_record_end [OF adds a0(1) ab0 b this, of False 0 env, unfolded a0(2) stamp_def [symmetric]]
  obtain ab where ab: "log_syscall K c t False 0 env s = audit_log_end K False 0 env (Some ab, s0)" "event_ok ab" "ctx ab = Some c"
      "event_text ab = stamp_text m stamp @ ?u" unfolding log_syscall_def by blast
  let ?rec = "stamp_text m stamp @ ?u @ [NEWLINE]" and ?s1 = "commit_record False 0 (event_record ab) s0"
  have rec: "event_record ab = ?rec" using ab(2,4) st(1) assms(3) by (simp add: event_record_short event_ok_room)
  have len: "length ?rec \<le> 510" using st(1) assms(3) by simp
  have nul: "NUL \<notin> set (event_text ab)" "35 \<le> length (event_text ab)" "used (audit_cbuff s0) < CBUFF"
    using ab(4) st(2) assms(4,5,8) cb(1) by simp_all
  obtain ab' where e: "audit_log_end_hardlog False 0 (Some ab) env s0 =
      rbind (wait_flushed ab (head (audit_cbuff s0) + of_nat (length (event_record ab))) env ?s1) (\<lambda>(s5, env5). Inr (Some ab', s5, env5))"
    using end_event_no_wait [OF ab(2) nul(1,2) _ _ nul(3), of False 0 env] assms(6,7) cb(1,2) by auto
  have h1: "head (audit_cbuff ?s1) = head (audit_cbuff s0) + of_nat (length ?rec)" using assms(6) cb(1) by (simp only: commit_record_cbuff push_bytes_head rec)
  have "unat (head (audit_cbuff s)) + length ?rec < 2 ^ 64" using len assms(9) by (simp add: CBUFF_eq)
  then have uh: "unat (head (audit_cbuff ?s1)) = unat (head (audit_cbuff s)) + length ?rec"
    using unat_add_small [of "head (audit_cbuff s)" "length ?rec"] h1 cb(1) by simp
  have mod: "unat (head (audit_cbuff s)) mod CBUFF \<le> unat (head (audit_cbuff s))" by (rule mod_less_eq_dividend)
  then have "unat (head (audit_cbuff s)) mod CBUFF + length ?rec \<le> CBUFF" "used (audit_cbuff s) + length ?rec \<le> CBUFF"
    using len assms(8,9) by linarith+
  then have "appended s0 ?rec ?s1" unfolding rec by (intro commit_appends) (simp_all add: cb(1) assms(6))
  then have app: "appended s ?rec ?s1" using cb by (simp add: appended_def)
  have "log_syscall K c t False 0 env s =
      rbind (wait_flushed ab (head (audit_cbuff ?s1)) env ?s1) (\<lambda>(s2, env2). Inr (audit_buffer_free K (Some ab') s2, env2))"
    using ab(1) e h1 rec a0(1) by (simp add: audit_log_end_def is_hardlog_active_def rbind_assoc split_def)
  moreover have "hooks_on m ?s1" "\<not> hardlog_audit_producer ?s1" using h0 cb(2) assms(7) by (simp_all add: hooks_on_def commit_record_def)
  ultimately show ?thesis using ab(3) app uh by blast
qed

text \<open>A sample: the audit code of \<open>HL_Hooks\<close> on the sample host, and one system call.\<close>

lemma sample_code_ok: "audit_code_ok sample_kaudit"
proof -
  have "keeps_daemon sample_kaudit" by (simp add: keeps_daemon_def same_daemon_def same_module_def sample_kaudit_def base_kaudit_def)
  moreover have "allocs_events sample_kaudit" by (simp add: allocs_events_def sample_kaudit_facts(5-7))
  ultimately show ?thesis by (simp add: audit_code_ok_def sample_kaudit_facts(1))
qed

abbreviation sample_call :: record_call where
  "sample_call \<equiv> SyscallRecord (syscall_context 2) sample_task"

lemma sample_call_fits: "call_fits sample_kaudit False sample_call"
  by (simp add: call_fits_def sample_body is_prio_iff prio_syscalls_def)

text \<open>A call of \<open>execve\<close>, a priority system call.\<close>

lemma sample_exec_body:
  "body_text sample_kaudit False (syscall_context 59) sample_task =
    ''arch=c000003e syscall=59 success=yes exit=0 a0=0 a1=0 a2=0 a3=0 items=0 ppid=1 pid=42 auid=4294967295 uid=0 gid=0 euid=0 suid=0 fsuid=0 egid=0 sgid=0 fsgid=0 tty=(none) ses=4294967295 comm=\"cat\" exe=\"/bin/cat\" key=(null)''"
  by (simp add: body_text_def syscall_fields_def call_fields_def result_fields_def task_fields_def key_text_def untrusted_def sample_kaudit_facts
      syscall_context_def sample_task_def PER_LINUX_def AUDITSC_SUCCESS_def convert.simps(2) signed_text_def to_string.simps to_hex.simps hex_digit_def digit_def;
    simp add: char_of_def bit_0)

lemma sample_hooks_on: "hooks_on False (host_at h t)"
  by (simp add: hooks_on_def host_at_def)

section \<open>Lengths of numbers\<close>

lemma unsigned_small: "0 \<le> n \<Longrightarrow> n < 2 ^ 32 \<Longrightarrow> convert long CHR ''u'' (Num n) = to_string (nat n)"
  unfolding convert.simps(2) Let_def by simp

lemma decimal_small: "0 \<le> n \<Longrightarrow> n < 2 ^ 31 \<Longrightarrow> dec32 n = to_string (nat n)"
  unfolding convert.simps(2) Let_def signed_text_def by simp

lemma length_milliseconds:
  assumes "0 \<le> nsec" and "nsec < 10 ^ 9"
  shows "length (pad_zeros 3 (convert True CHR ''u'' (Num (nsec div 1000000)))) = 3"
proof -
  have ms: "0 \<le> nsec div 1000000" "nsec div 1000000 < 10 ^ 3" using assms by simp_all
  then have "nat (nsec div 1000000) < 10 ^ 3" by (simp add: nat_less_iff)
  then have "length (to_string (nat (nsec div 1000000))) \<le> 3" by (intro length_to_string) simp_all
  then show ?thesis using ms by (simp add: unsigned_small pad_zeros_def)
qed

lemma length_descriptor:
  assumes "0 \<le> fd" and "fd < 1000"
  shows "length (dec32 fd) \<le> 3" and "0 < length (dec32 fd)" and "NUL \<notin> set (dec32 fd)"
proof -
  have "nat fd < 10 ^ 3" using assms by (simp add: nat_less_iff)
  then have "length (to_string (nat fd)) \<le> 3" by (intro length_to_string) simp_all
  moreover have "0 < length (to_string (nat fd))" using to_string_Cons [of "nat fd"] by (cases "to_string (nat fd)") auto
  ultimately show "length (dec32 fd) \<le> 3" "0 < length (dec32 fd)" using assms by (simp_all add: decimal_small)
qed (rule NUL_number)

section \<open>Properties\<close>



text \<open>
  C39: the short form loses the descriptors of \<open>pipe\<close> and \<open>socketpair\<close>. With \<open>microlog\<close> the record of a pair of
  descriptors below 1000 has less than 35 characters, so the module takes it for an empty event and drops it: the host's
  buffer is as before. In the full form the same record is long enough to be kept.
\<close>

theorem short_pair_dropped:
  assumes "keeps_module K" and "hardlog_active s" and "hardlog_microlog_active s"
    and "buffer_alloc K (Some c) AUDIT_FD_PAIR s = (Some ab, s0)" and "ctx ab = Some c"
    and "(if use_vmalloc K then vmalloc_of K 512 else kmalloc_of K 512) = Some b" and "live b" and "bsize b = 512"
    and "get_stamp K (Some c) s0 = (sec, nsec, serial)" and "10 ^ 9 \<le> sec" and "sec < 2 ^ 32" and "0 \<le> nsec" and "nsec < 10 ^ 9"
    and "0 \<le> fst (fds c)" and "fst (fds c) < 1000" and "0 \<le> snd (fds c)" and "snd (fds c) < 1000"
  shows "\<exists>s'. log_fd_pair K c flushtimef now env s = Inr (s', env) \<and> audit_cbuff s' = audit_cbuff s
    \<and> 35 \<le> length (stamp_text False (sec, nsec, serial) @ the (call_body K False (FdPairRecord c)))"
proof -
  have same: "same_module s s0" using assms(1,4) unfolding keeps_module_def by (metis snd_conv)
  have m: "hardlog_active s0" "hardlog_microlog_active s0 = True" "audit_cbuff s0 = audit_cbuff s" using same_moduleD [OF same] assms(2,3) by auto
  let ?st = "stamp_text True (sec, nsec, serial)" and ?b = "tl (spaced True [(''fd0'', dec32 (fst (fds c))), (''fd1'', dec32 (snd (fds c)))])"
  note fd = length_descriptor [OF assms(14,15)] length_descriptor [OF assms(16,17)]
  note ms = length_milliseconds [OF assms(12,13)]
  have "length (convert True CHR ''u'' (Num sec)) \<le> 10" "9 < length (convert True CHR ''u'' (Num sec))"
    using assms(10,11) by (auto simp: unsigned_small nat_less_iff le_nat_iff intro!: length_to_string to_string_lower)
  then have short: "length (?st @ ?b) < 35"
    and full: "35 \<le> length (stamp_text False (sec, nsec, serial) @ the (call_body K False (FdPairRecord c)))"
    using fd ms length_unsigned [of False serial] assms(14) by (simp_all add: stamp_text_def del: length_greater_0_conv)
  have "adds True (fd_pair_body K c True) ?b" by (rule adds_fd_pair)
  then have a: "adds (hardlog_microlog_active s0) (fd_pair_body K c True) ?b" by (simp only: m(2))
  obtain ab' where ab': "log_record K AUDIT_FD_PAIR c (fd_pair_body K c True) flushtimef now env s = audit_log_end K flushtimef now env (Some ab', s0)"
      "event_ok ab'" "event_text ab' = ?st @ ?b"
    using log_record_end [OF a m(1) assms(4-8), of flushtimef now env] short m(2) assms(9) by auto
  have "NUL \<notin> set (event_text ab')" using ab'(3) fd stamp_bound(2) [of True "(sec, nsec, serial)"] by simp
  then obtain ab2 where "audit_log_end_hardlog flushtimef now (Some ab') env s0 = Inr (Some ab2, s0\<lparr>meas := update_empty_logs_measurement (meas s0)\<rparr>, env)"
    using short_event [OF ab'(2)] ab'(3) short by metis
  moreover have "audit_cbuff (audit_buffer_free K x y) = audit_cbuff y" for x y using assms(1) by (simp add: keeps_module_def same_module_def)
  ultimately show ?thesis
    using ab'(1) m full assms(3,14) by (auto simp: log_fd_pair_def audit_log_end_def is_hardlog_active_def is_hardlog_microlog_active_def)
qed

theorem short_pair_dropped_witness:
  "\<exists>s'. log_fd_pair sample_kaudit ((syscall_context 22)\<lparr>fds := (3, 4)\<rparr>) False 0 [] ((logger_at 0 0)\<lparr>hardlog_microlog_active := True\<rparr>) = Inr (s', [])
    \<and> audit_cbuff s' = audit_cbuff (logger_at 0 0)"
proof -
  have "hardlog_active ((logger_at 0 0)\<lparr>hardlog_microlog_active := True\<rparr>)" by (simp add: logger_at_def)
  from short_pair_dropped [OF sample_kaudit_facts(2) this _ sample_kaudit_facts(5), of "(syscall_context 22)\<lparr>fds := (3, 4)\<rparr>" "\<lparr>cells = (\<lambda>_. NUL), bsize = 512, live = True\<rparr>" 1648271234 7000000 3 False 0 "[]"]
  show ?thesis by (simp add: sample_kaudit_facts(3,6,7)) blast
qed

end
