(* ===== verification/GD_EndToEnd.thy ===== *)
theory GD_EndToEnd
  imports GD_Transfer HL_Calls
begin

text \<open>
  The host and the audit device composed: the records of system calls, through the host's buffer and daemon
  (\<open>HL_Main\<close>), as write commands to the device (\<open>GD_Transfer\<close>), through the device's buffer and flusher
  (\<open>GD_Gadget\<close>), to the file behind the exported disk.

  What lies between is the host's USB storage driver: it is a parameter here, as the way in which the bytes that the
  module hands to the block layer are divided into commands.
\<close>

section \<open>The path of a record\<close>

text \<open>A fresh device: an empty buffer, no thread in the middle of its work.\<close>

definition device_fresh :: "('f \<Rightarrow> char list) \<Rightarrow> 'f device \<Rightarrow> nat \<Rightarrow> bool" where
  "device_fresh data d i \<longleftrightarrow> device_ok data d \<and> (\<exists>r. writer d = WReply r) \<and> flushd d = FIdle \<and> taken d = []
     \<and> chead (data_cbuff (gad d)) = 0 \<and> ctail (data_cbuff (gad d)) = 0 \<and> buffers_free (gad d)
     \<and> device_lun (gad d) = Some i \<and> i < length (luns (gad d))"

lemma device_serves_stream:
  assumes "stores_at data (vfs_write k)" and "writes_upto lim (vfs_write k)" and "writes_own_disk k" and "usb_starts (usb_ops_of k)"
    and "device_fresh data d i" and "served k i cs d" and "length (concat (map (\<lambda>c. fst (snd c)) cs)) \<le> DBUFF"
    and "length (log_of data (gad d)) + length (concat (map (\<lambda>c. fst (snd c)) cs)) \<le> lim"
  shows "\<exists>d'. device_run k (command_events i cs) d = Inr d' \<and> prefix (log_of data (gad d')) (log_of data (gad d) @ concat (map (\<lambda>c. fst (snd c)) cs))
    \<and> (flushd d' = FIdle \<longrightarrow> log_of data (gad d') @ dev_pending (gad d') = log_of data (gad d) @ concat (map (\<lambda>c. fst (snd c)) cs))"
proof -
  obtain r where f: "device_ok data d" "writer d = WReply r" "flushd d = FIdle" "taken d = []"
      "chead (data_cbuff (gad d)) = 0" "ctail (data_cbuff (gad d)) = 0" "buffers_free (gad d)" "device_lun (gad d) = Some i" "i < length (luns (gad d))"
    using assms(5) unfolding device_fresh_def by blast
  obtain d' r' where d': "device_run k (command_events i cs) d = Inr d'" "taken d' = concat (map (\<lambda>c. fst (snd c)) cs)"
    using commands_outcome [OF assms(1,3) f(1,2,7-9) assms(4,6)] f(4) by auto
  have "stream_ok data (log_of data (gad d)) d'"
    by (rule first_lap_run [OF assms(1-3) f(1) fresh_stream [OF f(5,6,3,4,2)] d'(1)]) (use assms(7,8) d'(2) in simp_all)
  then show ?thesis
    using d' by (elim stream_okE) (auto simp: flush_from_def dev_pending_def dev_used_def intro: prefixI [OF sym])
qed

section \<open>Properties\<close>



text \<open>
  The witness: one record and one turn on the host; the page that the host writes is one command to the device, which
  answers it.
\<close>

abbreviation one_record :: "audit_buffer history_step list" where
  "one_record \<equiv> [Event (text_buffer 40 512 None), Turn 5]"

lemma one_record_run:
  assumes "emit e (host_at 0 0) = Inr s1" and "appended (host_at 0 0) r s1" and "r \<noteq> []" and "length r < 4096"
  shows "\<exists>s'. run_steps emit (bio_write tape_submit) [Event e, Turn 5] (host_at 0 0) = Inr s' \<and> length (dev (usb_state s')) = 4096 \<and> pending (audit_cbuff s') = []"
proof -
  have "pending (audit_cbuff (host_at 0 0)) = []" using host_at_facts(3) [of 0 0] by (simp add: pending_def)
  then have p: "pending (audit_cbuff s1) = r" "tail (audit_cbuff s1) = 0" "usb_ready (usb_state s1)" "hostbuf_ok (audit_cbuff s1)"
      "write_count (meas s1) = 0" "dev (usb_state s1) = []"
    using assms(2) by (simp_all add: appended_def host_at_facts)
  have u: "used (audit_cbuff s1) < 4096" using p(1) assms(4) length_pending [of "audit_cbuff s1"] by simp
  then have f: "plain_flush (audit_cbuff s1)" "write_count (meas s1) \<noteq> - 1" using p(2,5) by (simp_all add: plain_flush_def CBUFF_eq)
  obtain s2 pad where s2: "auditd_turn (bio_write tape_submit) (quiet_turn 5) s1 = Inr s2" "length pad < 4096"
      "4096 dvd length r + length pad" "dev (usb_state s2) = r @ pad" "pending (audit_cbuff s2) = []"
    using turn_outcome [where t = "quiet_turn 5" and xs = "[]" and ys = "[]", OF p(3,4) f(2) tape_append_sink f(1)] p(1,6)
    by (auto simp: quiet_turn_def appended_refl simp del: length_pending)
  obtain c where "length r + length pad = 4096 * c" using s2(3) by (elim dvdE)
  moreover have "0 < length r + length pad" "length r + length pad < 4096 * 2" using s2(2) assms(3,4) by simp_all
  ultimately have "c = 1" by simp
  with \<open>length r + length pad = 4096 * c\<close> have "length r + length pad = 4096" by simp
  then show ?thesis using assms(1) s2 by simp
qed

text \<open>One page, as one command to the sample device.\<close>

lemma sample_command_page:
  assumes "length bs = 4096"
  shows "command_ok (usb_ops_of sample_kernel) write10 bs (luns (gad (sample_device [])) ! 0)"
    "\<exists>d1. device_step sample_kernel (Command write10 (of_nat (length bs)) (Some 0) 0) (sample_device []) = Inr d1"
proof -
  have "\<exists>k < (32 :: nat). (512 :: u32) = 2 ^ k \<and> 2 ^ k dvd (16384 :: nat) \<and> 2 ^ k dvd (4096 :: nat)" by (intro exI [of _ 9]) simp
  moreover have "bs \<noteq> []" using assms by auto
  ultimately show "command_ok (usb_ops_of sample_kernel) write10 bs (luns (gad (sample_device [])) ! 0)"
    using assms by (simp add: command_ok_def sample_kernel_def sample_usb_def sample_device_def sample_gadget_def sample_lun_def write10_def WRITE_6_def WRITE_10_def
        reserved_bits_def get_unaligned_be32_def)
  show "\<exists>d1. device_step sample_kernel (Command write10 (of_nat (length bs)) (Some 0) 0) (sample_device []) = Inr d1"
    by (simp add: sample_defs assms)
qed

lemma sample_device_fresh: "device_fresh id (sample_device []) 0" "log_of id (gad (sample_device [])) = []"
  using sample_device_ok sample_command(3-6) sample_gadget_facts(2) [of "[]"]
  by (simp_all add: device_fresh_def) (simp_all add: sample_device_def sample_gadget_def)

lemma page_served:
  assumes "length bs = 4096"
  shows "\<exists>cs. served sample_kernel 0 cs (sample_device []) \<and> concat (map (\<lambda>c. fst (snd c)) cs) = bs"
proof -
  note c = sample_command_page [OF assms]
  obtain d1 where d1: "device_step sample_kernel (Command write10 (of_nat (length bs)) (Some 0) 0) (sample_device []) = Inr d1"
    using c(2) by blast
  have b: "unat (FSG_BUFLEN (usb_ops_of sample_kernel)) \<le> DATA_SLACK" by (simp add: sample_kernel_def sample_usb_def DATA_SLACK_eq)
  obtain es d2 where d2: "honest_run (transfer_of (usb_ops_of sample_kernel) write10 bs (luns (gad (sample_device [])) ! 0) (gad (sample_device []))) sample_kernel es d1"
      "device_run sample_kernel es d1 = Inr d2" "writer d2 = WReply (- EIO)"
    using command_finishes [OF sample_kernel_facts(1,2) sample_device_ok sample_command(6,3-5) c(1) sample_command(2) d1, of "[]" d1]
      assms b sample_first_lap by (auto simp: DBUFF_eq)
  have "served sample_kernel 0 [(write10, bs, es)] (sample_device [])" using c(1) d1 d2 by simp
  then show ?thesis by (intro exI [of _ "[(write10, bs, es)]"]) simp
qed


abbreviation one_call :: "record_call history_step list" where
  "one_call \<equiv> [Event sample_call, Turn 5]"

abbreviation host_kaudit :: "char list host kaudit" where
  "host_kaudit \<equiv> sample_kaudit"

lemma sample_call_long: "record_bytes host_kaudit False stamp sample_call \<noteq> []"
proof -
  have "35 \<le> length (body_text host_kaudit False (syscall_context 2) sample_task)" by (simp add: sample_body)
  then have "\<not> length (stamp_text False stamp @ body_text host_kaudit False (syscall_context 2) sample_task) < 35" by simp
  then show ?thesis by (simp add: record_bytes_def kept_def del: length_append)
qed

lemma one_call_run:
  "\<exists>s'. run_steps (emit_record host_kaudit) (bio_write tape_submit) one_call (host_at 0 0) = Inr s' \<and> length (dev (usb_state s')) = 4096 \<and> pending (audit_cbuff s') = []"
proof -
  obtain s1 stamp where "emit_record host_kaudit sample_call (host_at 0 0) = Inr s1" "appended (host_at 0 0) (record_bytes host_kaudit False stamp sample_call) s1"
    using call_kept [OF sample_code_ok sample_call_fits sample_hooks_on [of 0 0]] by (auto simp: host_at_facts CBUFF_eq)
  moreover have "length (record_bytes host_kaudit False stamp sample_call) < 4096" using record_bytes_bound [of host_kaudit False sample_call stamp] sample_call_fits by fastforce
  ultimately show ?thesis using one_record_run [of "emit_record host_kaudit"] sample_call_long by blast
qed


end
