(* ===== verification/Spec2Isabelle.thy ===== *)
theory Spec2Isabelle
  imports HL_Concurrency HL_Protocol HL_Hooks GD_EndToEnd
begin

text \<open>
  HardLog: a tamper-evident audit log on a separate device. A kernel module on the host collects the
  audit events of system calls in a circular buffer and a daemon writes the buffer to the audit device
  within a bounded delay; system calls that matter most wait until their record is on the device.
  An administrator asks the device for a range of the log through the same module.

  \<^bold>\<open>Theories, in the order of the imports.\<close>

  \<^item> \<open>HL_Prelude\<close>: machine words, results (\<open>stop + 'a\<close>: a memory fault, a wrapped or missing value, a
    wait that has not ended), memory blocks with bounds and lifetime, kernel pointers, wait loops over
    a list of the other threads' actions; two collections of hints (\<open>mem_simps\<close>, \<open>word_facts\<close>).
  \<^item> \<open>HL_Ring\<close>: \<open>struct audit_circ_buffer\<close> (\<open>src/host/module/hl.h\<close>) and the locale \<open>ring_geometry\<close>:
    the bytes of a buffer with free-running 64-bit counters, what an append does to them when it fits,
    when it overruns and when it crosses the capacity.
  \<^item> \<open>HL_Types\<close>: the sizes, the interpretation of \<open>ring_geometry\<close> for the host's buffer, the queue of
    pending bytes (\<open>used\<close>, \<open>pending\<close>), the priority system calls.
  \<^item> \<open>HL_Measure\<close>: \<open>hl-measure.c\<close>, the counters and the latency scan.
  \<^item> \<open>HL_Logger\<close>: \<open>hl-logger.c\<close>, one definition per function: start, format, string and hexadecimal
    fields, end (mutex, wait for room, copy, new head, priority wait), setup and teardown.
  \<^item> \<open>HL_Bio\<close>: \<open>hl-bio-fs.c\<close>, the two ways to the device. The locale \<open>usb_backend\<close> is the contract that
    the daemon needs of either; it is interpreted by \<open>bio_write\<close>, \<open>fs_write\<close> and, in \<open>HL_Main\<close>, by
    the choice between them.
  \<^item> \<open>HL_Main\<close>: \<open>hl-main.c\<close>, the daemon turn by turn, its last flush, init and exit, the registers of the
    cache partition; and single events and turns.
  \<^item> \<open>HL_History\<close>: sequential histories of calls and turns. The locale \<open>recorder\<close> is what a call that appends
    to the buffer promises; it is interpreted by \<open>audit_log_end_hardlog\<close> here and by whole calls of the
    hooked audit code in \<open>HL_Calls\<close>. Also what a thread that waits for the tail finds when it stops waiting.
  \<^item> \<open>HL_Concurrency\<close>: any number of producers and the daemon as an inductive step relation in which
    every access to the shared state is a step of its own; invariants over the reachable states, a
    refinement lemma from the sequential handler, progress.
  \<^item> \<open>HL_Requests\<close> and \<open>HL_Ioctl\<close>: \<open>hl-request.c\<close>, \<open>hl-response.c\<close>, \<open>hl-ioctl.c\<close>, the administrator's
    channel on the host.
  \<^item> \<open>HL_Cxx\<close>: what the two user-space libraries use of the C++ library. \<open>DL_Response\<close> and \<open>DL_Decode\<close>:
    \<open>src/device/library\<close>, serving a request on the device. \<open>HL_HostLib\<close>: \<open>src/host/library\<close>, the
    administrator's program over any driver.
  \<^item> \<open>HL_Protocol\<close>: both libraries and the character device composed; files exported as disks.
  \<^item> \<open>HL_Hooks\<close>: \<open>src/host/kernel/linux-5.4.92-host.diff\<close>, the hooks in the kernel's audit code, format
    strings, the full and the short form of each record, and the search for the module's functions.
    \<open>HL_Calls\<close>: the records of system calls from start to end, on the host, and what each writes.
  \<^item> \<open>GD_Flush\<close>, \<open>GD_Write\<close>, \<open>GD_Gadget\<close>, \<open>GD_Transfer\<close>: \<open>src/device/module/linux-4.4.213-usb-gadget.diff\<close>. The
    device's buffer and its flusher; the write command (\<open>do_hardlog_write\<close>) as a state machine of the
    command thread; the gadget's command dispatch, IOCTLs, set-up and tear-down, and the two threads with
    the USB controller as one system of events (\<open>device_step\<close>); whole commands with an honest controller.
  \<^item> \<open>GD_EndToEnd\<close>: host and device composed, from the system call to the log.

  \<^bold>\<open>State and operations.\<close> A C structure or the file-level variables of a C file are a record with the
  source's names; the state of the module is built by record extension (\<open>logger\<close>, \<open>host\<close>, \<open>hl_module\<close>).
  \<open>uint64_t\<close> is a 64-bit word with wrapping arithmetic, an \<open>int\<close> that is compared with a \<open>size_t\<close> is
  converted as C does. A \<open>char *\<close> allocation is a block of bytes with its size: a read or write outside
  it, through NULL or after a free is the value \<open>Inl\<close> of the result, so that the absence of faults is a
  theorem and not an assumption. A loop that sleeps until a condition holds takes the list of what the
  other threads do during each sleep; the value \<open>Inl Waiting\<close> says that it still waits at the end of the
  list. The polling loops take a bound on the number of turns, and the theorems on them say how
  many are enough (one, once the response is ready). All other loops end, which their definitions prove
  (\<open>bio_loop\<close>, \<open>response_loop\<close>, \<open>dump_loop\<close>, \<open>copy_loop\<close>, \<open>filter_loop\<close>); \<open>removeWord\<close> may not, and a
  theorem says when it does.

  \<^bold>\<open>What is shown.\<close>

  \<^item> Events: fields are rendered, appended and decoded; fields of any length keep an event well formed;
    ending an event never faults, appends its record and a newline, and releases the mutex.
  \<^item> The way to the device: \<open>bio_write\<close> submits exactly the requests of a reference definition; a turn
    delivers what was pending and keeps what arrives; for histories in the first lap of the buffer
    no record is lost or reordered; the daemon never faults, on either back-end.
  \<^item> Interleavings: mutual exclusion, bounded counters, integrity of the byte stream (for records of one
    length that divides the capacity in any number of laps, and for records of any length in the first lap),
    priority calls return after delivery, every event can finish.
  \<^item> Priority calls as whole calls: with other calls and turns while it waits, such a call returns exactly when
    there is a turn, and its record is then on the device; without the daemon it waits for ever.
  \<^item> Hooks: a system call becomes one event with all its fields; the short form has the same values;
    hardlog is active only when all pointers that the hooks call are set.
  \<^item> Device: whatever the traffic, the log only grows at its end; in the first lap what the commands bring is
    the log and the device's buffer, in order, under any interleaving; every command is taken whole and
    can be answered.
  \<^item> Requests: dumps and filtered dumps hold the right bytes, a commit publishes them, the announcement
    is read back, and the administrator's file holds exactly the compressed range.
  \<^item> Where the code does not do this: oversize formatted fields, up to 511 overwritten bytes, records
    across the capacity, the last flush, failed writes, teardown, stale announcements, the cache masks,
    the device program's stress test; short records taken for empty ones; hardlog switched on or off in the middle of a record; on the device
    an exactly full buffer, transfers across the capacity, requests that arrive during a poll, a set-up
    that needs a failed \<open>vfs_stat\<close>. Each is a theorem about the code as it is.

  \<^bold>\<open>Parameters.\<close> The block layer (\<open>submit\<close>, \<open>bread\<close>), \<open>kernel_write\<close> and \<open>vfs_write\<close>, the allocators, the openers of
  devices and files, the compressor and the clock are arguments, and so is what the two patches do not show of
  Linux: the rest of its audit code (\<open>kaudit\<close>) and of its mass-storage gadget (\<open>usb_ops\<close>, \<open>do_write_orig\<close>).
  Properties that need something of them say so (\<open>append_sink\<close>: every request is taken and stored;
  \<open>reads_image\<close>; \<open>os_ready\<close>; \<open>allocates\<close>; \<open>native_calls\<close> and \<open>keeps_module\<close> of the audit code; \<open>stores_at\<close> and
  \<open>writes_upto\<close> of the device's file), with a witness on concrete ones. Between host and device lies the host's USB
  storage driver: how it divides the bytes into commands is arbitrary.

  \<^bold>\<open>Not modelled.\<close> Scheduling priorities, core binding, wake-ups, console messages (\<open>print_measurement\<close> prints only) and
  timing output have no effect on the state that is modelled. Compiled-out code (\<open>#if 0\<close>) is left out, and
  \<open>remove_null_chars\<close> of the gadget, which nothing calls. The kernel configurations, build scripts and
  documents hold no code of the program.
\<close>

end
